(* ===== verification/Prelude.thy ===== *)
theory Prelude
  imports Main "HOL-Library.Word"
begin

text \<open>
  What every other theory of the development shares: the machine types, the ways a run of
  the C program can stop, decimal and hexadecimal printing as \<open>printf\<close> does it, reachable
  states of a step relation, and the collections of simplification rules.
\<close>

section \<open>Machine types and abnormal termination\<close>

type_synonym byte = "8 word"
type_synonym u16 = "16 word"
type_synonym u32 = "32 word"
type_synonym u64 = "64 word"

text \<open>
  The ways a run leaves the normal flow of control: an \<open>assert\<close> that fails (the program is
  built without \<open>NDEBUG\<close>), undefined behaviour of C, a call of \<open>exit\<close>, and
  \<open>Out_of_fuel\<close>, the mark of a loop that was followed for as many rounds as the model was
  given and had not ended.
\<close>

datatype stop =
  Assertion
| Out_of_bounds
| Null_deref
| Int_overflow
| Exited int
| Out_of_fuel

named_theorems wp_simps \<open>weakest preconditions of the program's statements and functions\<close>
named_theorems ext_intros \<open>functions that only add calls to the history\<close>
named_theorems lib_simps \<open>rewrite rules the component theories share\<close>

definition c_int :: "int \<Rightarrow> bool" where
  "c_int x \<longleftrightarrow> - (2 ^ 31) \<le> x \<and> x < 2 ^ 31"

section \<open>Printing numbers\<close>

definition digit_char :: "nat \<Rightarrow> char" where
  "digit_char d = ''0123456789ABCDEF'' ! d"

text \<open>The digits of a number in base \<open>b\<close>, most significant first.\<close>

function base_digits :: "nat \<Rightarrow> nat \<Rightarrow> string" where
  "base_digits b n =
     (if n < b \<or> b < 2 then [digit_char (n mod 16)]
      else base_digits b (n div b) @ [digit_char (n mod b)])"
  by pat_completeness auto
termination
  by (relation "measure snd") (auto intro: div_less_dividend)

declare base_digits.simps [simp del]

definition pad0 :: "nat \<Rightarrow> string \<Rightarrow> string" where
  "pad0 w s = replicate (w - length s) (CHR ''0'') @ s"

text \<open>\<open>%d\<close> with a minimal width \<open>w\<close> filled with zeros (\<open>%02d\<close>), for an \<open>int\<close>.\<close>

definition fmt_dec :: "nat \<Rightarrow> int \<Rightarrow> string" where
  "fmt_dec w i =
     (if i < 0 then CHR ''-'' # pad0 (w - 1) (base_digits 10 (nat (- i)))
      else pad0 w (base_digits 10 (nat i)))"

text \<open>\<open>%X\<close> with a minimal width \<open>w\<close> filled with zeros (\<open>%04X\<close>), for an unsigned number.\<close>

definition fmt_hex :: "nat \<Rightarrow> u32 \<Rightarrow> string" where
  "fmt_hex w x = pad0 w (base_digits 16 (unat x))"

lemma base_digits_small [lib_simps]: "n < b \<Longrightarrow> base_digits b n = [digit_char (n mod 16)]"
  by (simp add: base_digits.simps)

lemma base_digits_big [lib_simps]:
  "b \<le> n \<Longrightarrow> 2 \<le> b \<Longrightarrow> base_digits b n = base_digits b (n div b) @ [digit_char (n mod b)]"
  by (simp add: base_digits.simps [of b n])

lemma length_base_digits_le:
  "2 \<le> b \<Longrightarrow> n < b ^ k \<Longrightarrow> 0 < k \<Longrightarrow> length (base_digits b n) \<le> k"
proof (induction k arbitrary: n)
  case 0
  then show ?case by simp
next
  case (Suc k)
  show ?case
  proof (cases "n < b")
    case True
    then show ?thesis by (simp add: base_digits_small)
  next
    case False
    with Suc.prems have "0 < k" by (cases k) auto
    moreover from Suc.prems have "n div b < b ^ k"
      by (simp add: less_mult_imp_div_less mult.commute)
    ultimately have "length (base_digits b (n div b)) \<le> k"
      using Suc.IH Suc.prems(1) by blast
    with False Suc.prems(1) show ?thesis by (simp add: base_digits_big)
  qed
qed

lemma length_pad0 [simp]: "length (pad0 w s) = max w (length s)"
  by (simp add: pad0_def)

lemma length_fmt_dec_le:
  "0 \<le> i \<Longrightarrow> i < 10 ^ k \<Longrightarrow> 0 < k \<Longrightarrow> length (fmt_dec w i) \<le> max w k"
  using length_base_digits_le [of 10 "nat i" k]
  by (auto simp: fmt_dec_def nat_less_iff max_def)

lemma length_fmt_hex_le:
  "unat x < 16 ^ k \<Longrightarrow> 0 < k \<Longrightarrow> length (fmt_hex w x) \<le> max w k"
  using length_base_digits_le [of 16 "unat x" k]
  by (auto simp: fmt_hex_def max_def)

section \<open>Reachable states and invariants\<close>

text \<open>The states a step relation reaches from its initial states.\<close>

inductive reach :: "('s \<Rightarrow> bool) \<Rightarrow> ('s \<Rightarrow> 's \<Rightarrow> bool) \<Rightarrow> 's \<Rightarrow> bool"
  for init :: "'s \<Rightarrow> bool" and step :: "'s \<Rightarrow> 's \<Rightarrow> bool" where
  reach_init: "init s \<Longrightarrow> reach init step s"
| reach_step: "reach init step s \<Longrightarrow> step s t \<Longrightarrow> reach init step t"

text \<open>
  The contract between a concurrent component and its properties: an inductive invariant.
  A component interprets this with its own step relation; the facts of the interpretation
  are what its properties rest on.
\<close>

locale invariant_system =
  fixes init :: "'s \<Rightarrow> bool"
    and step :: "'s \<Rightarrow> 's \<Rightarrow> bool"
    and inv :: "'s \<Rightarrow> bool"
  assumes inv_init: "init s \<Longrightarrow> inv s"
    and inv_step: "inv s \<Longrightarrow> step s t \<Longrightarrow> inv t"
begin

lemma reach_inv: "reach init step s \<Longrightarrow> inv s"
  by (induction rule: reach.induct) (auto intro: inv_init inv_step)

lemma reach_step_inv: "reach init step s \<Longrightarrow> step s t \<Longrightarrow> inv t"
  using inv_step reach_inv by blast

lemma steps_inv: "step\<^sup>*\<^sup>* s t \<Longrightarrow> inv s \<Longrightarrow> inv t"
  by (induction rule: rtranclp_induct) (auto intro: inv_step)

end

lemma reach_rtranclp: "step\<^sup>*\<^sup>* s t \<Longrightarrow> reach init step s \<Longrightarrow> reach init step t"
  by (induction rule: rtranclp_induct) (auto intro: reach_step)

section \<open>Lists\<close>

lemma take_Suc_update [lib_simps]:
  "n < length xs \<Longrightarrow> take (Suc n) (xs[n := x]) = take n xs @ [x]"
  by (simp add: take_Suc_conv_app_nth)

lemma filter_single_upt: "i < n \<Longrightarrow> filter (\<lambda>j. j = i) [0..<n] = [i]"
  by (induction n) (auto simp: filter_empty_conv less_Suc_eq)

lemma remove1_nth_split:
  "i < length xs \<Longrightarrow> \<forall>j < i. xs ! j \<noteq> xs ! i \<Longrightarrow>
     remove1 (xs ! i) xs = take i xs @ drop (Suc i) xs"
proof -
  assume i: "i < length xs" and first: "\<forall>j < i. xs ! j \<noteq> xs ! i"
  have notin: "xs ! i \<notin> set (take i xs)"
    using first i by (auto simp: in_set_conv_nth)
  have "remove1 (xs ! i) (take i xs @ xs ! i # drop (Suc i) xs) = take i xs @ drop (Suc i) xs"
    using notin by (simp add: remove1_append)
  then show ?thesis using i by (simp add: id_take_nth_drop [symmetric])
qed

end
