(* ===== verification/Sys.thy ===== *)
theory Sys
  imports Prelude
begin

text \<open>
  The operating system as the program sees it, and the shape of every function of the model
  that calls it. A call is a value of \<open>syscall\<close>; the calls made so far, with their results,
  are the \<open>hist\<close>. What the system answers is a parameter: an \<open>os\<close> record, whose
  functions give the answer to the next call from the history of all calls before it. A
  theorem that quantifies over the \<open>os\<close> therefore holds for every behaviour of the
  system, of its peers and of the other threads; what the code relies on is stated about the
  \<open>os\<close> as a named hypothesis (\<open>posix_write\<close> and the like).
\<close>

section \<open>Time\<close>

text \<open>\<open>struct timeval\<close>; \<open>time_t\<close> and \<open>suseconds_t\<close> are signed and 64 bits wide.\<close>

datatype timeval = Timeval (tv_sec: int) (tv_usec: int)

text \<open>Clock values are compared seconds first.\<close>

instantiation timeval :: linorder
begin

definition less_eq_timeval :: "timeval \<Rightarrow> timeval \<Rightarrow> bool" where
  "less_eq_timeval a b \<longleftrightarrow> tv_sec a < tv_sec b \<or> tv_sec a = tv_sec b \<and> tv_usec a \<le> tv_usec b"

definition less_timeval :: "timeval \<Rightarrow> timeval \<Rightarrow> bool" where
  "less_timeval a b \<longleftrightarrow> tv_sec a < tv_sec b \<or> tv_sec a = tv_sec b \<and> tv_usec a < tv_usec b"

instance
  by standard (auto simp: less_eq_timeval_def less_timeval_def intro: timeval.expand)

end

lemma timeval_le_sec: "a \<le> b \<Longrightarrow> tv_sec a \<le> tv_sec b"
  by (auto simp: less_eq_timeval_def)

section \<open>Calls\<close>

datatype mutex = Data_mutex | Queue_mutex

datatype cond = Not_full | Not_empty

type_synonym bdaddr = "byte list"

datatype sock_kind = Inet_stream | Bt_l2cap | Bt_hidp | Bt_hci

datatype sock_opt = Reuseaddr | Linger | L2cap_lm int | L2cap_options

datatype dev_call =
  Write_uinput_dev int string
| Ioctl_set_evbit int int
| Ioctl_set_keybit int int
| Ioctl_dev_create int
| Ioctl_dev_destroy int

datatype hci_call =
  Hci_get_dev_list int
| Hci_get_dev_info int u16
| Hci_open_dev u16
| Hci_read_bd_addr int
| Hci_close_dev int
| Hci_devinfo int

datatype proc_call =
  Access string
| System string
| Fopen string
| Fclose int
| Getpwnam string
| Getgrnam string
| Setgid u32
| Setuid u32
| Malloc int
| Daemon
| Nice int
| Getuid
| Geteuid
| Sigaction string
| Pthread_create string
| Pthread_kill
| Pthread_join string

datatype syscall =
  Lock mutex
| Unlock mutex
| Signal cond
| Cond_wait cond
| Cond_timedwait cond int int
| Gettimeofday
| Get_canceled
| Ppoll "int list" "int option"
| Socket sock_kind
| Setsockopt int sock_opt
| Bind_inet int u16
| Bind_l2cap int bdaddr u16
| Listen int int
| Accept int
| Shutdown int int
| Close int
| Fcntl_getfl int
| Fcntl_setfl_nonblock int int
| Write int string
| Write_event int int int int
| Open_dev string
| Recv int int
| Getpeername int
| Sleep int
| Dev dev_call
| Hci hci_call
| Proc proc_call

type_synonym event = "syscall \<times> int"
type_synonym hist = "event list"

text \<open>
  The answers: \<open>ret\<close> is the integer a call returns; \<open>clock\<close> what \<open>gettimeofday\<close>
  stores; \<open>recv_data\<close> the bytes \<open>recv\<close> stores; \<open>arrivals\<close> the messages the other
  thread put on the queue, and \<open>departures\<close> how many it took off, while the calling thread
  slept in a \<open>pthread_cond_wait\<close> or \<open>pthread_cond_timedwait\<close>; \<open>pw_uid\<close> and
  \<open>gr_gid\<close> the entry \<open>getpwnam\<close> and \<open>getgrnam\<close> find; \<open>server_acts\<close> what the
  thread that accepts clients did to the table of clients since the calling thread last looked;
  \<open>revents\<close> the returned events of the entries given to \<open>ppoll\<close>; \<open>peer_addr\<close> the address
  \<open>getpeername\<close> stores; \<open>dev_list\<close>, \<open>dev_info\<close> and \<open>dev_addr\<close> the numbers of the
  bluetooth interfaces, whether one is in raw mode and its address, and the address read from it.
  \<open>str2ba\<close> and \<open>ba2str\<close> are the conversions of the bluez library.
\<close>

datatype server_act = Joined int | Cleared

record os =
  ret :: "hist \<Rightarrow> syscall \<Rightarrow> int"
  clock :: "hist \<Rightarrow> timeval"
  recv_data :: "hist \<Rightarrow> byte list"
  arrivals :: "hist \<Rightarrow> byte list list"
  departures :: "hist \<Rightarrow> nat"
  pw_uid :: "hist \<Rightarrow> string \<Rightarrow> u32 option"
  gr_gid :: "hist \<Rightarrow> string \<Rightarrow> u32 option"
  server_acts :: "hist \<Rightarrow> server_act list"
  revents :: "hist \<Rightarrow> nat \<Rightarrow> u16"
  peer_addr :: "hist \<Rightarrow> bdaddr"
  dev_list :: "hist \<Rightarrow> u16 list"
  dev_info :: "hist \<Rightarrow> u16 \<Rightarrow> bool \<times> bdaddr"
  dev_addr :: "hist \<Rightarrow> bdaddr"
  str2ba :: "string \<Rightarrow> int \<times> bdaddr"
  ba2str :: "bdaddr \<Rightarrow> int \<times> string"

section \<open>Functions with effects\<close>

text \<open>
  A C function that calls the system or can stop abnormally is a value of \<open>'a io\<close>: from the
  history it ends with a \<open>stop\<close>, or with its result and the history extended by its calls.
\<close>

type_synonym 'a io = "hist \<Rightarrow> stop + 'a \<times> hist"

definition retio :: "'a \<Rightarrow> 'a io" where
  "retio a h = Inr (a, h)"

definition stopio :: "stop \<Rightarrow> 'a io" where
  "stopio e h = Inl e"

definition bindio :: "'a io \<Rightarrow> ('a \<Rightarrow> 'b io) \<Rightarrow> 'b io" where
  "bindio m f h = (case m h of Inl e \<Rightarrow> Inl e | Inr (a, h') \<Rightarrow> f a h')"

definition seqio :: "'a io \<Rightarrow> 'b io \<Rightarrow> 'b io" where
  "seqio m k = bindio m (\<lambda>_. k)"

definition assertio :: "bool \<Rightarrow> unit io" where
  "assertio b = (if b then retio () else stopio Assertion)"

definition guardio :: "bool \<Rightarrow> stop \<Rightarrow> unit io" where
  "guardio b e = (if b then retio () else stopio e)"

definition liftio :: "stop + 'a \<Rightarrow> 'a io" where
  "liftio r h = (case r of Inl e \<Rightarrow> Inl e | Inr a \<Rightarrow> Inr (a, h))"

definition sys :: "os \<Rightarrow> syscall \<Rightarrow> int io" where
  "sys os c h = (let r = ret os h c in Inr (r, (c, r) # h))"

definition asksio :: "(hist \<Rightarrow> 'a) \<Rightarrow> 'a io" where
  "asksio f h = Inr (f h, h)"

definition gettimeofday :: "os \<Rightarrow> timeval io" where
  "gettimeofday os h = Inr (clock os h, (Gettimeofday, ret os h Gettimeofday) # h)"

definition recvio :: "os \<Rightarrow> int \<Rightarrow> int \<Rightarrow> (int \<times> byte list) io" where
  "recvio os fd n h =
     (let r = ret os h (Recv fd n) in Inr ((r, recv_data os h), (Recv fd n, r) # h))"

section \<open>Weakest preconditions\<close>

text \<open>
  \<open>wp m P E h\<close>: run from \<open>h\<close>, the function \<open>m\<close> ends normally in a result and a
  history that satisfy \<open>P\<close>, or it stops with a reason that satisfies \<open>E\<close>. The
  equations below compute it through every statement.
\<close>

definition wp :: "'a io \<Rightarrow> ('a \<Rightarrow> hist \<Rightarrow> bool) \<Rightarrow> (stop \<Rightarrow> bool) \<Rightarrow> hist \<Rightarrow> bool" where
  "wp m P E h = (case m h of Inl e \<Rightarrow> E e | Inr (a, h') \<Rightarrow> P a h')"

lemma wp_retio [wp_simps]: "wp (retio a) P E h = P a h"
  by (simp add: wp_def retio_def)

lemma wp_stopio [wp_simps]: "wp (stopio e) P E h = E e"
  by (simp add: wp_def stopio_def)

lemma wp_bindio [wp_simps]: "wp (bindio m f) P E h = wp m (\<lambda>a h'. wp (f a) P E h') E h"
  by (simp add: wp_def bindio_def split: sum.splits)

lemma wp_seqio [wp_simps]: "wp (seqio m k) P E h = wp m (\<lambda>_ h'. wp k P E h') E h"
  by (simp add: seqio_def wp_bindio)

lemma wp_assertio [wp_simps]: "wp (assertio b) P E h = (if b then P () h else E Assertion)"
  by (simp add: assertio_def wp_retio wp_stopio)

lemma wp_guardio [wp_simps]: "wp (guardio b e) P E h = (if b then P () h else E e)"
  by (simp add: guardio_def wp_retio wp_stopio)

lemma wp_liftio [wp_simps]:
  "wp (liftio r) P E h = (case r of Inl e \<Rightarrow> E e | Inr a \<Rightarrow> P a h)"
  by (simp add: wp_def liftio_def split: sum.splits)

lemma wp_sys [wp_simps]: "wp (sys os c) P E h = P (ret os h c) ((c, ret os h c) # h)"
  by (simp add: wp_def sys_def Let_def)

lemma wp_asksio [wp_simps]: "wp (asksio f) P E h = P (f h) h"
  by (simp add: wp_def asksio_def)

lemma wp_gettimeofday [wp_simps]:
  "wp (gettimeofday os) P E h = P (clock os h) ((Gettimeofday, ret os h Gettimeofday) # h)"
  by (simp add: wp_def gettimeofday_def)

lemma wp_recvio [wp_simps]:
  "wp (recvio os fd n) P E h =
     P (ret os h (Recv fd n), recv_data os h) ((Recv fd n, ret os h (Recv fd n)) # h)"
  by (simp add: wp_def recvio_def Let_def)

lemma wp_if [wp_simps]: "wp (if b then m else k) P E h = (if b then wp m P E h else wp k P E h)"
  by simp

lemma wp_Let [wp_simps]: "wp (Let x f) P E h = (let y = x in wp (f y) P E h)"
  by simp

lemma wp_case_prod [wp_simps]:
  "wp (case p of (a, b) \<Rightarrow> f a b) P E h = (case p of (a, b) \<Rightarrow> wp (f a b) P E h)"
  by (simp split: prod.splits)

lemma wp_mono:
  "wp m P E h \<Longrightarrow> (\<And>a h'. P a h' \<Longrightarrow> Q a h') \<Longrightarrow> (\<And>e. E e \<Longrightarrow> F e) \<Longrightarrow> wp m Q F h"
  by (auto simp: wp_def split: sum.splits)

lemma wp_both: "wp m P E h \<Longrightarrow> wp m Q F h \<Longrightarrow> wp m (\<lambda>a h'. P a h' \<and> Q a h') E h"
  by (auto simp: wp_def split: sum.splits)

lemma wp_conj: "wp m P E h \<Longrightarrow> wp m Q E h \<Longrightarrow> wp m (\<lambda>a h'. P a h' \<and> Q a h') E h"
  by (auto simp: wp_def split: sum.splits)

lemma wp_result: "wp m P E h \<Longrightarrow> wp m (\<lambda>a h'. P a h' \<and> m h = Inr (a, h')) E h"
  by (auto simp: wp_def split: sum.splits)

text \<open>A normal run, read off a precondition that rules every stop out.\<close>

lemma wp_run: "wp m P (\<lambda>_. False) h \<longleftrightarrow> (\<exists>a h'. m h = Inr (a, h') \<and> P a h')"
  by (auto simp: wp_def split: sum.splits)

lemma wp_partial: "wp m P (\<lambda>_. True) h \<longleftrightarrow> (\<forall>a h'. m h = Inr (a, h') \<longrightarrow> P a h')"
  by (auto simp: wp_def split: sum.splits)

lemma wp_stops: "wp m P E h \<Longrightarrow> (\<And>e. m h = Inl e \<Longrightarrow> E e \<Longrightarrow> F e) \<Longrightarrow> wp m P F h"
  by (auto simp: wp_def split: sum.splits)

lemma wp_any: "wp m (\<lambda>_ _. True) (\<lambda>_. True) h"
  by (simp add: wp_def split: sum.split)

lemma wp_never: "wp m P E h \<Longrightarrow> m h = Inl e \<Longrightarrow> E e"
  by (simp add: wp_def)

section \<open>The history only grows\<close>

text \<open>
  \<open>calls S m\<close>: when \<open>m\<close> ends normally it has only added calls to the history, and only calls
  of the set \<open>S\<close>.
\<close>

definition calls :: "(syscall \<Rightarrow> bool) \<Rightarrow> 'a io \<Rightarrow> bool" where
  "calls S m \<longleftrightarrow>
     (\<forall>h a h'. m h = Inr (a, h') \<longrightarrow> (\<exists>t. h' = t @ h \<and> (\<forall>e \<in> set t. S (fst e))))"

abbreviation extends :: "'a io \<Rightarrow> bool" where
  "extends m \<equiv> calls (\<lambda>_. True) m"

lemma callsD: "calls S m \<Longrightarrow> m h = Inr (a, h') \<Longrightarrow> \<exists>t. h' = t @ h \<and> (\<forall>e \<in> set t. S (fst e))"
  by (simp add: calls_def)

lemma calls_mono: "calls S m \<Longrightarrow> (\<And>c. S c \<Longrightarrow> T c) \<Longrightarrow> calls T m"
  unfolding calls_def by meson

lemma calls_extends: "calls S m \<Longrightarrow> extends m"
  by (rule calls_mono) auto

lemma calls_basic [ext_intros]:
  "calls S (retio a)" "calls S (stopio e)" "calls S (asksio f)" "calls S (assertio b)"
  "calls S (guardio b e)" "calls S (liftio r)"
  by (auto simp: calls_def retio_def stopio_def asksio_def assertio_def guardio_def liftio_def
      split: sum.splits if_splits)

lemma calls_sys [ext_intros]: "S c \<Longrightarrow> calls S (sys os c)"
  by (auto simp: calls_def sys_def Let_def)

lemma calls_time [ext_intros]: "S Gettimeofday \<Longrightarrow> calls S (gettimeofday os)"
  by (auto simp: calls_def gettimeofday_def)

lemma calls_recv [ext_intros]: "S (Recv fd n) \<Longrightarrow> calls S (recvio os fd n)"
  by (auto simp: calls_def recvio_def Let_def)

lemma calls_bindio [ext_intros]:
  assumes "calls S m" and "\<And>a. calls S (f a)"
  shows "calls S (bindio m f)"
  unfolding calls_def
proof (intro allI impI)
  fix h b h'
  assume "bindio m f h = Inr (b, h')"
  then obtain a h1 where "m h = Inr (a, h1)" and "f a h1 = Inr (b, h')"
    by (auto simp: bindio_def split: sum.splits)
  then obtain t u where "h1 = t @ h" "\<forall>e \<in> set t. S (fst e)" and "h' = u @ h1" "\<forall>e \<in> set u. S (fst e)"
    using callsD [OF assms(1)] callsD [OF assms(2)] by meson
  then show "\<exists>t. h' = t @ h \<and> (\<forall>e \<in> set t. S (fst e))" by (intro exI [of _ "u @ t"]) auto
qed

lemma calls_seqio [ext_intros]: "calls S m \<Longrightarrow> calls S k \<Longrightarrow> calls S (seqio m k)"
  unfolding seqio_def by (rule calls_bindio)

lemma calls_if [ext_intros]:
  "(b \<Longrightarrow> calls S m) \<Longrightarrow> (\<not> b \<Longrightarrow> calls S k) \<Longrightarrow> calls S (if b then m else k)"
  by simp

lemma calls_case [ext_intros]:
  "(\<And>a b. calls S (f a b)) \<Longrightarrow> calls S (case p of (a, b) \<Rightarrow> f a b)"
  "calls S m \<Longrightarrow> (\<And>a. calls S (g a)) \<Longrightarrow> calls S (case q of None \<Rightarrow> m | Some a \<Rightarrow> g a)"
  by (simp_all split: prod.splits option.splits)

lemma calls_Let [ext_intros]: "(\<And>x. calls S (f x)) \<Longrightarrow> calls S (let x = y in f x)"
  by simp

lemma wp_calls:
  "calls S m \<Longrightarrow> wp m P E h \<Longrightarrow>
     wp m (\<lambda>a h'. P a h' \<and> (\<exists>t. h' = t @ h \<and> (\<forall>e \<in> set t. S (fst e)))) E h"
  unfolding wp_def by (auto simp: calls_def split: sum.splits)

text \<open>The calls made between two points of a run are all in the set \<open>S\<close>.\<close>

definition grows :: "(syscall \<Rightarrow> bool) \<Rightarrow> hist \<Rightarrow> hist \<Rightarrow> bool" where
  "grows S h h' \<longleftrightarrow> (\<exists>t. h' = t @ h \<and> (\<forall>e \<in> set t. S (fst e)))"

lemma grows_refl [simp]: "grows S h h"
  by (simp add: grows_def)

lemma grows_Cons [intro]: "grows S h h' \<Longrightarrow> S c \<Longrightarrow> grows S h ((c, r) # h')"
  unfolding grows_def by (metis append_Cons fst_conv set_ConsD)

lemma grows_trans: "grows S h h1 \<Longrightarrow> grows S h1 h2 \<Longrightarrow> grows S h h2"
  by (auto simp: grows_def)

lemma grows_mono: "grows S h h' \<Longrightarrow> (\<And>c. S c \<Longrightarrow> T c) \<Longrightarrow> grows T h h'"
  by (auto simp: grows_def)

lemma grows_length: "grows S h h' \<Longrightarrow> length h \<le> length h'"
  by (auto simp: grows_def)

section \<open>Histories\<close>

text \<open>The bytes a descriptor accepted, oldest first.\<close>

fun sent :: "int \<Rightarrow> hist \<Rightarrow> string" where
  "sent fd [] = []"
| "sent fd ((Write fd' buf, r) # h) =
     sent fd h @ (if fd' = fd then take (nat r) buf else [])"
| "sent fd (e # h) = sent fd h"

text \<open>The key events written to an input device: code and value, oldest first.\<close>

fun key_events :: "int \<Rightarrow> hist \<Rightarrow> (int \<times> int) list" where
  "key_events fd [] = []"
| "key_events fd ((Write_event fd' ty c v, r) # h) =
     key_events fd h @ (if fd' = fd then [(c, v)] else [])"
| "key_events fd (e # h) = key_events fd h"

definition no_write :: "syscall \<Rightarrow> bool" where
  "no_write c \<longleftrightarrow> (\<forall>fd b. c \<noteq> Write fd b)"

definition no_event :: "syscall \<Rightarrow> bool" where
  "no_event c \<longleftrightarrow> (\<forall>fd ty k v. c \<noteq> Write_event fd ty k v)"

lemma sent_frame: "\<forall>e \<in> set t. no_write (fst e) \<Longrightarrow> sent fd (t @ h) = sent fd h"
proof (induction t)
  case Nil
  then show ?case by simp
next
  case (Cons e t)
  then show ?case by (cases e; cases "fst e") (auto simp: no_write_def)
qed

lemma key_events_frame: "\<forall>e \<in> set t. no_event (fst e) \<Longrightarrow> key_events fd (t @ h) = key_events fd h"
proof (induction t)
  case Nil
  then show ?case by simp
next
  case (Cons e t)
  then show ?case by (cases e; cases "fst e") (auto simp: no_event_def)
qed

text \<open>The lock discipline: how often a mutex was taken minus how often it was given back.\<close>

fun lock_depth :: "mutex \<Rightarrow> hist \<Rightarrow> int" where
  "lock_depth m [] = 0"
| "lock_depth m ((Lock m', r) # h) = lock_depth m h + (if m' = m then 1 else 0)"
| "lock_depth m ((Unlock m', r) # h) = lock_depth m h - (if m' = m then 1 else 0)"
| "lock_depth m (e # h) = lock_depth m h"

text \<open>
  \<open>write\<close> never accepts more than it is given (POSIX: it returns at most \<open>nbyte\<close>).
\<close>

definition posix_write :: "os \<Rightarrow> bool" where
  "posix_write os \<longleftrightarrow> (\<forall>h fd buf. ret os h (Write fd buf) \<le> int (length buf))"

text \<open>
  A timed wait with a nanosecond count outside \<open>0..<10 ^ 9\<close> returns \<open>EINVAL\<close> (POSIX:
  before the mutex is touched).
\<close>

definition EINVAL :: int where
  "EINVAL = 22"

definition ETIMEDOUT :: int where
  "ETIMEDOUT = 110"

definition posix_timedwait :: "os \<Rightarrow> bool" where
  "posix_timedwait os \<longleftrightarrow>
     (\<forall>h c s ns. ns < 0 \<or> 10 ^ 9 \<le> ns \<longrightarrow> ret os h (Cond_timedwait c s ns) = EINVAL)"

text \<open>\<open>gettimeofday\<close> stores a normalised time.\<close>

definition posix_clock :: "os \<Rightarrow> bool" where
  "posix_clock os \<longleftrightarrow> (\<forall>h. 0 \<le> tv_usec (clock os h) \<and> tv_usec (clock os h) < 10 ^ 6)"

text \<open>
  \<open>recv\<close> stores as many bytes as it returns, and no more than it is asked for; \<open>socket\<close>
  and \<open>accept\<close> return a descriptor or -1.
\<close>

definition posix_recv :: "os \<Rightarrow> bool" where
  "posix_recv os \<longleftrightarrow> (\<forall>h fd n. 0 < ret os h (Recv fd n) \<longrightarrow>
     int (length (recv_data os h)) = ret os h (Recv fd n) \<and> ret os h (Recv fd n) \<le> n)"

definition posix_fds :: "os \<Rightarrow> bool" where
  "posix_fds os \<longleftrightarrow> (\<forall>h k s. -1 \<le> ret os h (Socket k) \<and> -1 \<le> ret os h (Accept s))"

text \<open>
  A concrete system the witnesses use: every call succeeds with 0, but a \<open>write\<close> accepts
  everything, the clock stands still, a timed wait with a proper deadline times out and no data arrives.
\<close>

definition quiet_os :: os where
  "quiet_os = \<lparr>ret = (\<lambda>h c. case c of Write fd buf \<Rightarrow> int (length buf)
       | Cond_timedwait c s ns \<Rightarrow> (if 0 \<le> ns \<and> ns < 1000000000 then ETIMEDOUT else EINVAL)
       | _ \<Rightarrow> 0),
     clock = (\<lambda>h. Timeval 0 0), recv_data = (\<lambda>h. []), arrivals = (\<lambda>h. []),
     departures = (\<lambda>h. 0), pw_uid = (\<lambda>h u. Some 1000), gr_gid = (\<lambda>h g. Some 100),
     server_acts = (\<lambda>h. []), revents = (\<lambda>h i. 0), peer_addr = (\<lambda>h. replicate 6 0),
     dev_list = (\<lambda>h. [0]), dev_info = (\<lambda>h i. (False, replicate 6 0)),
     dev_addr = (\<lambda>h. replicate 6 0), str2ba = (\<lambda>s. (0, replicate 6 0)),
     ba2str = (\<lambda>a. (17, ''00:00:00:00:00:00''))\<rparr>"

lemma quiet_os_simps [simp]:
  "ret quiet_os h c = (case c of Write fd buf \<Rightarrow> int (length buf)
     | Cond_timedwait c s ns \<Rightarrow> (if 0 \<le> ns \<and> ns < 1000000000 then ETIMEDOUT else EINVAL)
     | _ \<Rightarrow> 0)"
  "clock quiet_os h = Timeval 0 0" "recv_data quiet_os h = []"
  "arrivals quiet_os h = []" "departures quiet_os h = 0"
  "pw_uid quiet_os h u = Some 1000" "gr_gid quiet_os h u = Some 100"
  "server_acts quiet_os h = []" "revents quiet_os h i = 0" "peer_addr quiet_os h = replicate 6 0"
  "dev_list quiet_os h = [0]" "dev_info quiet_os h n = (False, replicate 6 0)"
  "dev_addr quiet_os h = replicate 6 0" "str2ba quiet_os s = (0, replicate 6 0)"
  "ba2str quiet_os a = (17, ''00:00:00:00:00:00'')"
  by (simp_all add: quiet_os_def)

lemma posix_quiet:
  "posix_write quiet_os" "posix_timedwait quiet_os" "posix_clock quiet_os" "posix_recv quiet_os"
  "posix_fds quiet_os"
  by (auto simp: posix_write_def posix_timedwait_def posix_clock_def posix_recv_def posix_fds_def)

end
