(* ===== verification/Queue.thy ===== *)
theory Queue
  imports Sys
begin

text \<open>
  The bounded message queue of \<^verbatim>\<open>src/q.c\<close>: the ring buffer and the operations of
  \<^verbatim>\<open>src/q.h\<close>. The data part of each operation is a function on the ring; the operation
  itself, with its locking, its waiting and its assertions, is a function with effects. The
  ring is shown to implement a first-in first-out list of at most \<open>QUEUESIZE\<close> messages.
\<close>

section \<open>Messages\<close>

text \<open>\<open>queueData\<close>: a message owned by whoever holds the pointer; \<open>None\<close> is a null buffer.\<close>

record queueData =
  buffer :: "byte list option"
  size_of :: int

text \<open>
  \<open>queueDataInit\<close> copies \<open>_size\<close> bytes; reading past the end of the caller's data is out of
  bounds.
\<close>

definition queueDataInit :: "byte list \<Rightarrow> int \<Rightarrow> stop + queueData" where
  "queueDataInit s n =
     (if n < 0 then Inl Assertion
      else if nat n > length s then Inl Out_of_bounds
      else Inr \<lparr>buffer = Some (take (nat n) s), size_of = n\<rparr>)"

text \<open>
  \<open>queueDataDeInit\<close> asserts a non-null buffer and a positive size before it frees the message.
\<close>

definition queueDataDeInit :: "queueData \<Rightarrow> stop + unit" where
  "queueDataDeInit qd =
     (if buffer qd = None then Inl Assertion
      else if \<not> 0 < size_of qd then Inl Assertion
      else Inr ())"

section \<open>The ring\<close>

definition QUEUESIZE :: nat where
  "QUEUESIZE = 254"

text \<open>Return values.\<close>

definition Q_OK :: int where
  "Q_OK = 0"

definition Q_ERR :: int where
  "Q_ERR = -1"

text \<open>
  The \<open>queue\<close> struct. \<open>buf\<close> is the array of pointers, \<open>None\<close> a slot that was never written;
  \<open>sync\<close> says that the mutex and the two conditions are allocated and initialised.
\<close>

record 'a queue =
  buf :: "'a option list"
  head :: nat
  tail :: nat
  full :: int
  empty :: int
  sync :: bool

text \<open>\<open>queueInit\<close> sets every member but the array, which keeps what the memory held.\<close>

definition queueInit :: "'a queue \<Rightarrow> int \<times> 'a queue" where
  "queueInit q =
     (Q_OK, q\<lparr>empty := 1, full := 0, head := 0, tail := 0, sync := True\<rparr>)"

definition queueDeinit :: "'a queue \<Rightarrow> 'a queue" where
  "queueDeinit q = q\<lparr>sync := False\<rparr>"

text \<open>What \<open>queueAdd\<close> does to the ring once it is not full.\<close>

definition queueAdd_ring :: "'a \<Rightarrow> 'a queue \<Rightarrow> 'a queue" where
  "queueAdd_ring x q =
     (let q = q\<lparr>buf := (buf q)[tail q := Some x]\<rparr>;
          q = q\<lparr>tail := tail q + 1\<rparr>;
          q = (if tail q = QUEUESIZE then q\<lparr>tail := 0\<rparr> else q);
          q = (if tail q = head q then q\<lparr>full := 1\<rparr> else q)
      in q\<lparr>empty := 0\<rparr>)"

text \<open>
  What \<open>queueRemBlock\<close> and \<open>queueRemNonBlock\<close> do to the ring once it is not empty: the
  pointer read from the array, and the ring after it.
\<close>

definition queueRem_ring :: "'a queue \<Rightarrow> 'a option \<times> 'a queue" where
  "queueRem_ring q =
     (let out = buf q ! head q;
          q = q\<lparr>head := head q + 1\<rparr>;
          q = (if head q = QUEUESIZE then q\<lparr>head := 0\<rparr> else q);
          q = (if head q = tail q then q\<lparr>empty := 1\<rparr> else q)
      in (out, q\<lparr>full := 0\<rparr>))"

section \<open>The abstract queue\<close>

definition ring_count :: "'a queue \<Rightarrow> nat" where
  "ring_count q =
     (if full q \<noteq> 0 then QUEUESIZE else (tail q + QUEUESIZE - head q) mod QUEUESIZE)"

definition ring_slot :: "'a queue \<Rightarrow> nat \<Rightarrow> nat" where
  "ring_slot q i = (head q + i) mod QUEUESIZE"

text \<open>The messages in the queue, the oldest first.\<close>

definition ring_list :: "'a queue \<Rightarrow> 'a list" where
  "ring_list q = map (\<lambda>i. the (buf q ! ring_slot q i)) [0..<ring_count q]"

definition ring_inv :: "'a queue \<Rightarrow> bool" where
  "ring_inv q \<longleftrightarrow>
     sync q \<and> length (buf q) = QUEUESIZE \<and> head q < QUEUESIZE \<and> tail q < QUEUESIZE \<and>
     (full q = 0 \<or> full q = 1) \<and> (empty q = 0 \<or> empty q = 1) \<and>
     (if head q = tail q then full q \<noteq> empty q else full q = 0 \<and> empty q = 0) \<and>
     (\<forall>i < ring_count q. buf q ! ring_slot q i \<noteq> None)"

lemma QUEUESIZE_pos [simp]: "0 < QUEUESIZE"
  by (simp add: QUEUESIZE_def)

lemma ring_count_le: "ring_count q \<le> QUEUESIZE"
  by (simp add: ring_count_def less_imp_le)

lemma ring_slot_less [simp]: "ring_slot q i < QUEUESIZE"
  by (simp add: ring_slot_def)

text \<open>The two modular expressions as plain case distinctions, for linear arithmetic.\<close>

lemma ring_count_cases:
  "head q < QUEUESIZE \<Longrightarrow> tail q < QUEUESIZE \<Longrightarrow>
     ring_count q = (if full q \<noteq> 0 then QUEUESIZE
       else if head q \<le> tail q then tail q - head q else tail q + QUEUESIZE - head q)"
  by (auto simp: ring_count_def mod_if)

lemma ring_slot_cases:
  "head q < QUEUESIZE \<Longrightarrow> i \<le> QUEUESIZE \<Longrightarrow>
     ring_slot q i = (if head q + i < QUEUESIZE then head q + i else head q + i - QUEUESIZE)"
  by (auto simp: ring_slot_def mod_if)

lemma ring_slot_inj:
  "head q < QUEUESIZE \<Longrightarrow> i < QUEUESIZE \<Longrightarrow> j < QUEUESIZE \<Longrightarrow>
     ring_slot q i = ring_slot q j \<longleftrightarrow> i = j"
  by (auto simp: ring_slot_cases split: if_splits)

lemma ring_slot_count: "ring_inv q \<Longrightarrow> ring_slot q (ring_count q) = tail q"
  by (auto simp: ring_inv_def ring_slot_cases ring_count_cases ring_count_le split: if_splits)

lemma ring_count_less: "ring_inv q \<Longrightarrow> full q = 0 \<Longrightarrow> ring_count q < QUEUESIZE"
  by (auto simp: ring_inv_def ring_count_def)

lemma ring_count_pos: "ring_inv q \<Longrightarrow> empty q = 0 \<longleftrightarrow> 0 < ring_count q"
  by (auto simp: ring_inv_def ring_count_cases split: if_splits)

lemma ring_full_iff: "ring_inv q \<Longrightarrow> full q = 0 \<longleftrightarrow> ring_count q < QUEUESIZE"
  using ring_count_less by (auto simp: ring_count_def)

lemma length_ring_list [simp]: "length (ring_list q) = ring_count q"
  by (simp add: ring_list_def)

lemma ring_empty_iff: "ring_inv q \<Longrightarrow> empty q \<noteq> 0 \<longleftrightarrow> ring_list q = []"
  using ring_count_pos [of q] by (metis length_0_conv length_ring_list neq0_conv)

lemma ring_list_nth: "i < ring_count q \<Longrightarrow> ring_list q ! i = the (buf q ! ring_slot q i)"
  by (simp add: ring_list_def)

section \<open>The ring operations implement the abstract queue\<close>

lemma queueAdd_ring_simps:
  "head (queueAdd_ring x q) = head q"
  "buf (queueAdd_ring x q) = (buf q)[tail q := Some x]"
  "tail (queueAdd_ring x q) = (if tail q + 1 = QUEUESIZE then 0 else tail q + 1)"
  "full (queueAdd_ring x q) = (if tail (queueAdd_ring x q) = head q then 1 else full q)"
  "empty (queueAdd_ring x q) = 0"
  "sync (queueAdd_ring x q) = sync q"
  by (simp_all add: queueAdd_ring_def Let_def)

lemma queueRem_ring_simps:
  "head (snd (queueRem_ring q)) = (if head q + 1 = QUEUESIZE then 0 else head q + 1)"
  "buf (snd (queueRem_ring q)) = buf q"
  "tail (snd (queueRem_ring q)) = tail q"
  "full (snd (queueRem_ring q)) = 0"
  "empty (snd (queueRem_ring q)) = (if head (snd (queueRem_ring q)) = tail q then 1 else empty q)"
  "sync (snd (queueRem_ring q)) = sync q"
  "fst (queueRem_ring q) = buf q ! head q"
  by (simp_all add: queueRem_ring_def Let_def)

lemma ring_count_add:
  assumes "ring_inv q" and "full q = 0"
  shows "ring_count (queueAdd_ring x q) = Suc (ring_count q)"
  using assms
  by (auto simp: ring_inv_def ring_count_cases queueAdd_ring_simps split: if_splits)

lemma ring_slot_add: "ring_slot (queueAdd_ring x q) i = ring_slot q i"
  by (simp add: ring_slot_def queueAdd_ring_simps)

lemma ring_buf_add:
  assumes inv: "ring_inv q" and nf: "full q = 0" and i: "i \<le> ring_count q"
  shows "buf (queueAdd_ring x q) ! ring_slot q i =
     (if i = ring_count q then Some x else buf q ! ring_slot q i)"
proof (cases "i = ring_count q")
  case True
  with inv show ?thesis
    by (simp add: queueAdd_ring_simps ring_slot_count) (simp add: ring_inv_def)
next
  case False
  have "ring_slot q i \<noteq> ring_slot q (ring_count q)"
    using inv i False ring_count_less [OF inv nf] by (simp add: ring_inv_def ring_slot_inj)
  with inv False show ?thesis
    by (simp add: queueAdd_ring_simps ring_slot_count)
qed

lemma ring_list_add:
  assumes inv: "ring_inv q" and nf: "full q = 0"
  shows "ring_list (queueAdd_ring x q) = ring_list q @ [x]"
  using assms
  by (auto simp: ring_list_def ring_count_add ring_slot_add ring_buf_add)

lemma ring_inv_add:
  assumes inv: "ring_inv q" and nf: "full q = 0"
  shows "ring_inv (queueAdd_ring x q)"
proof -
  have "\<forall>i < ring_count (queueAdd_ring x q).
      buf (queueAdd_ring x q) ! ring_slot (queueAdd_ring x q) i \<noteq> None"
    using assms by (auto simp: ring_count_add ring_slot_add ring_buf_add ring_inv_def less_Suc_eq_le)
  with assms show ?thesis
    unfolding ring_inv_def by (auto simp: queueAdd_ring_simps split: if_splits)
qed

lemma ring_count_rem:
  assumes "ring_inv q" and "empty q = 0"
  shows "Suc (ring_count (snd (queueRem_ring q))) = ring_count q"
  using assms
  by (auto simp: ring_inv_def ring_count_cases queueRem_ring_simps split: if_splits)

lemma ring_slot_rem:
  "head q < QUEUESIZE \<Longrightarrow> ring_slot (snd (queueRem_ring q)) i = ring_slot q (Suc i)"
  by (auto simp: ring_slot_def queueRem_ring_simps)
     (metis add_Suc mod_add_self1)

lemma ring_list_rem:
  assumes inv: "ring_inv q" and ne: "empty q = 0"
  shows "fst (queueRem_ring q) = Some (hd (ring_list q))"
    and "ring_list (snd (queueRem_ring q)) = tl (ring_list q)"
proof -
  have pos: "0 < ring_count q" and h: "head q < QUEUESIZE"
    using inv ne ring_count_pos by (auto simp: ring_inv_def)
  have slot0: "ring_slot q 0 = head q" using h by (simp add: ring_slot_def)
  have "buf q ! head q \<noteq> None" using inv pos slot0 by (auto simp: ring_inv_def)
  moreover have "hd (ring_list q) = the (buf q ! head q)"
    using pos slot0 by (simp add: hd_conv_nth ring_list_nth flip: length_greater_0_conv)
  ultimately show "fst (queueRem_ring q) = Some (hd (ring_list q))"
    by (simp add: queueRem_ring_simps)
  show "ring_list (snd (queueRem_ring q)) = tl (ring_list q)"
    using ring_count_rem [OF inv ne] h
    by (intro nth_equalityI)
       (auto simp: ring_list_nth ring_slot_rem queueRem_ring_simps nth_tl)
qed

lemma ring_inv_rem:
  assumes inv: "ring_inv q" and ne: "empty q = 0"
  shows "ring_inv (snd (queueRem_ring q))"
proof -
  have "\<forall>i < ring_count (snd (queueRem_ring q)).
      buf (snd (queueRem_ring q)) ! ring_slot (snd (queueRem_ring q)) i \<noteq> None"
    using ring_count_rem [OF assms] inv by (auto simp: ring_slot_rem queueRem_ring_simps ring_inv_def)
  with assms show ?thesis
    unfolding ring_inv_def by (auto simp: queueRem_ring_simps split: if_splits)
qed

lemma queueInit_inv:
  "length (buf q) = QUEUESIZE \<Longrightarrow>
     fst (queueInit q) = Q_OK \<and> ring_inv (snd (queueInit q)) \<and> ring_list (snd (queueInit q)) = []"
  by (auto simp: queueInit_def ring_inv_def ring_list_def ring_count_def)

section \<open>The queue interface\<close>

text \<open>
  What the users of the queue rely on: a bounded first-in first-out list behind an
  abstraction function. The lemmas of the block are about any implementation.
\<close>

datatype 'a qop = Put 'a | Take

text \<open>
  A sequence of operations, each one skipped when it would block, with the messages taken
  out: on an implementation, and on a list of at most \<open>cap\<close> messages.
\<close>

fun run_ops ::
  "('a \<Rightarrow> 'q \<Rightarrow> 'q) \<Rightarrow> ('q \<Rightarrow> 'a option \<times> 'q) \<Rightarrow> ('q \<Rightarrow> bool) \<Rightarrow> ('q \<Rightarrow> bool) \<Rightarrow>
     'a qop list \<Rightarrow> 'q \<Rightarrow> 'a option list \<times> 'q" where
  "run_ops add rem is_full is_empty [] q = ([], q)"
| "run_ops add rem is_full is_empty (Put x # ops) q =
     run_ops add rem is_full is_empty ops (if is_full q then q else add x q)"
| "run_ops add rem is_full is_empty (Take # ops) q =
     (if is_empty q then run_ops add rem is_full is_empty ops q
      else let (x, q') = rem q; (xs, r) = run_ops add rem is_full is_empty ops q' in (x # xs, r))"

fun spec_ops :: "nat \<Rightarrow> 'a qop list \<Rightarrow> 'a list \<Rightarrow> 'a option list \<times> 'a list" where
  "spec_ops cap [] xs = ([], xs)"
| "spec_ops cap (Put x # ops) xs = spec_ops cap ops (if length xs = cap then xs else xs @ [x])"
| "spec_ops cap (Take # ops) [] = spec_ops cap ops []"
| "spec_ops cap (Take # ops) (x # xs) = (let (ys, r) = spec_ops cap ops xs in (Some x # ys, r))"

locale bounded_fifo =
  fixes add :: "'a \<Rightarrow> 'q \<Rightarrow> 'q"
    and rem :: "'q \<Rightarrow> 'a option \<times> 'q"
    and is_full :: "'q \<Rightarrow> bool"
    and is_empty :: "'q \<Rightarrow> bool"
    and elems :: "'q \<Rightarrow> 'a list"
    and invar :: "'q \<Rightarrow> bool"
    and cap :: nat
  assumes elems_add: "invar q \<Longrightarrow> \<not> is_full q \<Longrightarrow> elems (add x q) = elems q @ [x]"
    and invar_add: "invar q \<Longrightarrow> \<not> is_full q \<Longrightarrow> invar (add x q)"
    and rem_out: "invar q \<Longrightarrow> \<not> is_empty q \<Longrightarrow> fst (rem q) = Some (hd (elems q))"
    and elems_rem: "invar q \<Longrightarrow> \<not> is_empty q \<Longrightarrow> elems (snd (rem q)) = tl (elems q)"
    and invar_rem: "invar q \<Longrightarrow> \<not> is_empty q \<Longrightarrow> invar (snd (rem q))"
    and full_iff: "invar q \<Longrightarrow> is_full q \<longleftrightarrow> length (elems q) = cap"
    and empty_iff: "invar q \<Longrightarrow> is_empty q \<longleftrightarrow> elems q = []"
begin

lemma run_ops_refines:
  "invar q \<Longrightarrow>
     invar (snd (run_ops add rem is_full is_empty ops q)) \<and>
     spec_ops cap ops (elems q) =
       (fst (run_ops add rem is_full is_empty ops q), elems (snd (run_ops add rem is_full is_empty ops q)))"
proof (induction ops arbitrary: q)
  case Nil
  then show ?case by simp
next
  case (Cons op ops)
  show ?case
  proof (cases op)
    case (Put x)
    show ?thesis
    proof (cases "is_full q")
      case True
      with Put Cons show ?thesis by (simp add: full_iff)
    next
      case False
      with Cons.prems have "invar (add x q)" and "elems (add x q) = elems q @ [x]"
        and "length (elems q) \<noteq> cap"
        by (simp_all add: invar_add elems_add full_iff)
      with Put False Cons.IH [of "add x q"] show ?thesis by simp
    qed
  next
    case Take
    show ?thesis
    proof (cases "is_empty q")
      case True
      with Take Cons.prems Cons.IH [of q] show ?thesis using empty_iff [of q] by simp
    next
      case False
      then obtain y ys where el: "elems q = y # ys"
        using Cons.prems empty_iff [of q] by (cases "elems q") auto
      obtain x q' where r: "rem q = (x, q')" by (cases "rem q")
      have "x = Some y" and "elems q' = ys" and "invar q'"
        using rem_out [OF Cons.prems False] elems_rem [OF Cons.prems False]
          invar_rem [OF Cons.prems False] el r by simp_all
      with Take False el r Cons.IH [of q'] show ?thesis by (auto split: prod.splits)
    qed
  qed
qed

lemma fold_add:
  "invar q \<Longrightarrow> length (elems q) + length xs \<le> cap \<Longrightarrow>
     invar (fold add xs q) \<and> elems (fold add xs q) = elems q @ xs"
  by (induction xs arbitrary: q) (simp_all add: full_iff elems_add invar_add)

lemma guarded_add:
  "invar q \<Longrightarrow>
     invar (fold (\<lambda>x q. if is_full q then q else add x q) xs q) \<and>
     (\<exists>n. elems (fold (\<lambda>x q. if is_full q then q else add x q) xs q) = elems q @ take n xs)"
proof (induction xs arbitrary: q)
  case Nil
  then show ?case by simp
next
  case (Cons x xs)
  show ?case
  proof (cases "is_full q")
    case True
    have "fold (\<lambda>x q. if is_full q then q else add x q) xs q = q" for xs
      using True by (induction xs) auto
    then show ?thesis using True Cons.prems by (auto intro: exI [of _ 0])
  next
    case False
    with Cons.prems have "invar (add x q)" and el: "elems (add x q) = elems q @ [x]"
      by (simp_all add: invar_add elems_add)
    with Cons.IH [of "add x q"] obtain n where
      "invar (fold (\<lambda>x q. if is_full q then q else add x q) xs (add x q))"
      "elems (fold (\<lambda>x q. if is_full q then q else add x q) xs (add x q)) = elems q @ [x] @ take n xs"
      by auto
    then show ?thesis using False by (auto intro: exI [of _ "Suc n"])
  qed
qed

lemma guarded_rem:
  "invar q \<Longrightarrow>
     invar (((\<lambda>q. if is_empty q then q else snd (rem q)) ^^ n) q) \<and>
     elems (((\<lambda>q. if is_empty q then q else snd (rem q)) ^^ n) q) = drop n (elems q)"
proof (induction n)
  case 0
  then show ?case by simp
next
  case (Suc n)
  then show ?case
    using empty_iff by (auto simp: invar_rem elems_rem drop_Suc tl_drop)
qed

end

interpretation rq: bounded_fifo queueAdd_ring queueRem_ring "\<lambda>q. full q \<noteq> 0" "\<lambda>q. empty q \<noteq> 0"
  ring_list ring_inv QUEUESIZE
proof unfold_locales
  fix q :: "'a queue"
  assume inv: "ring_inv q"
  show "full q \<noteq> 0 \<longleftrightarrow> length (ring_list q) = QUEUESIZE"
    using ring_full_iff [OF inv] ring_count_le [of q] by auto
  show "empty q \<noteq> 0 \<longleftrightarrow> ring_list q = []"
    using inv by (rule ring_empty_iff)
qed (auto simp: ring_list_add ring_inv_add ring_list_rem ring_inv_rem)

section \<open>The operations\<close>

text \<open>
  What the other thread did to the ring while this one slept without the mutex: the LIRC
  thread took messages off, the bluetooth thread put messages on.
\<close>

definition consumer_ran :: "nat \<Rightarrow> queueData queue \<Rightarrow> queueData queue" where
  "consumer_ran n = (\<lambda>q. if empty q \<noteq> 0 then q else snd (queueRem_ring q)) ^^ n"

definition message :: "byte list \<Rightarrow> queueData" where
  "message m = \<lparr>buffer = Some m, size_of = int (length m)\<rparr>"

definition producer_ran :: "byte list list \<Rightarrow> queueData queue \<Rightarrow> queueData queue" where
  "producer_ran ms = fold (\<lambda>x q. if full q \<noteq> 0 then q else queueAdd_ring x q) (map message ms)"

lemma consumer_ran_inv [lib_simps]:
  "ring_inv q \<Longrightarrow> ring_inv (consumer_ran n q)"
  "ring_inv q \<Longrightarrow> ring_list (consumer_ran n q) = drop n (ring_list q)"
  using rq.guarded_rem [of q n] by (simp_all add: consumer_ran_def)

lemma producer_ran_inv [lib_simps]: "ring_inv q \<Longrightarrow> ring_inv (producer_ran ms q)"
  using rq.guarded_add [of q "map message ms"] by (simp add: producer_ran_def)

lemma producer_ran_list:
  "ring_inv q \<Longrightarrow> \<exists>n. ring_list (producer_ran ms q) = ring_list q @ map message (take n ms)"
  using rq.guarded_add [of q "map message ms"] by (auto simp: producer_ran_def take_map)

text \<open>Messages that came from the other thread.\<close>

definition arrived :: "os \<Rightarrow> byte list list \<Rightarrow> bool" where
  "arrived os ms \<longleftrightarrow> (\<forall>m \<in> set ms. \<exists>h. m \<in> set (arrivals os h))"

lemma arrived_simps [simp]:
  "arrived os []" "arrived os (ms @ ms') \<longleftrightarrow> arrived os ms \<and> arrived os ms'"
  by (auto simp: arrived_def)

lemma arrived_take: "arrived os (take n (arrivals os h))"
  by (auto simp: arrived_def dest: in_set_takeD)

text \<open>
  The messages the other thread has taken off the queue, summed over the points at which the program
  looked: right before a call of the set \<open>S\<close>. A sleep in the loop of \<open>queueAdd\<close> is such a point; the
  capture callback also looks right before it takes the mutex.
\<close>

fun departed :: "(syscall \<Rightarrow> bool) \<Rightarrow> os \<Rightarrow> hist \<Rightarrow> nat" where
  "departed S os [] = 0"
| "departed S os ((c, r) # h) = departed S os h + (if S c then departures os h else 0)"

definition sleeps :: "syscall \<Rightarrow> bool" where
  "sleeps c \<longleftrightarrow> c = Cond_wait Not_full"

definition looks :: "syscall \<Rightarrow> bool" where
  "looks c \<longleftrightarrow> c = Cond_wait Not_full \<or> c = Lock Queue_mutex"

lemma looking_simps [simp]:
  "sleeps (Cond_wait Not_full)" "\<not> sleeps (Lock m)" "\<not> sleeps (Unlock m)" "\<not> sleeps (Signal k)"
  "looks (Cond_wait Not_full)" "looks (Lock Queue_mutex)" "\<not> looks (Unlock m)" "\<not> looks (Signal k)"
  by (simp_all add: sleeps_def looks_def)

lemma departed_mono: "departed S os h \<le> departed S os (e # h)"
  by (cases e) simp

text \<open>The waits. A timed wait that reports an error other than a timeout did not sleep.\<close>

definition wait_not_full :: "os \<Rightarrow> queueData queue \<Rightarrow> queueData queue io" where
  "wait_not_full os q =
     bindio (asksio (departures os)) (\<lambda>n.
     seqio (sys os (Cond_wait Not_full)) (retio (consumer_ran n q)))"

definition wait_not_empty :: "os \<Rightarrow> queueData queue \<Rightarrow> queueData queue io" where
  "wait_not_empty os q =
     bindio (asksio (arrivals os)) (\<lambda>ms.
     seqio (sys os (Cond_wait Not_empty)) (retio (producer_ran ms q)))"

definition timedwait_not_empty ::
  "os \<Rightarrow> int \<Rightarrow> int \<Rightarrow> queueData queue \<Rightarrow> (int \<times> queueData queue) io" where
  "timedwait_not_empty os sec nsec q =
     bindio (asksio (arrivals os)) (\<lambda>ms.
     bindio (sys os (Cond_timedwait Not_empty sec nsec)) (\<lambda>r.
     retio (r, if r = 0 \<or> r = ETIMEDOUT then producer_ran ms q else q)))"

text \<open>Locking a queue whose mutex is not there is undefined.\<close>

definition lock_queue :: "os \<Rightarrow> 'a queue \<Rightarrow> unit io" where
  "lock_queue os q =
     seqio (guardio (sync q) Null_deref) (seqio (sys os (Lock Queue_mutex)) (retio ()))"

definition unlock_and_signal :: "os \<Rightarrow> cond \<Rightarrow> unit io" where
  "unlock_and_signal os c =
     seqio (sys os (Unlock Queue_mutex)) (seqio (sys os (Signal c)) (retio ()))"

text \<open>The loop \<open>while (_q->full)\<close> of \<open>queueAdd\<close>.\<close>

fun queueAdd_wait :: "os \<Rightarrow> nat \<Rightarrow> queueData queue \<Rightarrow> queueData queue io" where
  "queueAdd_wait os fuel q =
     (if full q = 0 then retio q
      else case fuel of
        0 \<Rightarrow> stopio Out_of_fuel
      | Suc k \<Rightarrow> bindio (wait_not_full os q) (queueAdd_wait os k))"

definition queueAdd :: "os \<Rightarrow> nat \<Rightarrow> queueData queue \<Rightarrow> queueData \<Rightarrow> queueData queue io" where
  "queueAdd os fuel q x =
     seqio (lock_queue os q)
     (bindio (queueAdd_wait os fuel q) (\<lambda>q.
      seqio (unlock_and_signal os Not_empty) (retio (queueAdd_ring x q))))"

text \<open>The loop \<open>while (_q->empty)\<close> of \<open>queueRemBlock\<close>.\<close>

fun queueRemBlock_wait :: "os \<Rightarrow> nat \<Rightarrow> queueData queue \<Rightarrow> queueData queue io" where
  "queueRemBlock_wait os fuel q =
     (if empty q = 0 then retio q
      else case fuel of
        0 \<Rightarrow> stopio Out_of_fuel
      | Suc k \<Rightarrow> bindio (wait_not_empty os q) (queueRemBlock_wait os k))"

definition queueRemBlock ::
  "os \<Rightarrow> nat \<Rightarrow> queueData queue \<Rightarrow> queueData option \<Rightarrow> (queueData option \<times> queueData queue) io" where
  "queueRemBlock os fuel q out =
     seqio (assertio (out = None))
     (seqio (lock_queue os q)
     (bindio (queueRemBlock_wait os fuel q) (\<lambda>q.
      seqio (unlock_and_signal os Not_full) (retio (queueRem_ring q)))))"

text \<open>
  The loop of \<open>queueRemNonBlock\<close>: the flag \<open>i\<close> of the code is the first component of the
  result. The deadline is the time of day plus \<open>n\<close> milliseconds, added to the nanoseconds
  only; the product is computed in \<open>int\<close>.
\<close>

fun queueRemNonBlock_wait ::
  "os \<Rightarrow> nat \<Rightarrow> int \<Rightarrow> queueData queue \<Rightarrow> (int \<times> queueData queue) io" where
  "queueRemNonBlock_wait os fuel n q =
     (if empty q = 0 then retio (1, q)
      else case fuel of
        0 \<Rightarrow> stopio Out_of_fuel
      | Suc k \<Rightarrow>
          bindio (gettimeofday os) (\<lambda>tp.
          seqio (guardio (c_int (n * 1000000)) Int_overflow)
          (let nsec = tv_usec tp * 1000 + n * 1000000 in
           seqio (assertio (0 \<le> nsec))
           (bindio (timedwait_not_empty os (tv_sec tp) nsec q) (\<lambda>(r, q).
            if r = ETIMEDOUT then retio (0, q) else queueRemNonBlock_wait os k n q)))))"

definition queueRemNonBlock ::
  "os \<Rightarrow> nat \<Rightarrow> queueData queue \<Rightarrow> int \<Rightarrow> queueData option \<Rightarrow>
     (int \<times> queueData option \<times> queueData queue) io" where
  "queueRemNonBlock os fuel q n out =
     seqio (assertio (out = None))
     (seqio (lock_queue os q)
     (bindio (queueRemNonBlock_wait os fuel n q) (\<lambda>(i, q).
      if i = 0 then seqio (sys os (Unlock Queue_mutex)) (retio (Q_ERR, out, q))
      else let (x, q) = queueRem_ring q in
        seqio (unlock_and_signal os Not_full) (retio (Q_OK, x, q)))))"

declare queueAdd_wait.simps [simp del] queueRemBlock_wait.simps [simp del]
  queueRemNonBlock_wait.simps [simp del]

text \<open>The calls the queue makes: on its own mutex and conditions, and for the time.\<close>

definition queue_call :: "syscall \<Rightarrow> bool" where
  "queue_call c \<longleftrightarrow>
     c = Lock Queue_mutex \<or> c = Unlock Queue_mutex \<or> c = Gettimeofday \<or>
     (\<exists>k. c = Signal k) \<or> (\<exists>k. c = Cond_wait k) \<or> (\<exists>k s ns. c = Cond_timedwait k s ns)"

lemma calls_queue_waits [ext_intros]:
  "calls queue_call (wait_not_full os q)" "calls queue_call (wait_not_empty os q)"
  "calls queue_call (timedwait_not_empty os s ns q)" "calls queue_call (lock_queue os q)"
  "calls queue_call (unlock_and_signal os c)"
  by (auto simp: wait_not_full_def wait_not_empty_def timedwait_not_empty_def lock_queue_def
      unlock_and_signal_def queue_call_def intro!: ext_intros)

lemma calls_queue_loops [ext_intros]:
  "calls queue_call (queueAdd_wait os fuel q)" "calls queue_call (queueRemNonBlock_wait os fuel n q)"
proof -
  show "calls queue_call (queueAdd_wait os fuel q)"
    by (induction fuel arbitrary: q) (subst queueAdd_wait.simps, auto intro!: ext_intros)+
  show "calls queue_call (queueRemNonBlock_wait os fuel n q)"
    by (induction fuel arbitrary: q)
       (subst queueRemNonBlock_wait.simps, auto simp: queue_call_def [of Gettimeofday] intro!: ext_intros)+
qed

lemma calls_queue_ops:
  "calls queue_call (queueAdd os fuel q x)" "calls queue_call (queueRemNonBlock os fuel q n out)"
  unfolding queueAdd_def queueRemNonBlock_def
  by (auto simp: queue_call_def [of "Unlock Queue_mutex"] intro!: ext_intros)

section \<open>Laws of the operations\<close>

lemma wp_wait_not_full [wp_simps]:
  "wp (wait_not_full os q) P E h =
     P (consumer_ran (departures os h) q) ((Cond_wait Not_full, ret os h (Cond_wait Not_full)) # h)"
  by (simp add: wait_not_full_def wp_simps)

lemma wp_wait_not_empty [wp_simps]:
  "wp (wait_not_empty os q) P E h =
     P (producer_ran (arrivals os h) q) ((Cond_wait Not_empty, ret os h (Cond_wait Not_empty)) # h)"
  by (simp add: wait_not_empty_def wp_simps)

lemma wp_timedwait_not_empty [wp_simps]:
  "wp (timedwait_not_empty os s ns q) P E h =
     (let r = ret os h (Cond_timedwait Not_empty s ns) in
      P (r, if r = 0 \<or> r = ETIMEDOUT then producer_ran (arrivals os h) q else q)
        ((Cond_timedwait Not_empty s ns, r) # h))"
  by (simp add: timedwait_not_empty_def wp_simps Let_def)

lemma wp_lock_queue [wp_simps]:
  "wp (lock_queue os q) P E h =
     (if sync q then P () ((Lock Queue_mutex, ret os h (Lock Queue_mutex)) # h) else E Null_deref)"
  by (simp add: lock_queue_def wp_simps)

lemma wp_unlock_and_signal [wp_simps]:
  "wp (unlock_and_signal os c) P E h =
     (let h1 = (Unlock Queue_mutex, ret os h (Unlock Queue_mutex)) # h
      in P () ((Signal c, ret os h1 (Signal c)) # h1))"
  by (simp add: unlock_and_signal_def wp_simps Let_def)

text \<open>
  Every wait loop keeps the invariant and the messages: those taken meanwhile are gone from
  the front, those that arrived are at the back, and the mutex is held as before.
\<close>

lemma queueAdd_wait_spec:
  "ring_inv q \<Longrightarrow>
     wp (queueAdd_wait os fuel q)
       (\<lambda>q' h'. ring_inv q' \<and> full q' = 0 \<and>
          (\<exists>n. (\<forall>S. S (Cond_wait Not_full) \<longrightarrow> departed S os h' = departed S os h + n) \<and>
             ring_list q' = drop n (ring_list q)) \<and>
          (\<forall>m. lock_depth m h' = lock_depth m h))
       (\<lambda>e. e = Out_of_fuel) h"
proof (induction fuel arbitrary: q h)
  case 0
  then show ?case
    by (auto simp: queueAdd_wait.simps wp_simps intro: exI [of _ 0])
next
  case (Suc k)
  show ?case
  proof (cases "full q = 0")
    case True
    with Suc.prems show ?thesis
      by (auto simp: queueAdd_wait.simps wp_simps intro: exI [of _ 0])
  next
    case False
    let ?d = "departures os h"
    let ?h = "(Cond_wait Not_full, ret os h (Cond_wait Not_full)) # h"
    have inv: "ring_inv (consumer_ran ?d q)" using Suc.prems by (rule consumer_ran_inv)
    have sum: "\<exists>n'. (\<forall>S. S (Cond_wait Not_full) \<longrightarrow> departed S os h' = departed S os h + n') \<and>
        drop n (drop ?d (ring_list q)) = drop n' (ring_list q)"
      if "\<forall>S. S (Cond_wait Not_full) \<longrightarrow> departed S os h' = departed S os ?h + n" for n h'
      using that by (intro exI [of _ "n + ?d"]) (auto simp: drop_drop)
    have step: "wp (queueAdd_wait os (Suc k) q) P E h = wp (queueAdd_wait os k (consumer_ran ?d q)) P E ?h" for P E
      using False by (subst queueAdd_wait.simps) (simp add: wp_simps)
    show ?thesis
      unfolding step
    proof (rule wp_mono [OF Suc.IH [OF inv]], goal_cases)
      case (1 q' h')
      then show ?case using Suc.prems sum by (fastforce simp: consumer_ran_inv)
    qed
  qed
qed

lemma queueRemBlock_wait_spec:
  "ring_inv q \<Longrightarrow>
     wp (queueRemBlock_wait os fuel q)
       (\<lambda>q' h'. ring_inv q' \<and> empty q' = 0 \<and>
          (\<exists>ms. ring_list q' = ring_list q @ map message ms) \<and>
          (\<forall>m. lock_depth m h' = lock_depth m h))
       (\<lambda>e. e = Out_of_fuel) h"
proof (induction fuel arbitrary: q h)
  case 0
  then show ?case
    by (auto simp: queueRemBlock_wait.simps wp_simps intro: exI [of _ "[]"])
next
  case (Suc k)
  show ?case
  proof (cases "empty q = 0")
    case True
    with Suc.prems show ?thesis
      by (auto simp: queueRemBlock_wait.simps wp_simps intro: exI [of _ "[]"])
  next
    case False
    let ?h = "(Cond_wait Not_empty, ret os h (Cond_wait Not_empty)) # h"
    have inv: "ring_inv (producer_ran (arrivals os h) q)" using Suc.prems by (rule producer_ran_inv)
    obtain n where n: "ring_list (producer_ran (arrivals os h) q) =
        ring_list q @ map message (take n (arrivals os h))"
      using producer_ran_list Suc.prems by blast
    have "\<exists>ms'. ring_list q @ map message (take n (arrivals os h)) @ map message ms =
        ring_list q @ map message ms'" for ms
      by (rule exI [of _ "take n (arrivals os h) @ ms"]) simp
    then show ?thesis
      using Suc.IH [OF inv, of ?h] Suc.prems False
      by (subst queueRemBlock_wait.simps) (auto simp: wp_simps n elim!: wp_mono)
  qed
qed

lemma queueRemNonBlock_wait_spec:
  assumes n: "0 \<le> n" "c_int (n * 1000000)" and clk: "posix_clock os"
  shows "ring_inv q \<Longrightarrow>
     wp (queueRemNonBlock_wait os fuel n q)
       (\<lambda>(i, q') h'. ring_inv q' \<and> (i = 0 \<or> i = 1 \<and> empty q' = 0) \<and>
          (\<exists>ms. arrived os ms \<and> ring_list q' = ring_list q @ map message ms) \<and>
          (\<forall>m. lock_depth m h' = lock_depth m h))
       (\<lambda>e. e = Out_of_fuel) h"
proof (induction fuel arbitrary: q h)
  case 0
  then show ?case
    by (auto simp: queueRemNonBlock_wait.simps wp_simps intro: exI [of _ "[]"])
next
  case (Suc k)
  show ?case
  proof (cases "empty q = 0")
    case True
    with Suc.prems show ?thesis
      by (auto simp: queueRemNonBlock_wait.simps wp_simps intro: exI [of _ "[]"])
  next
    case False
    have nsec: "0 \<le> tv_usec (clock os h) * 1000 + n * 1000000"
      using clk n(1) by (simp add: posix_clock_def)
    define c where "c = Cond_timedwait Not_empty (tv_sec (clock os h))
      (tv_usec (clock os h) * 1000 + n * 1000000)"
    define h1 where "h1 = (Gettimeofday, ret os h Gettimeofday) # h"
    define q1 where "q1 = (if ret os h1 c = 0 \<or> ret os h1 c = ETIMEDOUT
      then producer_ran (arrivals os h1) q else q)"
    have "ring_inv q1 \<and> (\<exists>ms. arrived os ms \<and> ring_list q1 = ring_list q @ map message ms)"
      using Suc.prems producer_ran_list [of q "arrivals os h1"] arrived_take [of os _ h1]
      by (auto simp: q1_def producer_ran_inv intro: exI [of _ "[]"])
    then obtain ms1 where inv: "ring_inv q1" and new: "arrived os ms1"
      and ms1: "ring_list q1 = ring_list q @ map message ms1" by blast
    have app: "\<exists>ms'. arrived os ms' \<and> map message ms1 @ map message ms = map message ms'"
      if "arrived os ms" for ms
      using that new by (intro exI [of _ "ms1 @ ms"]) simp
    have depth: "\<forall>m. lock_depth m ((c, ret os h1 c) # h1) = lock_depth m h"
      by (simp add: c_def h1_def)
    have step: "wp (queueRemNonBlock_wait os (Suc k) n q) P E h =
        (if ret os h1 c = ETIMEDOUT then P (0, q1) ((c, ret os h1 c) # h1)
         else wp (queueRemNonBlock_wait os k n q1) P E ((c, ret os h1 c) # h1))" for P E
      using False n(2) nsec
      by (subst queueRemNonBlock_wait.simps) (simp add: wp_simps Let_def c_def h1_def q1_def)
    show ?thesis
      unfolding step using inv ms1 new depth Suc.IH [OF inv, of "(c, ret os h1 c) # h1"]
      by (auto simp: app elim!: wp_mono)
  qed
qed

section \<open>Properties of the queue\<close>

text \<open>The polls of a queue all come back: no deadline is invalid for more than \<open>fuel\<close> tries.\<close>

definition prompt :: "os \<Rightarrow> nat \<Rightarrow> int \<Rightarrow> bool" where
  "prompt os fuel n \<longleftrightarrow>
     (\<forall>h q. ring_inv q \<longrightarrow> queueRemNonBlock_wait os fuel n q h \<noteq> Inl Out_of_fuel)"

lemma prompt_returns:
  "prompt os fuel n \<Longrightarrow> ring_inv q \<Longrightarrow> queueRemNonBlock os fuel q n out h \<noteq> Inl Out_of_fuel"
  by (auto simp: prompt_def queueRemNonBlock_def seqio_def bindio_def assertio_def lock_queue_def
      guardio_def unlock_and_signal_def stopio_def retio_def sys_def Let_def split: sum.splits if_splits prod.splits)

lemma prompt_timeout:
  assumes "c_int (n * 1000000)"
    and "\<And>h. 0 \<le> tv_usec (clock os h) * 1000 + n * 1000000 \<and> tv_usec (clock os h) * 1000 + n * 1000000 < 10 ^ 9"
    and "\<And>h s ns. 0 \<le> ns \<Longrightarrow> ns < 10 ^ 9 \<Longrightarrow> ret os h (Cond_timedwait Not_empty s ns) = ETIMEDOUT"
  shows "prompt os (Suc k) n"
  unfolding prompt_def
  by (subst queueRemNonBlock_wait.simps)
     (use assms in \<open>simp add: bindio_def gettimeofday_def seqio_def guardio_def assertio_def retio_def
       timedwait_not_empty_def asksio_def sys_def Let_def\<close>)

text \<open>
  The other thread takes a message off a full queue in time: a waiting \<open>queueAdd\<close> does not
  use up its fuel.
\<close>

definition drains :: "os \<Rightarrow> nat \<Rightarrow> bool" where
  "drains os fuel \<longleftrightarrow> (\<forall>h q. ring_inv q \<longrightarrow> queueAdd_wait os fuel q h \<noteq> Inl Out_of_fuel)"

lemma drains_returns:
  "drains os fuel \<Longrightarrow> ring_inv q \<Longrightarrow> queueAdd os fuel q x h \<noteq> Inl Out_of_fuel"
  by (auto simp: drains_def queueAdd_def seqio_def bindio_def assertio_def lock_queue_def
      guardio_def unlock_and_signal_def stopio_def retio_def sys_def Let_def split: sum.splits if_splits prod.splits)

lemma drains_one:
  assumes "\<And>h. 0 < departures os h"
  shows "drains os (Suc k)"
  unfolding drains_def
proof (intro allI impI)
  fix h and q :: "queueData queue"
  assume inv: "ring_inv q"
  show "queueAdd_wait os (Suc k) q h \<noteq> Inl Out_of_fuel"
  proof (cases "full q = 0")
    case True
    then show ?thesis by (simp add: queueAdd_wait.simps retio_def)
  next
    case False
    let ?q = "consumer_ran (departures os h) q"
    have "ring_inv ?q" and "ring_list ?q = drop (departures os h) (ring_list q)"
      using inv by (simp_all add: consumer_ran_inv)
    moreover have "ring_count q \<le> QUEUESIZE" by (rule ring_count_le)
    ultimately have "length (ring_list ?q) < QUEUESIZE"
      using assms [of h] by (simp add: QUEUESIZE_def)
    then have "full ?q = 0" using ring_full_iff [OF \<open>ring_inv ?q\<close>] length_ring_list by metis
    with False show ?thesis
      by (simp add: queueAdd_wait.simps bindio_def wait_not_full_def seqio_def asksio_def sys_def retio_def Let_def)
  qed
qed

text \<open>An empty queue the witnesses start from.\<close>

definition empty_queue :: "'a queue" where
  "empty_queue = snd (queueInit \<lparr>buf = replicate QUEUESIZE None, head = 7, tail = 9, full = 1,
     empty = 0, sync = False\<rparr>)"

lemma empty_queue_inv [simp]: "ring_inv empty_queue" "ring_list empty_queue = []"
  by (simp_all add: empty_queue_def queueInit_inv)

lemma empty_queue_flags [simp]: "full empty_queue = 0" "empty empty_queue = 1"
  by (simp_all add: empty_queue_def queueInit_def)

text \<open>
  C10: The ring buffer of \<^verbatim>\<open>q.c\<close> is a first-in first-out list. For every sequence of additions
  and removals (each skipped when it would block), the removals return the same messages as
  on a list of at most \<open>QUEUESIZE\<close> messages, and the ring ends holding the same list.
\<close>

theorem queue_refines_list:
  assumes "ring_inv q"
  shows "spec_ops QUEUESIZE ops (ring_list q) =
     (let (out, q') = run_ops queueAdd_ring queueRem_ring (\<lambda>q. full q \<noteq> 0) (\<lambda>q. empty q \<noteq> 0) ops q
      in (out, ring_list q'))"
  using rq.run_ops_refines [OF assms, of ops] by (simp add: case_prod_beta)

theorem queue_refines_list_witness:
  "spec_ops QUEUESIZE [Put (1 :: nat), Put 2, Take, Put 3, Take] [] =
     (let (out, q') = run_ops queueAdd_ring queueRem_ring (\<lambda>q. full q \<noteq> 0) (\<lambda>q. empty q \<noteq> 0)
        [Put 1, Put 2, Take, Put 3, Take] empty_queue
      in (out, ring_list q')) \<and>
   fst (spec_ops QUEUESIZE [Put 1, Put 2, Take, Put 3, Take] []) = [Some 1, Some (2 :: nat)]"
proof (rule conjI)
  show "spec_ops QUEUESIZE [Put (1 :: nat), Put 2, Take, Put 3, Take] [] =
     (let (out, q') = run_ops queueAdd_ring queueRem_ring (\<lambda>q. full q \<noteq> 0) (\<lambda>q. empty q \<noteq> 0)
        [Put 1, Put 2, Take, Put 3, Take] empty_queue
      in (out, ring_list q'))"
    using queue_refines_list [OF empty_queue_inv(1), of "[Put 1, Put 2, Take, Put 3, Take]"]
    by (simp only: empty_queue_inv(2))
qed (simp add: QUEUESIZE_def)

lemma queueAdd_ok:
  assumes inv: "ring_inv q"
  shows "wp (queueAdd os fuel q x)
       (\<lambda>q' h'. ring_inv q' \<and>
          (\<exists>n. departed sleeps os h' = departed sleeps os h + n \<and>
             departed looks os h' = departed looks os h + departures os h + n \<and>
             ring_list q' = drop n (ring_list q) @ [x]) \<and>
          (full q = 0 \<longrightarrow> ring_list q' = ring_list q @ [x]) \<and>
          (\<forall>m. lock_depth m h' = lock_depth m h))
       (\<lambda>e. e = Out_of_fuel \<and> full q \<noteq> 0) h"
proof (cases "full q = 0")
  case True
  with inv show ?thesis
    by (auto simp: queueAdd_def queueAdd_wait.simps wp_simps Let_def ring_inv_def [of q]
        intro: ring_inv_add simp: ring_list_add)
next
  case False
  let ?h = "(Lock Queue_mutex, ret os h (Lock Queue_mutex)) # h"
  have sync: "sync q" using inv by (simp add: ring_inv_def)
  have "wp (queueAdd_wait os fuel q)
      (\<lambda>q'. wp (seqio (unlock_and_signal os Not_empty) (retio (queueAdd_ring x q')))
       (\<lambda>q' h'. ring_inv q' \<and>
          (\<exists>n. departed sleeps os h' = departed sleeps os h + n \<and>
             departed looks os h' = departed looks os h + departures os h + n \<and>
             ring_list q' = drop n (ring_list q) @ [x]) \<and>
          (full q = 0 \<longrightarrow> ring_list q' = ring_list q @ [x]) \<and>
          (\<forall>m. lock_depth m h' = lock_depth m h))
       (\<lambda>e. e = Out_of_fuel \<and> full q \<noteq> 0)) (\<lambda>e. e = Out_of_fuel \<and> full q \<noteq> 0) ?h"
  proof (rule wp_mono [OF queueAdd_wait_spec [OF inv]], goal_cases)
    case (1 q' h')
    then obtain n where n: "\<forall>S. S (Cond_wait Not_full) \<longrightarrow> departed S os h' = departed S os ?h + n"
      and q': "ring_inv q'" "full q' = 0" "ring_list q' = drop n (ring_list q)"
        "\<forall>m. lock_depth m h' = lock_depth m ?h" by blast
    from n [rule_format, of sleeps] n [rule_format, of looks] q' False show ?case
      by (simp add: wp_simps Let_def ring_inv_add ring_list_add)
  next
    case (2 e)
    then show ?case using False by simp
  qed
  then show ?thesis
    unfolding queueAdd_def wp_seqio wp_bindio wp_lock_queue if_P [OF sync] .
qed

text \<open>
  C24: \<open>queueAdd\<close> never loses or reorders messages. On a valid queue it keeps the ring
  invariant, and puts its message last, behind everything that was queued but the \<open>n\<close> oldest messages, where
  \<open>n\<close> is exactly the number the consumer took off while the call slept in its waits: the call itself
  discards nothing. It gives the mutex back; the only other outcome is that it still waits. On a queue that is
  not full it does not wait, and nothing is missing.
\<close>

theorem queueAdd_spec:
  assumes inv: "ring_inv q"
  shows "wp (queueAdd os fuel q x)
       (\<lambda>q' h'. ring_inv q' \<and>
          (\<exists>n. departed sleeps os h' = departed sleeps os h + n \<and> ring_list q' = drop n (ring_list q) @ [x]) \<and>
          (full q = 0 \<longrightarrow> ring_list q' = ring_list q @ [x]) \<and>
          (\<forall>m. lock_depth m h' = lock_depth m h))
       (\<lambda>e. e = Out_of_fuel \<and> full q \<noteq> 0) h"
  by (rule wp_mono [OF queueAdd_ok [OF inv]]) auto

definition full_queue :: "queueData queue" where
  "full_queue = \<lparr>buf = map (\<lambda>i. Some (message [of_nat i])) [0..<QUEUESIZE], head = 0, tail = 0, full = 1,
     empty = 0, sync = True\<rparr>"

lemma full_queue_inv: "ring_inv full_queue"
  "ring_list full_queue = map (\<lambda>i. message [of_nat i]) [0..<QUEUESIZE]"
  by (auto simp: full_queue_def ring_inv_def ring_list_def ring_count_def ring_slot_def)

text \<open>A consumer that takes two messages whenever the producer looks.\<close>

definition taking_os :: os where
  "taking_os = quiet_os\<lparr>departures := (\<lambda>h. 2)\<rparr>"

lemma drains_taking: "drains taking_os (Suc k)"
  by (rule drains_one) (simp add: taking_os_def)

theorem queueAdd_spec_witness:
  "wp (queueAdd taking_os (Suc 0) full_queue (message [1, 2]))
     (\<lambda>q' h'. ring_list q' =
        drop (departed sleeps taking_os h') (map (\<lambda>i. message [of_nat i]) [0..<QUEUESIZE]) @ [message [1, 2]])
     (\<lambda>_. False) []"
proof (rule wp_stops)
  show "wp (queueAdd taking_os (Suc 0) full_queue (message [1, 2]))
     (\<lambda>q' h'. ring_list q' =
        drop (departed sleeps taking_os h') (map (\<lambda>i. message [of_nat i]) [0..<QUEUESIZE]) @ [message [1, 2]])
     (\<lambda>e. e = Out_of_fuel) []"
    by (rule wp_mono [OF queueAdd_spec [OF full_queue_inv(1)]]) (auto simp: full_queue_inv(2))
qed (use drains_returns [OF drains_taking full_queue_inv(1)] in metis)

lemma queueRemNonBlock_ok:
  assumes inv: "ring_inv q" and n: "0 \<le> n" "c_int (n * 1000000)" and clk: "posix_clock os"
  shows "wp (queueRemNonBlock os fuel q n None)
     (\<lambda>(r, out, q') h'. ring_inv q' \<and> (\<forall>m. lock_depth m h' = lock_depth m h) \<and>
        (\<exists>ms. arrived os ms \<and> (r = Q_OK \<and> out \<noteq> None \<and> ring_list q @ map message ms = the out # ring_list q' \<or>
              r = Q_ERR \<and> out = None \<and> ring_list q' = ring_list q @ map message ms)) \<and>
        (empty q = 0 \<longrightarrow> r = Q_OK \<and> out = Some (hd (ring_list q)) \<and> ring_list q' = tl (ring_list q)))
     (\<lambda>e. e = Out_of_fuel \<and> empty q \<noteq> 0) h"
proof (cases "empty q = 0")
  case True
  then have "ring_list q = hd (ring_list q) # tl (ring_list q)"
    using ring_empty_iff [OF inv] by simp
  moreover have "sync q" using inv by (simp add: ring_inv_def)
  ultimately show ?thesis
    using True inv ring_list_rem [OF inv True]
    by (auto simp: queueRemNonBlock_def queueRemNonBlock_wait.simps wp_simps Let_def case_prod_beta
        ring_inv_rem intro!: exI [of _ "[]"])
next
  case False
  let ?h = "(Lock Queue_mutex, ret os h (Lock Queue_mutex)) # h"
  have sync: "sync q" using inv by (simp add: ring_inv_def)
  have ne: "ring_list q' \<noteq> []" if "ring_inv q'" and "empty q' = 0" for q' :: "queueData queue"
    using ring_empty_iff [OF that(1)] that(2) by simp
  have some: "\<exists>y. fst (queueRem_ring q') = Some y"
    if "ring_inv q'" and "empty q' = 0" for q' :: "queueData queue"
    using ring_list_rem [OF that] by simp
  have out: "\<exists>ms'. arrived os ms' \<and> (\<exists>y. fst (queueRem_ring q') = Some y) \<and>
      ring_list q @ map message ms' =
      the (fst (queueRem_ring q')) # ring_list (snd (queueRem_ring q'))"
    if "ring_inv q'" and "empty q' = 0" and "ring_list q' = ring_list q @ map message ms"
      and "arrived os ms" for q' ms
    using ring_list_rem [OF that(1,2)] ne [OF that(1,2)] that(3,4) some [OF that(1,2)] by (intro exI [of _ ms]) simp
  show ?thesis
    using False sync queueRemNonBlock_wait_spec [OF n clk inv, of fuel ?h]
    by (auto simp: queueRemNonBlock_def wp_simps Let_def case_prod_beta ring_inv_rem Q_OK_def
        Q_ERR_def intro: out dest: some elim!: wp_mono)
qed

text \<open>
  C23: \<open>queueRemNonBlock\<close> returns the oldest message or an honest error. When it ends it has
  kept the invariant and released the mutex, and it returned either \<open>Q_OK\<close> with the first of
  the messages (those queued before the call, then those that arrived during it), or \<open>Q_ERR\<close>,
  no message and every message still queued. On a queue that is not empty it returns the oldest
  message without waiting. The caller passes a null output pointer and a delay of
  \<open>n \<ge> 0\<close> ms whose nanoseconds fit in an \<open>int\<close>.
\<close>

theorem queueRemNonBlock_spec:
  assumes inv: "ring_inv q" and n: "0 \<le> n" "c_int (n * 1000000)" and clk: "posix_clock os"
  shows "wp (queueRemNonBlock os fuel q n None)
     (\<lambda>(r, out, q') h'. ring_inv q' \<and> (\<forall>m. lock_depth m h' = lock_depth m h) \<and>
        (\<exists>ms. arrived os ms \<and> (r = Q_OK \<and> out \<noteq> None \<and> ring_list q @ map message ms = the out # ring_list q' \<or>
              r = Q_ERR \<and> out = None \<and> ring_list q' = ring_list q @ map message ms)) \<and>
        (empty q = 0 \<longrightarrow> r = Q_OK \<and> out = Some (hd (ring_list q)) \<and> ring_list q' = tl (ring_list q)))
     (\<lambda>e. e = Out_of_fuel \<and> empty q \<noteq> 0) h"
  by (rule queueRemNonBlock_ok [OF assms])

theorem queueRemNonBlock_spec_witness:
  "wp (queueRemNonBlock quiet_os 1 empty_queue 10 None)
     (\<lambda>(r, out, q') h'. ring_inv q' \<and> (\<forall>m. lock_depth m h' = lock_depth m []) \<and>
        (\<exists>ms. arrived quiet_os ms \<and> (r = Q_OK \<and> out \<noteq> None \<and> map message ms = the out # ring_list q' \<or>
              r = Q_ERR \<and> out = None \<and> ring_list q' = map message ms)))
     (\<lambda>e. e = Out_of_fuel) []"
  using queueRemNonBlock_spec [OF empty_queue_inv(1), of 10 quiet_os 1 "[]"] posix_quiet
  by (simp add: c_int_def)

lemma late_deadline_step:
  assumes "posix_timedwait os" and "empty q \<noteq> 0" and "c_int (n * 1000000)"
    and late: "10 ^ 9 \<le> tv_usec (clock os h) * 1000 + n * 1000000"
  defines "h1 \<equiv> (Gettimeofday, ret os h Gettimeofday) # h"
    and "c \<equiv> Cond_timedwait Not_empty (tv_sec (clock os h)) (tv_usec (clock os h) * 1000 + n * 1000000)"
  shows "queueRemNonBlock_wait os (Suc k) n q h = queueRemNonBlock_wait os k n q ((c, EINVAL) # h1)"
proof -
  have "ret os h1 c = EINVAL"
    using assms(1) late unfolding posix_timedwait_def c_def by auto
  then show ?thesis
    using assms(2,3) late
    by (subst queueRemNonBlock_wait.simps)
       (simp add: bindio_def seqio_def gettimeofday_def guardio_def assertio_def retio_def
         timedwait_not_empty_def asksio_def sys_def Let_def EINVAL_def ETIMEDOUT_def
         flip: c_def h1_def)
qed

text \<open>
  C40: A deadline past the end of the second is not waited for. When the microseconds of the
  clock and the delay add up to a second or more, \<open>pthread_cond_timedwait\<close> refuses the
  deadline, and the loop goes round again at once: the mutex is not released, the ring is not
  touched, and no time is slept.
\<close>

theorem late_deadline_busy_waits:
  assumes "posix_timedwait os" and "empty q \<noteq> 0" and "c_int (n * 1000000)"
    and late: "10 ^ 9 \<le> tv_usec (clock os h) * 1000 + n * 1000000"
  defines "h1 \<equiv> (Gettimeofday, ret os h Gettimeofday) # h"
    and "c \<equiv> Cond_timedwait Not_empty (tv_sec (clock os h)) (tv_usec (clock os h) * 1000 + n * 1000000)"
  shows "queueRemNonBlock_wait os (Suc k) n q h = queueRemNonBlock_wait os k n q ((c, EINVAL) # h1)"
  unfolding h1_def c_def using assms(1-4) by (rule late_deadline_step)

theorem late_deadline_busy_waits_witness:
  "\<exists>h2. queueRemNonBlock_wait quiet_os 5 1500 (empty_queue :: queueData queue) [] =
          queueRemNonBlock_wait quiet_os 4 1500 empty_queue h2 \<and> lock_depth Queue_mutex h2 = 0"
  using late_deadline_busy_waits [OF posix_quiet(2), of "empty_queue :: queueData queue" 1500 "[]" 4]
  by (intro exI conjI) (auto simp: c_int_def eval_nat_numeral)

lemma queueRemNonBlock_wait_spins:
  assumes os: "posix_timedwait os" "posix_clock os" and q: "empty q \<noteq> 0"
    and n: "1000 \<le> n" "c_int (n * 1000000)"
  shows "queueRemNonBlock_wait os fuel n q h = Inl Out_of_fuel"
proof (induction fuel arbitrary: h)
  case 0
  with q show ?case by (simp add: queueRemNonBlock_wait.simps stopio_def)
next
  case (Suc k)
  have "0 \<le> tv_usec (clock os h)" using os(2) by (simp add: posix_clock_def)
  then have "10 ^ 9 \<le> tv_usec (clock os h) * 1000 + n * 1000000" using n(1) by simp
  with late_deadline_step [OF os(1) q n(2)] Suc show ?case by simp
qed

text \<open>
  A delay of a second or more never ends on an empty queue: for every number of rounds the
  loop is still running, so \<open>queueRemNonBlock\<close> with such a delay does not return \<open>Q_ERR\<close>.
\<close>

lemma long_delay_never_returns:
  assumes "posix_timedwait os" and "posix_clock os" and "ring_inv q" and "ring_list q = []"
    and "1000 \<le> n" and "c_int (n * 1000000)"
  shows "queueRemNonBlock os fuel q n None h = Inl Out_of_fuel"
proof -
  have "empty q \<noteq> 0" and "sync q" using assms(3,4) ring_empty_iff [of q] by (auto simp: ring_inv_def)
  with queueRemNonBlock_wait_spins assms show ?thesis
    by (simp add: queueRemNonBlock_def seqio_def bindio_def assertio_def retio_def lock_queue_def
        guardio_def sys_def Let_def)
qed

lemma long_delay_never_returns_witness:
  "queueRemNonBlock quiet_os 1000 empty_queue 1000 None [] = Inl Out_of_fuel"
  using long_delay_never_returns [OF posix_quiet(2,3) empty_queue_inv, of 1000 1000 "[]"]
  by (simp add: c_int_def)

text \<open>
  With the delay of the daemon a call on an empty queue ends after one wait, when the
  deadline stays inside the second and the wait times out: it returns \<open>Q_ERR\<close> and no message,
  and what arrived too late for the wake-up is still in the queue.
\<close>

lemma queueRemNonBlock_times_out:
  fixes h :: hist
  assumes inv: "ring_inv q" and q: "ring_list q = []" and n: "0 \<le> n" "c_int (n * 1000000)"
    and clk: "posix_clock os"
  defines "h1 \<equiv> (Lock Queue_mutex, ret os h (Lock Queue_mutex)) # h"
  defines "nsec \<equiv> tv_usec (clock os h1) * 1000 + n * 1000000"
  defines "h2 \<equiv> (Gettimeofday, ret os h1 Gettimeofday) # h1"
  assumes timeout: "ret os h2 (Cond_timedwait Not_empty (tv_sec (clock os h1)) nsec) = ETIMEDOUT"
  shows "wp (queueRemNonBlock os (Suc k) q n None)
     (\<lambda>(r, out, q') h'. r = Q_ERR \<and> out = None \<and> q' = producer_ran (arrivals os h2) q)
     (\<lambda>_. False) h"
proof -
  have "empty q \<noteq> 0" and "sync q" using inv q ring_empty_iff [of q] by (auto simp: ring_inv_def)
  moreover have "0 \<le> nsec" using clk n(1) by (simp add: nsec_def posix_clock_def)
  ultimately show ?thesis
    using timeout n(2) unfolding nsec_def h2_def h1_def
    by (simp add: queueRemNonBlock_def queueRemNonBlock_wait.simps wp_simps Let_def ETIMEDOUT_def)
qed

lemma queueRemNonBlock_times_out_witness:
  "wp (queueRemNonBlock quiet_os 1 empty_queue 10 None)
     (\<lambda>(r, out, q') h'. r = Q_ERR \<and> out = None \<and> q' = producer_ran [] empty_queue)
     (\<lambda>_. False) []"
  using queueRemNonBlock_times_out [OF empty_queue_inv _ _ posix_quiet(3), of 10 "[]" 0]
  by (simp add: c_int_def)

text \<open>
  A message is fit to be released exactly when it is not empty: \<open>queueDataInit\<close> accepts
  a message of any length, \<open>queueDataDeInit\<close> aborts on one of length 0.
\<close>

lemma queueData_lifecycle:
  "queueDataInit m (int (length m)) = Inr (message m) \<and>
   queueDataDeInit (message m) = (if m = [] then Inl Assertion else Inr ())"
  by (simp add: queueDataInit_def queueDataDeInit_def message_def)

end
