(* ===== verification/Queue_Conc.thy ===== *)
theory Queue_Conc
  imports Queue
begin

text \<open>
  The queue of \<^verbatim>\<open>src/q.c\<close> under its two threads: the bluetooth thread runs \<open>queueAdd\<close>
  (through \<open>DataInd\<close>), the LIRC thread runs \<open>queueRemNonBlock\<close>. A step is one call of the
  pthread library or one stretch of code under the mutex; which thread moves is not determined.
  The operations on the ring are those of theory \<open>Queue\<close>.
\<close>

section \<open>Threads and their program counters\<close>

datatype thread = Bt | Lirc

text \<open>
  Where a thread is in its operation. \<open>A_wait\<close> and \<open>R_wait\<close> sleep in the condition wait
  without the mutex; a woken thread has to take the mutex again before it goes on, and
  \<open>R_woken\<close> remembers whether the wait timed out.
\<close>

datatype 'a add_pc =
  A_idle | A_lock 'a | A_test 'a | A_wait 'a | A_woken 'a | A_unlock | A_signal

datatype rem_pc =
  R_idle | R_lock | R_test | R_wait | R_woken bool | R_fail | R_unlock | R_signal

record 'a qsys =
  ring :: "'a queue"
  owner :: "thread option"
  apc :: "'a add_pc"
  rpc :: rem_pc
  added :: "'a list"
  taken :: "'a list"

text \<open>\<open>pthread_cond_signal\<close>: a thread that sleeps on the condition is woken, no other is.\<close>

definition wake_adder :: "'a add_pc \<Rightarrow> 'a add_pc" where
  "wake_adder pc = (case pc of A_wait x \<Rightarrow> A_woken x | _ \<Rightarrow> pc)"

definition wake_remover :: "rem_pc \<Rightarrow> rem_pc" where
  "wake_remover pc = (if pc = R_wait then R_woken False else pc)"

section \<open>Steps\<close>

text \<open>The bluetooth thread in \<open>queueAdd\<close>.\<close>

inductive add_step :: "'a qsys \<Rightarrow> 'a qsys \<Rightarrow> bool" where
  a_call: "apc s = A_idle \<Longrightarrow> add_step s (s\<lparr>apc := A_lock x\<rparr>)"
| a_lock: "apc s = A_lock x \<Longrightarrow> owner s = None \<Longrightarrow>
     add_step s (s\<lparr>owner := Some Bt, apc := A_test x\<rparr>)"
| a_wait: "apc s = A_test x \<Longrightarrow> full (ring s) \<noteq> 0 \<Longrightarrow>
     add_step s (s\<lparr>owner := None, apc := A_wait x\<rparr>)"
| a_relock: "apc s = A_woken x \<Longrightarrow> owner s = None \<Longrightarrow>
     add_step s (s\<lparr>owner := Some Bt, apc := A_test x\<rparr>)"
| a_put: "apc s = A_test x \<Longrightarrow> full (ring s) = 0 \<Longrightarrow>
     add_step s (s\<lparr>ring := queueAdd_ring x (ring s), added := added s @ [x], apc := A_unlock\<rparr>)"
| a_unlock: "apc s = A_unlock \<Longrightarrow> add_step s (s\<lparr>owner := None, apc := A_signal\<rparr>)"
| a_signal: "apc s = A_signal \<Longrightarrow>
     add_step s (s\<lparr>apc := A_idle, rpc := wake_remover (rpc s)\<rparr>)"

text \<open>
  The LIRC thread in \<open>queueRemNonBlock\<close>. \<open>r_refused\<close> is the round whose deadline the library
  rejects: the thread keeps the mutex and tests again.
\<close>

inductive rem_step :: "'a qsys \<Rightarrow> 'a qsys \<Rightarrow> bool" where
  r_call: "rpc s = R_idle \<Longrightarrow> rem_step s (s\<lparr>rpc := R_lock\<rparr>)"
| r_lock: "rpc s = R_lock \<Longrightarrow> owner s = None \<Longrightarrow>
     rem_step s (s\<lparr>owner := Some Lirc, rpc := R_test\<rparr>)"
| r_wait: "rpc s = R_test \<Longrightarrow> empty (ring s) \<noteq> 0 \<Longrightarrow>
     rem_step s (s\<lparr>owner := None, rpc := R_wait\<rparr>)"
| r_refused: "rpc s = R_test \<Longrightarrow> empty (ring s) \<noteq> 0 \<Longrightarrow> rem_step s s"
| r_relock: "rpc s = R_woken t \<Longrightarrow> owner s = None \<Longrightarrow>
     rem_step s (s\<lparr>owner := Some Lirc, rpc := (if t then R_fail else R_test)\<rparr>)"
| r_fail: "rpc s = R_fail \<Longrightarrow> rem_step s (s\<lparr>owner := None, rpc := R_idle\<rparr>)"
| r_take: "rpc s = R_test \<Longrightarrow> empty (ring s) = 0 \<Longrightarrow>
     rem_step s (s\<lparr>ring := snd (queueRem_ring (ring s)),
       taken := taken s @ [the (fst (queueRem_ring (ring s)))], rpc := R_unlock\<rparr>)"
| r_unlock: "rpc s = R_unlock \<Longrightarrow> rem_step s (s\<lparr>owner := None, rpc := R_signal\<rparr>)"
| r_signal: "rpc s = R_signal \<Longrightarrow>
     rem_step s (s\<lparr>rpc := R_idle, apc := wake_adder (apc s)\<rparr>)"

text \<open>Timeouts, and the wake-ups without a signal that POSIX allows.\<close>

inductive env_step :: "'a qsys \<Rightarrow> 'a qsys \<Rightarrow> bool" where
  e_timeout: "rpc s = R_wait \<Longrightarrow> env_step s (s\<lparr>rpc := R_woken True\<rparr>)"
| e_spurious_rem: "rpc s = R_wait \<Longrightarrow> env_step s (s\<lparr>rpc := R_woken False\<rparr>)"
| e_spurious_add: "apc s = A_wait x \<Longrightarrow> env_step s (s\<lparr>apc := A_woken x\<rparr>)"

definition qstep :: "'a qsys \<Rightarrow> 'a qsys \<Rightarrow> bool" where
  "qstep s t \<longleftrightarrow> add_step s t \<or> rem_step s t \<or> env_step s t"

definition qinit :: "'a qsys \<Rightarrow> bool" where
  "qinit s \<longleftrightarrow> (\<exists>q. length (buf q) = QUEUESIZE \<and> ring s = snd (queueInit q)) \<and> owner s = None \<and>
     apc s = A_idle \<and> rpc s = R_idle \<and> added s = [] \<and> taken s = []"

section \<open>The invariant\<close>

definition adder_holds :: "'a add_pc \<Rightarrow> bool" where
  "adder_holds pc = (case pc of A_test _ \<Rightarrow> True | A_unlock \<Rightarrow> True | _ \<Rightarrow> False)"

definition remover_holds :: "rem_pc \<Rightarrow> bool" where
  "remover_holds pc \<longleftrightarrow> pc \<in> {R_test, R_fail, R_unlock}"

definition adder_sleeps :: "'a add_pc \<Rightarrow> bool" where
  "adder_sleeps pc = (case pc of A_wait _ \<Rightarrow> True | _ \<Rightarrow> False)"

text \<open>
  The mutex belongs to the thread that is under it; everything added was taken or is in the
  ring, in order; a thread asleep has a reason to sleep or a signal on its way.
\<close>

definition qsys_inv :: "'a qsys \<Rightarrow> bool" where
  "qsys_inv s \<longleftrightarrow>
     ring_inv (ring s) \<and>
     (owner s = Some Bt \<longleftrightarrow> adder_holds (apc s)) \<and>
     (owner s = Some Lirc \<longleftrightarrow> remover_holds (rpc s)) \<and>
     added s = taken s @ ring_list (ring s) \<and>
     (adder_sleeps (apc s) \<longrightarrow> full (ring s) \<noteq> 0 \<or> rpc s \<in> {R_unlock, R_signal}) \<and>
     (rpc s = R_wait \<longrightarrow> empty (ring s) \<noteq> 0 \<or> apc s \<in> {A_unlock, A_signal})"

lemmas pc_defs = adder_holds_def remover_holds_def adder_sleeps_def wake_adder_def wake_remover_def

lemma not_full_and_empty: "ring_inv q \<Longrightarrow> full q \<noteq> 0 \<Longrightarrow> empty q = 0"
  by (auto simp: ring_inv_def split: if_splits)

lemma qinit_inv: "qinit s \<Longrightarrow> qsys_inv s"
  by (auto simp: qinit_def qsys_inv_def pc_defs queueInit_inv)

lemma add_step_inv: "add_step s t \<Longrightarrow> qsys_inv s \<Longrightarrow> qsys_inv t"
proof (induction rule: add_step.induct)
  case (a_put s x)
  then show ?case
    by (auto simp: qsys_inv_def pc_defs ring_inv_add ring_list_add split: add_pc.splits)
next
  case (a_signal s)
  then show ?case
    by (cases "rpc s") (auto simp: qsys_inv_def pc_defs split: add_pc.splits if_splits)
qed (auto simp: qsys_inv_def pc_defs split: add_pc.splits)

lemma rem_step_inv: "rem_step s t \<Longrightarrow> qsys_inv s \<Longrightarrow> qsys_inv t"
proof (induction rule: rem_step.induct)
  case (r_take s)
  then have inv: "ring_inv (ring s)" by (simp add: qsys_inv_def)
  then have "ring_list (ring s) = hd (ring_list (ring s)) # tl (ring_list (ring s))"
    using ring_empty_iff r_take.hyps(2) by fastforce
  with r_take inv show ?case
    by (auto simp: qsys_inv_def pc_defs ring_inv_rem ring_list_rem split: add_pc.splits)
qed (auto simp: qsys_inv_def pc_defs split: add_pc.splits if_splits)

lemma env_step_inv: "env_step s t \<Longrightarrow> qsys_inv s \<Longrightarrow> qsys_inv t"
  by (induction rule: env_step.induct) (auto simp: qsys_inv_def pc_defs split: add_pc.splits)

interpretation qs: invariant_system qinit qstep qsys_inv
  by unfold_locales (auto simp: qstep_def intro: qinit_inv add_step_inv rem_step_inv env_step_inv)

section \<open>Properties\<close>

text \<open>A run the witnesses use: one message is added and the mutex given back.\<close>

definition qsys0 :: "nat qsys" where
  "qsys0 = \<lparr>ring = empty_queue, owner = None, apc = A_idle, rpc = R_idle, added = [], taken = []\<rparr>"

lemma qinit_qsys0: "qinit qsys0"
  unfolding qinit_def qsys0_def empty_queue_def
  by (auto intro!: exI [of _ "\<lparr>buf = replicate QUEUESIZE None, head = 7, tail = 9, full = 1,
    empty = 0, sync = False\<rparr>"])

definition qsys1 :: "nat qsys" where
  "qsys1 = qsys0\<lparr>ring := queueAdd_ring 5 empty_queue, owner := Some Bt, added := [5], apc := A_unlock\<rparr>"

lemma qsys1_path:
  "add_step qsys0 (qsys0\<lparr>apc := A_lock 5\<rparr>)"
  "add_step (qsys0\<lparr>apc := A_lock 5\<rparr>) (qsys0\<lparr>owner := Some Bt, apc := A_test 5\<rparr>)"
  "add_step (qsys0\<lparr>owner := Some Bt, apc := A_test 5\<rparr>) qsys1"
proof -
  show "add_step qsys0 (qsys0\<lparr>apc := A_lock 5\<rparr>)"
    by (rule a_call) (simp add: qsys0_def)
  show "add_step (qsys0\<lparr>apc := A_lock 5\<rparr>) (qsys0\<lparr>owner := Some Bt, apc := A_test 5\<rparr>)"
    using a_lock [of "qsys0\<lparr>apc := A_lock 5\<rparr>" 5] by (simp add: qsys0_def)
  show "add_step (qsys0\<lparr>owner := Some Bt, apc := A_test 5\<rparr>) qsys1"
    using a_put [of "qsys0\<lparr>owner := Some Bt, apc := A_test 5\<rparr>" 5]
    by (simp add: qsys0_def qsys1_def)
qed

lemma add_reach: "reach qinit qstep s \<Longrightarrow> add_step s t \<Longrightarrow> reach qinit qstep t"
  using reach_step [of qinit qstep s t] by (simp add: qstep_def)

lemma reach_qsys_test: "reach qinit qstep (qsys0\<lparr>owner := Some Bt, apc := A_test 5\<rparr>)"
  by (rule add_reach [OF add_reach [OF reach_init [of qinit, OF qinit_qsys0]]]) (rule qsys1_path)+

lemma reach_qsys1: "reach qinit qstep qsys1"
  by (rule add_reach [OF reach_qsys_test qsys1_path(3)])

text \<open>
  C8: No message is lost, duplicated or reordered between the two threads. In every reachable
  state of every interleaving, what the bluetooth thread added is what the LIRC thread took
  followed by what the ring holds.
\<close>

theorem interleaved_fifo:
  assumes "reach qinit qstep s"
  shows "added s = taken s @ ring_list (ring s)"
  using qs.reach_inv [OF assms] by (simp add: qsys_inv_def)

theorem interleaved_fifo_witness: "[5] = [] @ ring_list (queueAdd_ring (5 :: nat) empty_queue)"
  using interleaved_fifo [OF reach_qsys1] by (simp add: qsys1_def qsys0_def)

text \<open>
  C26: The ring is only touched under the mutex, by one thread at a time: a step that changes
  the ring is made by the thread that owns the mutex, and the two threads are never both in a
  stretch of code under it.
\<close>

theorem ring_mutual_exclusion:
  assumes r: "reach qinit qstep s" and st: "qstep s t"
  shows "\<not> (adder_holds (apc s) \<and> remover_holds (rpc s)) \<and>
     (ring t \<noteq> ring s \<longrightarrow> add_step s t \<and> owner s = Some Bt \<or> rem_step s t \<and> owner s = Some Lirc)"
proof -
  have inv: "qsys_inv s" using r by (rule qs.reach_inv)
  have "owner s = Some Bt" if "add_step s t" and "ring t \<noteq> ring s"
    using that inv by (induction rule: add_step.induct) (auto simp: qsys_inv_def pc_defs)
  moreover have "owner s = Some Lirc" if "rem_step s t" and "ring t \<noteq> ring s"
    using that inv by (induction rule: rem_step.induct) (auto simp: qsys_inv_def pc_defs)
  moreover have "ring t = ring s" if "env_step s t"
    using that by (induction rule: env_step.induct) auto
  ultimately show ?thesis
    using inv st unfolding qstep_def by (auto simp: qsys_inv_def)
qed

theorem ring_mutual_exclusion_witness:
  "(let s = qsys0\<lparr>owner := Some Bt, apc := A_test 5\<rparr> in
     add_step s qsys1 \<and> owner s = Some Bt \<or> rem_step s qsys1 \<and> owner s = Some Lirc)"
proof -
  have "empty (ring qsys1) \<noteq> empty (ring (qsys0\<lparr>owner := Some Bt, apc := A_test 5\<rparr>))"
    by (simp add: qsys1_def qsys0_def queueAdd_ring_simps)
  then have "ring qsys1 \<noteq> ring (qsys0\<lparr>owner := Some Bt, apc := A_test 5\<rparr>)" by metis
  then show ?thesis
    using ring_mutual_exclusion [OF reach_qsys_test, of qsys1] qsys1_path(3)
    by (simp add: qstep_def Let_def)
qed

text \<open>A sleeping producer, the consumer's way to its signal, step by step.\<close>

definition wakes :: "'a qsys \<Rightarrow> 'a \<Rightarrow> bool" where
  "wakes s x \<longleftrightarrow> (\<exists>t. rem_step\<^sup>*\<^sup>* s t \<and> apc t = A_woken x)"

lemma wakes_step: "rem_step s s' \<Longrightarrow> wakes s' x \<Longrightarrow> wakes s x"
  unfolding wakes_def by (meson converse_rtranclp_into_rtranclp)

lemma sleeping_owner:
  "qsys_inv s \<Longrightarrow> apc s = A_wait x \<Longrightarrow> \<not> remover_holds (rpc s) \<Longrightarrow> owner s = None"
  by (cases "owner s"; cases "the (owner s)") (auto simp: qsys_inv_def pc_defs)

lemma wakes_signal: "apc s = A_wait x \<Longrightarrow> rpc s = R_signal \<Longrightarrow> wakes s x"
  using r_signal [of s] unfolding wakes_def by (auto simp: wake_adder_def intro!: exI r_into_rtranclp)

lemma wakes_unlock:
  assumes "apc s = A_wait x" and "rpc s = R_unlock"
  shows "wakes s x"
  using r_unlock [OF assms(2)] by (rule wakes_step) (simp add: wakes_signal assms)

lemma wakes_test:
  assumes "qsys_inv s" and "apc s = A_wait x" and "rpc s = R_test"
  shows "wakes s x"
proof -
  have "empty (ring s) = 0"
    using assms not_full_and_empty by (auto simp: qsys_inv_def pc_defs)
  from r_take [OF assms(3) this] show ?thesis
    by (rule wakes_step) (simp add: wakes_unlock assms)
qed

lemma wakes_lock:
  assumes "qsys_inv s" and "apc s = A_wait x" and "rpc s = R_lock"
  shows "wakes s x"
proof -
  have "owner s = None" using sleeping_owner [OF assms(1,2)] assms(3) by (simp add: pc_defs)
  from r_lock [OF assms(3) this] have st: "rem_step s (s\<lparr>owner := Some Lirc, rpc := R_test\<rparr>)" .
  have "wakes (s\<lparr>owner := Some Lirc, rpc := R_test\<rparr>) x"
    by (rule wakes_test [OF rem_step_inv [OF st assms(1)]]) (simp_all add: assms)
  with st show ?thesis by (rule wakes_step)
qed

lemma wakes_idle:
  assumes "qsys_inv s" and "apc s = A_wait x" and "rpc s = R_idle"
  shows "wakes s x"
proof -
  have "wakes (s\<lparr>rpc := R_lock\<rparr>) x"
    by (rule wakes_lock [OF rem_step_inv [OF r_call [OF assms(3)] assms(1)]]) (simp_all add: assms)
  with r_call [OF assms(3)] show ?thesis by (rule wakes_step)
qed

lemma wakes_fail:
  assumes "qsys_inv s" and "apc s = A_wait x" and "rpc s = R_fail"
  shows "wakes s x"
proof -
  have "wakes (s\<lparr>owner := None, rpc := R_idle\<rparr>) x"
    by (rule wakes_idle [OF rem_step_inv [OF r_fail [OF assms(3)] assms(1)]]) (simp_all add: assms)
  with r_fail [OF assms(3)] show ?thesis by (rule wakes_step)
qed

lemma wakes_woken:
  assumes "qsys_inv s" and "apc s = A_wait x" and "rpc s = R_woken b"
  shows "wakes s x"
proof -
  let ?t = "s\<lparr>owner := Some Lirc, rpc := (if b then R_fail else R_test)\<rparr>"
  have "owner s = None" using sleeping_owner [OF assms(1,2)] assms(3) by (simp add: pc_defs)
  from r_relock [OF assms(3) this] have st: "rem_step s ?t" .
  have inv: "qsys_inv ?t" using st assms(1) by (rule rem_step_inv)
  have "wakes ?t x"
  proof (cases b)
    case True
    with wakes_fail [OF inv] assms show ?thesis by simp
  next
    case False
    with wakes_test [OF inv] assms show ?thesis by simp
  qed
  with st show ?thesis by (rule wakes_step)
qed

text \<open>
  C25: No wake-up is lost. When the bluetooth thread sleeps on a full queue, the LIRC thread
  alone, by the steps of \<open>queueRemNonBlock\<close>, always reaches the signal that wakes it; the two
  threads never sleep at the same time.
\<close>

theorem no_lost_wakeup:
  assumes r: "reach qinit qstep s" and w: "apc s = A_wait x"
  shows "(\<exists>t. rem_step\<^sup>*\<^sup>* s t \<and> apc t = A_woken x) \<and> rpc s \<noteq> R_wait"
proof -
  have inv: "qsys_inv s" using r by (rule qs.reach_inv)
  then have "rpc s \<noteq> R_wait"
    using w not_full_and_empty by (auto simp: qsys_inv_def pc_defs)
  moreover have "wakes s x"
    using inv w calculation
    by (cases "rpc s")
       (auto intro: wakes_signal wakes_unlock wakes_test wakes_lock wakes_idle wakes_fail wakes_woken)
  ultimately show ?thesis by (simp add: wakes_def)
qed

text \<open>The witness needs a full ring: the run that adds \<open>QUEUESIZE\<close> messages.\<close>

lemma add_cycle:
  assumes r: "reach qinit qstep s" and idle: "apc s = A_idle" "rpc s = R_idle" "owner s = None"
    and nf: "full (ring s) = 0"
  shows "reach qinit qstep (s\<lparr>ring := queueAdd_ring x (ring s), added := added s @ [x]\<rparr>)"
proof -
  let ?s1 = "s\<lparr>apc := A_lock x\<rparr>" let ?s2 = "s\<lparr>owner := Some Bt, apc := A_test x\<rparr>"
  let ?s3 = "?s2\<lparr>ring := queueAdd_ring x (ring s), added := added s @ [x], apc := A_unlock\<rparr>"
  let ?s4 = "?s3\<lparr>owner := None, apc := A_signal\<rparr>"
  let ?s5 = "?s4\<lparr>apc := A_idle, rpc := R_idle\<rparr>"
  have "add_step s ?s1" using idle by (intro a_call)
  moreover have "add_step ?s1 ?s2" using a_lock [of ?s1 x] idle by simp
  moreover have "add_step ?s2 ?s3" using a_put [of ?s2 x] nf by simp
  moreover have "add_step ?s3 ?s4" using a_unlock [of ?s3] by simp
  moreover have "add_step ?s4 ?s5" using a_signal [of ?s4] idle by (simp add: wake_remover_def)
  ultimately have "reach qinit qstep ?s5" using r add_reach by blast
  moreover have "?s5 = s\<lparr>ring := queueAdd_ring x (ring s), added := added s @ [x]\<rparr>"
    using idle by (cases s) simp
  ultimately show ?thesis by simp
qed

definition filled :: "nat \<Rightarrow> nat qsys" where
  "filled n = qsys0\<lparr>ring := fold queueAdd_ring (replicate n 5) empty_queue, added := replicate n 5\<rparr>"

lemma filled_ring:
  "n \<le> QUEUESIZE \<Longrightarrow> ring_inv (ring (filled n)) \<and> ring_list (ring (filled n)) = replicate n 5"
  using rq.fold_add [of empty_queue "replicate n 5"] by (simp add: filled_def)

lemma reach_filled: "n \<le> QUEUESIZE \<Longrightarrow> reach qinit qstep (filled n)"
proof (induction n)
  case 0
  then show ?case using reach_init [of qinit, OF qinit_qsys0] by (simp add: filled_def qsys0_def)
next
  case (Suc n)
  have "full (ring (filled n)) = 0"
    using filled_ring [of n] Suc.prems ring_full_iff [of "ring (filled n)"]
    by (metis Suc_leD Suc_le_lessD length_replicate length_ring_list)
  with Suc add_cycle [of "filled n" 5] show ?case
    by (simp add: filled_def qsys0_def replicate_append_same fold_replicate funpow_swap1)
qed

theorem no_lost_wakeup_witness:
  "\<exists>s :: nat qsys. (\<exists>t. rem_step\<^sup>*\<^sup>* s t \<and> apc t = A_woken 6) \<and> full (ring s) = 1 \<and> rpc s \<noteq> R_wait"
proof -
  let ?s = "filled QUEUESIZE" let ?t = "?s\<lparr>owner := Some Bt, apc := A_test 6\<rparr>"
  have full: "full (ring ?s) = 1"
    using filled_ring [of QUEUESIZE] ring_full_iff [of "ring ?s"]
    by (metis length_replicate length_ring_list less_irrefl order_refl ring_inv_def)
  have "add_step ?s (?s\<lparr>apc := A_lock 6\<rparr>)" by (intro a_call) (simp add: filled_def qsys0_def)
  moreover have "add_step (?s\<lparr>apc := A_lock 6\<rparr>) ?t"
    using a_lock [of "?s\<lparr>apc := A_lock 6\<rparr>" 6] by (simp add: filled_def qsys0_def)
  moreover have "add_step ?t (?t\<lparr>owner := None, apc := A_wait 6\<rparr>)"
    using a_wait [of ?t 6] full by simp
  ultimately have "reach qinit qstep (?t\<lparr>owner := None, apc := A_wait 6\<rparr>)"
    using reach_filled [of QUEUESIZE] add_reach by blast
  from no_lost_wakeup [OF this] full show ?thesis
    by (intro exI [of _ "?t\<lparr>owner := None, apc := A_wait 6\<rparr>"]) simp
qed

end
