(* ===== verification/Globaldefs.thy ===== *)
theory Globaldefs
  imports Sys
begin

text \<open>
  \<^verbatim>\<open>src/globaldefs.h\<close> and \<^verbatim>\<open>src/globaldefs.c\<close>: return codes, the log masks, the file name
  helper of the log macros, the lines these macros print in the debug build, and the two macros
  that own the strings of the configuration. The functions of the other theories leave the printing out.
\<close>

definition BDREMOTE_FAIL :: int where
  "BDREMOTE_FAIL = -1"

definition BDREMOTE_OK :: int where
  "BDREMOTE_OK = 0"

section \<open>Log masks\<close>

definition MODULEMASK_LIRC_THR :: u32 where
  "MODULEMASK_LIRC_THR = 0x1"

definition MODULEMASK_LIRC_SOCK :: u32 where
  "MODULEMASK_LIRC_SOCK = 0x2"

definition MODULEMASK_LIRC_CB :: u32 where
  "MODULEMASK_LIRC_CB = 0x4"

definition MODULEMASK_BT_IF :: u32 where
  "MODULEMASK_BT_IF = 0x8"

definition MODULEMASK_BT_IMPL :: u32 where
  "MODULEMASK_BT_IMPL = 0x10"

definition MODULEMASK_QUEUE :: u32 where
  "MODULEMASK_QUEUE = 0x20"

definition MODULEMASK_SPARE :: u32 where
  "MODULEMASK_SPARE = 0x40"

definition MODULEMASK_MAIN :: u32 where
  "MODULEMASK_MAIN = 0x80"

lemmas modulemask_defs = MODULEMASK_LIRC_THR_def MODULEMASK_LIRC_SOCK_def MODULEMASK_LIRC_CB_def
  MODULEMASK_BT_IF_def MODULEMASK_BT_IMPL_def MODULEMASK_QUEUE_def MODULEMASK_SPARE_def
  MODULEMASK_MAIN_def

definition BDREMOTE_MASKCHECK :: "u32 \<Rightarrow> u32 \<Rightarrow> bool" where
  "BDREMOTE_MASKCHECK logmask m \<longleftrightarrow> and logmask m = m"

section \<open>The file name of a path\<close>

text \<open>A C string is its characters followed by a terminating null.\<close>

definition c_char :: "string \<Rightarrow> nat \<Rightarrow> char" where
  "c_char s i = (if i < length s then s ! i else CHR 0x00)"

text \<open>
  The loop of \<open>bdrGetFilename\<close>, which runs its index down to 0: the argument is the index plus
  one, the result the offset the loop leaves.
\<close>

fun filename_offset :: "string \<Rightarrow> nat \<Rightarrow> nat" where
  "filename_offset s 0 = 0"
| "filename_offset s (Suc i) =
     (if c_char s i = CHR ''/'' then (if i + 1 < length s then i + 1 else i)
      else filename_offset s i)"

definition bdrGetFilename :: "string \<Rightarrow> string" where
  "bdrGetFilename s = drop (filename_offset s (Suc (length s))) s"

text \<open>What follows the last slash.\<close>

definition last_component :: "string \<Rightarrow> string" where
  "last_component s = rev (takeWhile (\<lambda>c. c \<noteq> CHR ''/'') (rev s))"

lemma last_component_snoc:
  "last_component (s @ [c]) = (if c = CHR ''/'' then [] else last_component s @ [c])"
  by (simp add: last_component_def)

lemma filename_offset_take:
  "i \<le> length s \<Longrightarrow>
     drop (filename_offset s i) s =
       (if CHR ''/'' \<notin> set (take i s) then s
        else if last_component (take i s) = [] \<and> i = length s then ''/''
        else last_component (take i s) @ drop i s)"
proof (induction i)
  case 0
  then show ?case by simp
next
  case (Suc i)
  then have i: "i < length s" and tk: "take (Suc i) s = take i s @ [s ! i]"
    by (simp_all add: take_Suc_conv_app_nth)
  show ?case
  proof (cases "s ! i = CHR ''/''")
    case True
    show ?thesis
    proof (cases "Suc i < length s")
      case True
      with i tk \<open>s ! i = CHR ''/''\<close> show ?thesis
        by (simp add: c_char_def last_component_snoc)
    next
      case False
      with i have "drop i s = [s ! i]" by (metis Cons_nth_drop_Suc drop_all not_less)
      moreover from this have "s = take i s @ ''/''" using True by (metis append_take_drop_id)
      then have "last_component s = []" and "CHR ''/'' \<in> set s"
        by (metis last_component_snoc, metis in_set_conv_decomp)
      moreover have "take (Suc i) s = s" using False by simp
      ultimately show ?thesis using False i True
        by (simp add: c_char_def)
    qed
  next
    case False
    have "drop i s = s ! i # drop (Suc i) s" using i by (simp add: Cons_nth_drop_Suc)
    with False i tk Suc show ?thesis
      by (auto simp: c_char_def last_component_snoc)
  qed
qed

lemma last_component_no_slash: "CHR ''/'' \<notin> set s \<Longrightarrow> last_component s = s"
  unfolding last_component_def by (subst takeWhile_eq_all_conv [THEN iffD2]) auto

text \<open>
  \<open>bdrGetFilename\<close> returns what follows the last slash of a path, the whole string when it
  has none, and the slash itself for a path that ends in one.
\<close>

lemma bdrGetFilename_spec:
  "bdrGetFilename s = (if last_component s = [] \<and> s \<noteq> [] then ''/'' else last_component s)"
proof -
  have "c_char s (length s) \<noteq> CHR ''/''" by (simp add: c_char_def)
  then have "bdrGetFilename s = drop (filename_offset s (length s)) s"
    by (simp add: bdrGetFilename_def)
  then show ?thesis
    using filename_offset_take [of "length s" s] last_component_no_slash [of s] by auto
qed

section \<open>Log lines\<close>

definition nl :: string where
  "nl = [CHR 0x0A]"

text \<open>What \<open>localtime\<close> tells of a \<open>time_t\<close>; the function itself is a parameter.\<close>

datatype tm = Tm (tm_hour: int) (tm_min: int) (tm_sec: int)

definition getHour :: "(int \<Rightarrow> tm) \<Rightarrow> int \<Rightarrow> int" where
  "getHour localtime ltime = tm_hour (localtime ltime)"

definition getMinute :: "(int \<Rightarrow> tm) \<Rightarrow> int \<Rightarrow> int" where
  "getMinute localtime ltime = tm_min (localtime ltime)"

definition getSecond :: "(int \<Rightarrow> tm) \<Rightarrow> int \<Rightarrow> int" where
  "getSecond localtime ltime = tm_sec (localtime ltime)"

text \<open>
  The text the macros write, empty when they write nothing: \<open>enabled\<close> is the argument
  \<open>config->debug\<close>, \<open>logmask\<close> the global mask and \<open>moduleMask\<close> that of the module; \<open>file\<close>, \<open>line\<close>
  and \<open>ltime\<close> are \<open>__FILE__\<close>, \<open>__LINE__\<close> and the time.
\<close>

definition BDREMOTE_DBG_HDR :: "(int \<Rightarrow> tm) \<Rightarrow> int \<Rightarrow> string \<Rightarrow> int \<Rightarrow> int \<Rightarrow> string" where
  "BDREMOTE_DBG_HDR localtime enabled file line ltime =
     (if enabled \<noteq> 0
      then bdrGetFilename file @ '':'' @ fmt_dec 0 line @ '' -> '' @ fmt_dec 0 (getHour localtime ltime) @ '':'' @
        fmt_dec 0 (getMinute localtime ltime) @ '':'' @ fmt_dec 0 (getSecond localtime ltime) @ '':'' @ nl
      else [])"

definition BDREMOTE_LOG ::
  "(int \<Rightarrow> tm) \<Rightarrow> u32 \<Rightarrow> u32 \<Rightarrow> int \<Rightarrow> string \<Rightarrow> int \<Rightarrow> int \<Rightarrow> string \<Rightarrow> string" where
  "BDREMOTE_LOG localtime logmask moduleMask enabled file line ltime x =
     (if enabled \<noteq> 0 \<and> BDREMOTE_MASKCHECK logmask moduleMask
      then BDREMOTE_DBG_HDR localtime enabled file line ltime @ x else [])"

definition BDREMOTE_DBG ::
  "(int \<Rightarrow> tm) \<Rightarrow> u32 \<Rightarrow> u32 \<Rightarrow> int \<Rightarrow> string \<Rightarrow> int \<Rightarrow> int \<Rightarrow> string \<Rightarrow> string" where
  "BDREMOTE_DBG localtime logmask moduleMask enabled file line ltime x =
     (if enabled \<noteq> 0 \<and> BDREMOTE_MASKCHECK logmask moduleMask
      then BDREMOTE_DBG_HDR localtime enabled file line ltime @ x @ nl else [])"

definition BDREMOTE_ERR :: "string \<Rightarrow> int \<Rightarrow> string \<Rightarrow> string" where
  "BDREMOTE_ERR file line x = file @ '':'' @ fmt_dec 0 line @ '' -> ERROR: '' @ x @ nl"

text \<open>A module is heard exactly when debugging is on and its mask is set, and then with a time stamp.\<close>

lemma log_heard:
  "BDREMOTE_LOG lt logmask m en file line t x \<noteq> [] \<longleftrightarrow> en \<noteq> 0 \<and> BDREMOTE_MASKCHECK logmask m"
  "BDREMOTE_DBG lt logmask m en file line t x = (if en \<noteq> 0 \<and> BDREMOTE_MASKCHECK logmask m
     then BDREMOTE_LOG lt logmask m en file line t (x @ nl) else [])"
  by (auto simp: BDREMOTE_LOG_def BDREMOTE_DBG_def BDREMOTE_DBG_HDR_def nl_def)

section \<open>Owned strings\<close>

text \<open>
  A string member of a struct is a pointer to memory the struct owns: \<open>None\<close> is a null pointer.
  \<open>SETVAL\<close> frees the old value and stores a fresh copy; \<open>FREEVAL\<close> frees and clears.
\<close>

definition SETVAL :: "string option \<Rightarrow> string \<Rightarrow> string option" where
  "SETVAL old s = Some s"

definition FREEVAL :: "string option \<Rightarrow> string option" where
  "FREEVAL old = None"

text \<open>Reading through a pointer.\<close>

definition deref :: "'a option \<Rightarrow> stop + 'a" where
  "deref p = (case p of None \<Rightarrow> Inl Null_deref | Some s \<Rightarrow> Inr s)"

lemma deref_simps [simp]: "deref (Some s) = Inr s" "deref None = Inl Null_deref"
  by (simp_all add: deref_def)

end
