(* ===== verification/Bdrcfg.thy ===== *)
theory Bdrcfg
  imports Globaldefs
begin

text \<open>
  The configuration of \<^verbatim>\<open>src/bdrcfg.h\<close> and the functions of \<^verbatim>\<open>src/bdrcfg.c\<close> that set,
  print and destroy it. Strings are owned pointers (\<open>None\<close> is null); the functions take their
  string arguments as non-null, as their assertions require.
\<close>

record configuration =
  listen_port :: int
  disconnect_timeout :: int
  repeat_rate :: int
  repeat_delay :: int
  release :: "string option"
  lirc_namespace :: int
  event_out :: int
  debug :: int
  interface_addr_set :: int
  interface_addr :: "string option"
  remote_addr :: "string option"
  detach :: int
  user :: "string option"
  group :: "string option"
  log_filename_set :: int
  log_filename :: "string option"
  battery_script_set :: int
  battery_script :: "string option"

definition setDefaults :: "configuration \<Rightarrow> configuration" where
  "setDefaults c = c\<lparr>
     listen_port := 8888, disconnect_timeout := 60, repeat_rate := 10, repeat_delay := 200,
     debug := 0, interface_addr_set := 0, interface_addr := FREEVAL (interface_addr c),
     remote_addr := FREEVAL (remote_addr c), detach := 1, release := FREEVAL (release c),
     lirc_namespace := 0, event_out := 0, user := FREEVAL (user c), group := FREEVAL (group c),
     log_filename_set := 0, log_filename := FREEVAL (log_filename c), battery_script_set := 0,
     battery_script := FREEVAL (battery_script c)\<rparr>"

definition setRemoteAddress :: "configuration \<Rightarrow> string \<Rightarrow> configuration" where
  "setRemoteAddress c s = c\<lparr>remote_addr := SETVAL (remote_addr c) s\<rparr>"

definition setInterfaceAddress :: "configuration \<Rightarrow> string \<Rightarrow> configuration" where
  "setInterfaceAddress c s =
     c\<lparr>interface_addr := SETVAL (interface_addr c) s, interface_addr_set := 1\<rparr>"

definition setRelease :: "configuration \<Rightarrow> string \<Rightarrow> configuration" where
  "setRelease c s = c\<lparr>release := SETVAL (release c) s\<rparr>"

definition setUser :: "configuration \<Rightarrow> string \<Rightarrow> configuration" where
  "setUser c s = c\<lparr>user := SETVAL (user c) s\<rparr>"

definition setGroup :: "configuration \<Rightarrow> string \<Rightarrow> configuration" where
  "setGroup c s = c\<lparr>group := SETVAL (group c) s\<rparr>"

definition setBatteryScript :: "configuration \<Rightarrow> string \<Rightarrow> configuration" where
  "setBatteryScript c s =
     c\<lparr>battery_script := SETVAL (battery_script c) s, battery_script_set := 1\<rparr>"

definition setLogFilename :: "configuration \<Rightarrow> string \<Rightarrow> configuration" where
  "setLogFilename c s = c\<lparr>log_filename := SETVAL (log_filename c) s, log_filename_set := 1\<rparr>"

definition destroyConfig :: "configuration \<Rightarrow> configuration" where
  "destroyConfig c = c\<lparr>
     remote_addr := FREEVAL (remote_addr c), release := FREEVAL (release c),
     user := FREEVAL (user c), group := FREEVAL (group c),
     log_filename := FREEVAL (log_filename c), battery_script := FREEVAL (battery_script c)\<rparr>"

definition userAndGroupSet :: "configuration \<Rightarrow> int" where
  "userAndGroupSet c =
     (let status = 1;
          status = (if user c = None then 0 else status);
          status = (if group c = None then 0 else status)
      in status)"

section \<open>Printing the configuration\<close>

definition fmt_bool :: "bool \<Rightarrow> string" where
  "fmt_bool b = (if b then ''1'' else ''0'')"

text \<open>
  The text \<open>printConfig\<close> writes. \<open>%s\<close> reads through its pointer. \<open>enable_repeat\<close> is the
  build option \<open>ENABLE_REPEAT\<close>.
\<close>

definition print_string :: "string \<Rightarrow> string option \<Rightarrow> string \<Rightarrow> stop + string" where
  "print_string before p after =
     (case deref p of Inl e \<Rightarrow> Inl e | Inr s \<Rightarrow> Inr (before @ s @ after @ nl))"

definition print_debug_masks :: "u32 \<Rightarrow> string" where
  "print_debug_masks m =
     ''                 LIRC thread('' @ fmt_bool (BDREMOTE_MASKCHECK m MODULEMASK_LIRC_THR) @
     '') sock('' @ fmt_bool (BDREMOTE_MASKCHECK m MODULEMASK_LIRC_SOCK) @
     '') callback('' @ fmt_bool (BDREMOTE_MASKCHECK m MODULEMASK_LIRC_CB) @ ''),'' @ nl @
     ''                 bluetooth interface('' @ fmt_bool (BDREMOTE_MASKCHECK m MODULEMASK_BT_IF) @
     '') implementation('' @ fmt_bool (BDREMOTE_MASKCHECK m MODULEMASK_BT_IMPL) @ ''),'' @ nl @
     ''                 queue('' @ fmt_bool (BDREMOTE_MASKCHECK m MODULEMASK_QUEUE) @ ''),'' @ nl @
     ''                 spare('' @ fmt_bool (BDREMOTE_MASKCHECK m MODULEMASK_SPARE) @ ''),'' @ nl @
     ''                 main('' @ fmt_bool (BDREMOTE_MASKCHECK m MODULEMASK_MAIN) @ '').'' @ nl"

definition print_items :: "bool \<Rightarrow> u32 \<Rightarrow> configuration \<Rightarrow> (stop + string) list" where
  "print_items enable_repeat m c =
    [Inr (''Configuration:'' @ nl),
     Inr ('' - listen port : '' @ fmt_dec 0 (listen_port c) @ ''.'' @ nl),
     Inr ('' - timeout     : '' @ fmt_dec 0 (disconnect_timeout c) @ '' second(s).'' @ nl),
     Inr ('' - repeat rate : '' @
       (if enable_repeat then fmt_dec 0 (repeat_rate c) @ '' per secound.'' else ''disabled.'') @ nl),
     Inr ('' - repeat delay: '' @
       (if enable_repeat then fmt_dec 0 (repeat_delay c) @ '' ms.'' else ''disabled.'') @ nl),
     (if release c = None then Inr ('' - release     : not set.'' @ nl)
      else print_string '' - release     : '' (release c) ''.''),
     Inr ('' - LIRC names  : '' @ fmt_dec 0 (lirc_namespace c) @ ''.'' @ nl),
     Inr ('' - event output: '' @ fmt_dec 0 (event_out c) @ ''.'' @ nl),
     Inr ('' - debug       : '' @ fmt_dec 0 (debug c) @ ''.'' @ nl),
     Inr (if debug c \<noteq> 0 then print_debug_masks m else []),
     (if interface_addr_set c \<noteq> 0 then print_string '' - iface addr  : '' (interface_addr c) ''.''
      else Inr ('' - iface addr  : ANY.'' @ nl)),
     print_string '' - remote addr : '' (remote_addr c) ''.'',
     Inr ('' - detach      : '' @ fmt_dec 0 (detach c) @ ''.'' @ nl),
     (if user c = None then Inr ('' - user        : not set.'' @ nl)
      else print_string '' - user        : '' (user c) ''.''),
     (if group c = None then Inr ('' - group       : not set.'' @ nl)
      else print_string '' - group       : '' (group c) ''.''),
     (if log_filename_set c \<noteq> 0
      then print_string ('' - log         : '' @ [CHR 0x27]) (log_filename c) ([CHR 0x27] @ ''.'')
      else Inr ('' - log         : stdout.'' @ nl)),
     Inr ('' - battery'' @ nl),
     (if battery_script_set c \<noteq> 0
      then print_string ('' - script    : '' @ [CHR 0x27]) (battery_script c) ([CHR 0x27] @ ''.'')
      else Inr ('' - script    : not set.'' @ nl))]"

text \<open>The items one after the other, up to the first that reads a null pointer.\<close>

fun print_all :: "(stop + string) list \<Rightarrow> stop + string" where
  "print_all [] = Inr []"
| "print_all (Inl e # xs) = Inl e"
| "print_all (Inr s # xs) = (case print_all xs of Inl e \<Rightarrow> Inl e | Inr t \<Rightarrow> Inr (s @ t))"

definition printConfig :: "bool \<Rightarrow> u32 \<Rightarrow> configuration \<Rightarrow> stop + string" where
  "printConfig enable_repeat m c = print_all (print_items enable_repeat m c)"

section \<open>Well-formed configurations\<close>

text \<open>Each flag tells whether its string is set.\<close>

definition cfg_wf :: "configuration \<Rightarrow> bool" where
  "cfg_wf c \<longleftrightarrow>
     (interface_addr_set c \<noteq> 0 \<longleftrightarrow> interface_addr c \<noteq> None) \<and>
     (log_filename_set c \<noteq> 0 \<longleftrightarrow> log_filename c \<noteq> None) \<and>
     (battery_script_set c \<noteq> 0 \<longleftrightarrow> battery_script c \<noteq> None)"

lemmas cfg_defs = setDefaults_def setRemoteAddress_def setInterfaceAddress_def setRelease_def
  setUser_def setGroup_def setBatteryScript_def setLogFilename_def SETVAL_def FREEVAL_def

text \<open>The memory a configuration owns: its strings that are not null.\<close>

definition live_strings :: "configuration \<Rightarrow> string list" where
  "live_strings c = concat (map (\<lambda>p. case p of None \<Rightarrow> [] | Some s \<Rightarrow> [s])
     [release c, interface_addr c, remote_addr c, user c, group c, log_filename c, battery_script c])"

section \<open>The string settings\<close>

text \<open>What a string option of the configuration promises to the code that reads it.\<close>

locale string_setting =
  fixes set :: "configuration \<Rightarrow> string \<Rightarrow> configuration"
    and get :: "configuration \<Rightarrow> string option"
    and wf :: "configuration \<Rightarrow> bool"
  assumes get_set: "get (set c s) = Some s"
    and set_set: "set (set c s) t = set c t"
    and wf_set: "wf c \<Longrightarrow> wf (set c s)"
begin

lemma last_wins: "get (foldl set c (ss @ [s])) = Some s"
  by (simp add: get_set)

lemma foldl_set: "foldl set c (ss @ [s]) = set c s"
  by (induction ss arbitrary: c) (simp_all add: set_set)

lemma wf_foldl: "wf c \<Longrightarrow> wf (foldl set c ss)"
  by (induction ss arbitrary: c) (simp_all add: wf_set)

end

text \<open>Two settings that do not disturb each other: the order of the options does not matter.\<close>

locale two_settings =
  s1: string_setting set1 get1 wf + s2: string_setting set2 get2 wf
  for set1 get1 set2 get2 wf +
  assumes commute: "set1 (set2 c t) s = set2 (set1 c s) t"
    and frame1: "get1 (set2 c t) = get1 c"
    and frame2: "get2 (set1 c s) = get2 c"
begin

lemma both_set:
  "get1 (set2 (set1 c s) t) = Some s \<and> get2 (set2 (set1 c s) t) = Some t \<and>
   set2 (set1 c s) t = set1 (set2 c t) s"
  by (simp add: commute frame1 s1.get_set s2.get_set)

lemma both_wf: "wf c \<Longrightarrow> wf (set2 (set1 c s) t)"
  by (simp add: s1.wf_set s2.wf_set)

end

interpretation cfg_remote: string_setting setRemoteAddress remote_addr cfg_wf
  by unfold_locales (simp_all add: cfg_defs cfg_wf_def)

interpretation cfg_iface: string_setting setInterfaceAddress interface_addr cfg_wf
  by unfold_locales (simp_all add: cfg_defs cfg_wf_def)

interpretation cfg_release: string_setting setRelease release cfg_wf
  by unfold_locales (simp_all add: cfg_defs cfg_wf_def)

interpretation cfg_script: string_setting setBatteryScript battery_script cfg_wf
  by unfold_locales (simp_all add: cfg_defs cfg_wf_def)

interpretation cfg_log: string_setting setLogFilename log_filename cfg_wf
  by unfold_locales (simp_all add: cfg_defs cfg_wf_def)

interpretation cfg_user_group: two_settings setUser user setGroup group cfg_wf
  by unfold_locales (simp_all add: cfg_defs cfg_wf_def)

lemma cfg_wf_setDefaults: "cfg_wf (setDefaults c)"
  by (simp add: cfg_defs cfg_wf_def)

lemma cfg_wf_setters:
  assumes "cfg_wf c"
  shows "cfg_wf (setRemoteAddress c s)" "cfg_wf (setInterfaceAddress c s)" "cfg_wf (setRelease c s)"
    "cfg_wf (setUser c s)" "cfg_wf (setGroup c s)" "cfg_wf (setBatteryScript c s)"
    "cfg_wf (setLogFilename c s)"
  using assms
  by (simp_all add: cfg_remote.wf_set cfg_iface.wf_set cfg_release.wf_set cfg_script.wf_set
      cfg_log.wf_set cfg_user_group.s1.wf_set cfg_user_group.s2.wf_set)

section \<open>Properties\<close>

lemma print_all_ok: "isl (print_all xs) \<longleftrightarrow> list_ex isl xs"
  by (induction xs rule: print_all.induct) (auto split: sum.splits)

lemma print_string_ok: "isl (print_string b p a) \<longleftrightarrow> p = None"
  by (cases p) (simp_all add: print_string_def)

lemma not_isl_iff: "(\<exists>t. x = Inr t) \<longleftrightarrow> \<not> isl x"
  by (cases x) auto

lemma isl_if: "isl (if b then x else y) \<longleftrightarrow> (if b then isl x else isl y)"
  by simp

text \<open>A configuration with every string option given.\<close>

definition full_config :: configuration where
  "full_config = setLogFilename (setBatteryScript (setGroup (setUser (setRelease (setInterfaceAddress
     (setRemoteAddress (setDefaults \<lparr>listen_port = 0, disconnect_timeout = 0, repeat_rate = 0,
       repeat_delay = 0, release = None, lirc_namespace = 0, event_out = 0, debug = 0,
       interface_addr_set = 0, interface_addr = None, remote_addr = None, detach = 0, user = None,
       group = None, log_filename_set = 0, log_filename = None, battery_script_set = 0,
       battery_script = None\<rparr>) ''00:19:AA:5A:F1:3F'') ''00:11:22:33:44:55'') ''_UP'')
     ''nobody'') ''nogroup'') ''/bin/true'') ''/tmp/log''"

lemma cfg_wf_full: "cfg_wf full_config"
  by (simp add: full_config_def cfg_wf_setters cfg_wf_setDefaults)

text \<open>
  Printing the configuration is safe exactly after the check for the remote address that
  \<open>main\<close> makes first. Every configuration built by the setters has its flags in step with its
  strings; then \<open>printConfig\<close> reads no null pointer if and only if the remote address is set.
\<close>

lemma printConfig_safe:
  assumes "cfg_wf c"
  shows "(\<exists>t. printConfig er m c = Inr t) \<longleftrightarrow> remote_addr c \<noteq> None"
  using assms unfolding printConfig_def not_isl_iff print_all_ok print_items_def
  by (simp add: isl_if print_string_ok cfg_wf_def)

lemma printConfig_safe_witness: "\<exists>t. printConfig True 0xFF full_config = Inr t"
  using printConfig_safe [OF cfg_wf_full, of True "0xFF"] by (simp add: full_config_def cfg_defs)

text \<open>
  Destroying the configuration releases every string but one: of all the strings a
  configuration owns, the address of the interface, set by \<open>-i\<close>, is still allocated after
  \<open>destroyConfig\<close>.
\<close>

lemma destroyConfig_live:
  "live_strings (destroyConfig c) = (case interface_addr c of None \<Rightarrow> [] | Some s \<Rightarrow> [s])"
  by (simp add: live_strings_def destroyConfig_def FREEVAL_def split: option.splits)

end
