(* ===== verification/Lirc_Util.thy ===== *)
theory Lirc_Util
  imports Sys
begin

text \<open>
  \<^verbatim>\<open>src/lirc_util.c\<close>: the stop watch of the key repeat and the write loop of the sockets.
  The struct of the stop watch, \<open>keyState\<close>, is that of \<^verbatim>\<open>src/lirc_srv.h\<close>.
\<close>

record keyState =
  keyDown :: int
  lastKey :: int
  cl0 :: timeval
  cl1 :: timeval
  elapsed :: u64
  repeat_count :: int
  done_waiting :: int

section \<open>The stop watch\<close>

definition initTime :: "os \<Rightarrow> keyState \<Rightarrow> keyState io" where
  "initTime os ks =
     (let ks = ks\<lparr>cl0 := Timeval 0 0, cl1 := Timeval 0 0\<rparr> in
      bindio (gettimeofday os) (\<lambda>t.
      let ks = ks\<lparr>cl0 := t\<rparr> in retio (ks\<lparr>cl1 := cl0 ks, elapsed := 0\<rparr>)))"

text \<open>
  The milliseconds \<open>updateTime\<close> counts between two readings: the difference of the microseconds
  alone, when it is positive.
\<close>

definition counted_ms :: "timeval \<Rightarrow> timeval \<Rightarrow> int" where
  "counted_ms t0 t1 =
     (let usec = tv_usec t1 - tv_usec t0 in if usec > 0 then usec div 1000 else 0)"

definition updateTime :: "os \<Rightarrow> keyState \<Rightarrow> keyState io" where
  "updateTime os ks =
     bindio (gettimeofday os) (\<lambda>t.
     let ks = ks\<lparr>cl1 := t\<rparr> in
     seqio (assertio (tv_sec (cl0 ks) \<le> tv_sec (cl1 ks)))
     (let ks = ks\<lparr>elapsed := elapsed ks + word_of_int (counted_ms (cl0 ks) (cl1 ks))\<rparr>
      in retio (ks\<lparr>cl0 := cl1 ks\<rparr>)))"

lemma wp_initTime [wp_simps]:
  "wp (initTime os ks) P E h =
     P (ks\<lparr>cl0 := clock os h, cl1 := clock os h, elapsed := 0\<rparr>)
       ((Gettimeofday, ret os h Gettimeofday) # h)"
  by (simp add: initTime_def wp_simps Let_def)

lemma wp_updateTime [wp_simps]:
  "wp (updateTime os ks) P E h =
     (if tv_sec (cl0 ks) \<le> tv_sec (clock os h)
      then P (ks\<lparr>cl1 := clock os h, elapsed := elapsed ks + word_of_int (counted_ms (cl0 ks) (clock os h)),
                cl0 := clock os h\<rparr>) ((Gettimeofday, ret os h Gettimeofday) # h)
      else E Assertion)"
  by (simp add: updateTime_def wp_simps Let_def)

text \<open>Real time between two readings, in microseconds.\<close>

definition usec_between :: "timeval \<Rightarrow> timeval \<Rightarrow> int" where
  "usec_between t0 t1 = (tv_sec t1 - tv_sec t0) * 10 ^ 6 + (tv_usec t1 - tv_usec t0)"

definition normal_time :: "timeval \<Rightarrow> bool" where
  "normal_time t \<longleftrightarrow> 0 \<le> tv_usec t \<and> tv_usec t < 10 ^ 6"

lemma counted_ms_bounds:
  assumes "t0 \<le> t1" and "normal_time t0" and "normal_time t1"
  shows "0 \<le> counted_ms t0 t1" and "counted_ms t0 t1 < 1000"
    and "counted_ms t0 t1 * 1000 \<le> usec_between t0 t1"
proof -
  have sec: "tv_sec t0 \<le> tv_sec t1" using assms(1) by (rule timeval_le_sec)
  show "0 \<le> counted_ms t0 t1" and "counted_ms t0 t1 < 1000"
    using assms(2,3) by (auto simp: counted_ms_def Let_def normal_time_def)
  have us: "0 \<le> usec_between t0 t1"
    using assms by (auto simp: usec_between_def less_eq_timeval_def normal_time_def)
  have "tv_usec t1 - tv_usec t0 \<le> usec_between t0 t1" using sec by (simp add: usec_between_def)
  moreover have "(tv_usec t1 - tv_usec t0) div 1000 * 1000 \<le> tv_usec t1 - tv_usec t0"
    by (simp add: minus_mod_eq_div_mult [symmetric])
  ultimately show "counted_ms t0 t1 * 1000 \<le> usec_between t0 t1"
    using us by (auto simp: counted_ms_def Let_def)
qed

text \<open>Readings one after the other: the milliseconds the stop watch counts for them.\<close>

fun counted_total :: "timeval \<Rightarrow> timeval list \<Rightarrow> int" where
  "counted_total t0 [] = 0"
| "counted_total t0 (t # ts) = counted_ms t0 t + counted_total t ts"

text \<open>
  The stop watch never runs fast. For any sequence of readings of a clock that does not run
  backwards, the milliseconds that \<open>updateTime\<close> adds up are no more than the real time from the
  first reading to the last; so the initial delay and the repeat interval are never cut short.
\<close>

lemma stopwatch_never_fast:
  assumes "sorted (t0 # ts)" and "\<forall>t \<in> set (t0 # ts). normal_time t"
  shows "counted_total t0 ts * 1000 \<le> usec_between t0 (last (t0 # ts))"
  using assms
proof (induction ts arbitrary: t0)
  case Nil
  then show ?case by (simp add: usec_between_def)
next
  case (Cons t ts)
  then have "counted_ms t0 t * 1000 \<le> usec_between t0 t" by (intro counted_ms_bounds) auto
  moreover have "counted_total t ts * 1000 \<le> usec_between t (last (t # ts))"
    using Cons.prems by (intro Cons.IH) auto
  moreover have "usec_between t0 (last (t # ts)) = usec_between t0 t + usec_between t (last (t # ts))"
    by (simp add: usec_between_def algebra_simps)
  ultimately show ?case by (simp add: algebra_simps)
qed

lemma stopwatch_never_fast_witness:
  "counted_total (Timeval 0 990000) [Timeval 0 999500, Timeval 1 9000, Timeval 1 20000] * 1000 \<le> 30000 \<and>
   counted_total (Timeval 0 990000) [Timeval 0 999500, Timeval 1 9000, Timeval 1 20000] = 20"
proof -
  let ?ts = "[Timeval 0 999500, Timeval 1 9000, Timeval 1 20000]"
  have s: "sorted (Timeval 0 990000 # ?ts)" by (simp add: less_eq_timeval_def)
  have n: "\<forall>t \<in> set (Timeval 0 990000 # ?ts). normal_time t" by (simp add: normal_time_def)
  have total: "counted_total (Timeval 0 990000) ?ts = 20" by (simp add: counted_ms_def)
  have real: "usec_between (Timeval 0 990000) (last (Timeval 0 990000 # ?ts)) = 30000"
    by (simp add: usec_between_def)
  show ?thesis using stopwatch_never_fast [OF s n] unfolding total real by simp
qed

text \<open>
  What \<open>updateTime\<close> counts. It aborts exactly when the clock was set back by a second or
  more; otherwise it moves both readings to now and adds the whole milliseconds between them when
  they fall in the same second. An interval in which the microseconds of the clock did not grow is
  not counted at all, however long it was: whole seconds are ignored.
\<close>

lemma updateTime_spec:
  "wp (updateTime os ks)
     (\<lambda>ks' h'. cl0 ks' = clock os h \<and> cl1 ks' = clock os h \<and>
        (tv_sec (clock os h) = tv_sec (cl0 ks) \<and> cl0 ks \<le> clock os h \<longrightarrow>
           elapsed ks' = elapsed ks + word_of_int (usec_between (cl0 ks) (clock os h) div 1000)) \<and>
        (tv_usec (clock os h) \<le> tv_usec (cl0 ks) \<longrightarrow> elapsed ks' = elapsed ks))
     (\<lambda>e. e = Assertion \<and> tv_sec (clock os h) < tv_sec (cl0 ks)) h"
proof -
  obtain s0 u0 where t0: "cl0 ks = Timeval s0 u0" by (rule timeval.exhaust)
  obtain s1 u1 where t1: "clock os h = Timeval s1 u1" by (rule timeval.exhaust)
  have "counted_ms (Timeval a u0) (Timeval b u1) = (u1 - u0) div 1000" if "u0 \<le> u1" for a b
    using that by (auto simp: counted_ms_def)
  moreover have "counted_ms (Timeval a u0) (Timeval b u1) = 0" if "u1 \<le> u0" for a b
    using that by (simp add: counted_ms_def)
  ultimately show ?thesis
    by (auto simp: wp_updateTime t0 t1 usec_between_def less_eq_timeval_def)
qed

lemma updateTime_spec_witness:
  "wp (updateTime (quiet_os\<lparr>clock := (\<lambda>h. Timeval 8 1000)\<rparr>)
       \<lparr>keyDown = 1, lastKey = 3, cl0 = Timeval 5 2000, cl1 = Timeval 5 2000, elapsed = 7,
         repeat_count = 0, done_waiting = 0\<rparr>)
     (\<lambda>ks' h'. elapsed ks' = 7 \<and> cl0 ks' = Timeval 8 1000) (\<lambda>_. False) []"
  by (rule wp_mono [OF updateTime_spec]) auto

section \<open>Writing to a socket\<close>

definition nolinger :: "os \<Rightarrow> int \<Rightarrow> unit io" where
  "nolinger os sock = seqio (sys os (Setsockopt sock Linger)) (retio ())"

text \<open>
  The loop of \<open>write_socket\<close>; \<open>buf\<close> holds the \<open>todo\<close> bytes that are left. A \<open>write\<close> that
  reports more than it was given would take the pointer past the end.
\<close>

function write_socket_loop :: "os \<Rightarrow> int \<Rightarrow> int \<Rightarrow> string \<Rightarrow> int io" where
  "write_socket_loop os fd len buf h =
     (if buf = [] then retio len h
      else let n = ret os h (Write fd buf); h' = (Write fd buf, n) # h in
        if n \<le> 0 then retio n h'
        else if n > int (length buf) then stopio Out_of_bounds h'
        else write_socket_loop os fd len (drop (nat n) buf) h')"
  by pat_completeness auto
termination
  by (relation "measure (\<lambda>(os, fd, len, buf, h). length buf)") auto

declare write_socket_loop.simps [simp del]

definition write_socket :: "os \<Rightarrow> int \<Rightarrow> string \<Rightarrow> int io" where
  "write_socket os fd buf = write_socket_loop os fd (int (length buf)) buf"

lemma write_socket_loop_spec:
  assumes "posix_write os"
  shows "wp (write_socket_loop os fd len buf)
     (\<lambda>r h'. (r = len \<and> sent fd h' = sent fd h @ buf \<or>
              r \<le> 0 \<and> (\<exists>k < length buf. sent fd h' = sent fd h @ take k buf)) \<and>
        (\<forall>fd'. fd' \<noteq> fd \<longrightarrow> sent fd' h' = sent fd' h) \<and>
        (\<forall>m. lock_depth m h' = lock_depth m h) \<and> set h \<subseteq> set h')
     (\<lambda>_. False) h"
  using assms
proof (induction os fd len buf h rule: write_socket_loop.induct)
  case (1 os fd len buf h)
  define n where "n = ret os h (Write fd buf)"
  have le: "n \<le> int (length buf)" using "1.prems" by (simp add: n_def posix_write_def)
  show ?case
  proof (cases "buf = [] \<or> n \<le> 0")
    case True
    then show ?thesis
      by (subst wp_def, subst write_socket_loop.simps)
         (auto simp: retio_def Let_def simp flip: n_def intro: exI [of _ 0])
  next
    case False
    then have b: "buf \<noteq> []" and pos: "0 < n" by auto
    let ?h = "(Write fd buf, n) # h"
    have eq: "write_socket_loop os fd len buf h = write_socket_loop os fd len (drop (nat n) buf) ?h"
      using b pos le by (subst write_socket_loop.simps) (simp add: Let_def flip: n_def)
    have part: "\<exists>k' < length buf. take (nat n) buf @ take k (drop (nat n) buf) = take k' buf"
      if "k < length buf - nat n" for k
      using that by (intro exI [of _ "nat n + k"]) (simp add: take_add)
    have "wp (write_socket_loop os fd len (drop (nat n) buf))
       (\<lambda>r h'. (r = len \<and> sent fd h' = sent fd ?h @ drop (nat n) buf \<or>
              r \<le> 0 \<and> (\<exists>k < length (drop (nat n) buf). sent fd h' = sent fd ?h @ take k (drop (nat n) buf))) \<and>
        (\<forall>fd'. fd' \<noteq> fd \<longrightarrow> sent fd' h' = sent fd' ?h) \<and>
        (\<forall>m. lock_depth m h' = lock_depth m ?h) \<and> set ?h \<subseteq> set h')
       (\<lambda>_. False) ?h"
      using "1.IH" [OF b refl refl] "1.prems" pos le by (simp flip: n_def)
    then show ?thesis
      unfolding wp_def eq
      by (auto split: sum.splits) (use part in blast)+
  qed
qed

lemma calls_stopwatch [ext_intros]:
  "S Gettimeofday \<Longrightarrow> calls S (initTime os ks)" "S Gettimeofday \<Longrightarrow> calls S (updateTime os ks)"
  unfolding initTime_def updateTime_def by (auto intro!: ext_intros)

lemma calls_nolinger [ext_intros]: "S (Setsockopt fd Linger) \<Longrightarrow> calls S (nolinger os fd)"
  unfolding nolinger_def by (auto intro!: ext_intros)

lemma calls_write_socket: "calls (\<lambda>c. \<exists>b. c = Write fd b) (write_socket os fd buf)"
proof -
  have "\<exists>t. h' = t @ h \<and> (\<forall>e \<in> set t. \<exists>b. fst e = Write fd b)"
    if "write_socket_loop os fd len b h = Inr (r, h')" for len b h h' r
    using that
  proof (induction os fd len b h rule: write_socket_loop.induct)
    case (1 os fd len b h)
    show ?case
    proof (cases "b = [] \<or> ret os h (Write fd b) \<le> 0 \<or> ret os h (Write fd b) > int (length b)")
      case True
      with "1.prems" show ?thesis
        by (subst (asm) (1) write_socket_loop.simps) (auto simp: retio_def stopio_def Let_def split: if_splits)
    next
      case False
      with "1.prems" have "write_socket_loop os fd len (drop (nat (ret os h (Write fd b))) b)
          ((Write fd b, ret os h (Write fd b)) # h) = Inr (r, h')"
        by (subst (asm) (1) write_socket_loop.simps) (simp add: Let_def)
      with "1.IH" False obtain t where "h' = t @ (Write fd b, ret os h (Write fd b)) # h"
        and "\<forall>e \<in> set t. \<exists>b. fst e = Write fd b" by (metis linorder_not_le)
      then show ?thesis by (intro exI [of _ "t @ [(Write fd b, ret os h (Write fd b))]"]) auto
    qed
  qed
  then show ?thesis by (simp add: calls_def write_socket_def)
qed

text \<open>
  \<open>write_socket\<close> delivers the whole message or reports that it did not. It always ends; the
  peer of the socket gets the bytes of the buffer in order, all of them when the result is the
  length of the buffer, a proper part when the result is zero or negative; no other socket gets
  anything.
\<close>

lemma write_socket_spec:
  assumes "posix_write os"
  shows "wp (write_socket os fd buf)
     (\<lambda>r h'. (if r = int (length buf) then sent fd h' = sent fd h @ buf
              else r \<le> 0 \<and> (\<exists>k < length buf. sent fd h' = sent fd h @ take k buf)) \<and>
        (\<forall>fd'. fd' \<noteq> fd \<longrightarrow> sent fd' h' = sent fd' h))
     (\<lambda>_. False) h"
proof -
  have "wp (write_socket os fd buf)
     (\<lambda>r h'. (r = int (length buf) \<and> sent fd h' = sent fd h @ buf \<or>
              r \<le> 0 \<and> (\<exists>k < length buf. sent fd h' = sent fd h @ take k buf)) \<and>
        (\<forall>fd'. fd' \<noteq> fd \<longrightarrow> sent fd' h' = sent fd' h)) (\<lambda>_. False) h"
    using write_socket_loop_spec [OF assms, of fd "int (length buf)" buf h]
    by (auto simp: write_socket_def elim!: wp_mono)
  then show ?thesis by (rule wp_mono) auto
qed

lemma write_socket_spec_witness:
  "wp (write_socket quiet_os 4 ''0054'')
     (\<lambda>r h'. r = 4 \<longrightarrow> sent 4 h' = ''0054'') (\<lambda>_. False) []"
  using write_socket_spec [OF posix_quiet(1), of 4 "''0054''" "[]"] by (auto elim!: wp_mono)

end
