(* ===== verification/Lirc_Srv.thy ===== *)
theory Lirc_Srv
  imports Queue Bdrcfg Lirc_Util "HOL-Library.Multiset"
begin

text \<open>
  The LIRC server of \<^verbatim>\<open>src/lirc_srv.c\<close>: the struct \<open>lirc_data\<close> that all threads share, its
  initialisation and destruction, the listening socket, the table of clients and the accept loop.
\<close>

definition MAX_CLIENTS :: nat where
  "MAX_CLIENTS = 16"

definition FD_SETSIZE :: int where
  "FD_SETSIZE = 1024"

text \<open>
  \<open>config\<close> is a pointer; the first \<open>clin\<close> entries of the array \<open>clis\<close> are the sockets of the
  clients (\<open>clin\<close> is an \<open>int\<close> that is only decremented in a loop bounded by it, so a natural
  number here).
\<close>

record lirc_data =
  magic0 :: int
  config :: "configuration option"
  sockinet :: int
  clis :: "int list"
  clin :: nat
  charge_percent :: int
  charge_percent_set :: int
  qu :: "queueData queue"

definition lock_data :: "os \<Rightarrow> unit io" where
  "lock_data os = seqio (sys os (Lock Data_mutex)) (retio ())"

definition unlock_data :: "os \<Rightarrow> unit io" where
  "unlock_data os = seqio (sys os (Unlock Data_mutex)) (retio ())"

text \<open>
  \<open>memset\<close> clears \<open>MAX_CLIENTS\<close> bytes of the array, which is its first four entries.
\<close>

definition initLircData :: "os \<Rightarrow> lirc_data \<Rightarrow> configuration \<Rightarrow> lirc_data io" where
  "initLircData os ld cfg =
     (let ld = ld\<lparr>magic0 := 0x15, config := Some cfg, sockinet := -1, charge_percent := 100,
        charge_percent_set := 0\<rparr> in
      seqio (lock_data os)
      (let ld = ld\<lparr>clis := replicate 4 0 @ drop 4 (clis ld), clin := 0\<rparr> in
      seqio (unlock_data os)
      (let (r, q) = queueInit (qu ld) in
      seqio (assertio (r = Q_OK)) (retio (ld\<lparr>qu := q\<rparr>)))))"

definition destroyLircData :: "lirc_data \<Rightarrow> lirc_data io" where
  "destroyLircData ld =
     (let ld = ld\<lparr>qu := queueDeinit (qu ld), config := None\<rparr> in
      seqio (assertio (clin ld = 0))
      (seqio (assertio (sockinet ld = BDREMOTE_FAIL)) (retio ld)))"

section \<open>The listening socket\<close>

text \<open>The port is narrowed to an \<open>unsigned short\<close>.\<close>

definition create_listener :: "os \<Rightarrow> configuration \<Rightarrow> lirc_data \<Rightarrow> (int \<times> lirc_data) io" where
  "create_listener os cfg ld =
     (let port = (word_of_int (listen_port cfg) :: u16) in
      bindio (sys os (Socket Inet_stream)) (\<lambda>s.
      let ld = ld\<lparr>sockinet := s\<rparr> in
      if sockinet ld = -1 then retio (BDREMOTE_FAIL, ld)
      else seqio (sys os (Setsockopt (sockinet ld) Reuseaddr))
        (bindio (sys os (Bind_inet (sockinet ld) port)) (\<lambda>b.
         if b = -1 then seqio (sys os (Close (sockinet ld))) (retio (BDREMOTE_FAIL, ld))
         else seqio (sys os (Listen (sockinet ld) 3))
           (seqio (nolinger os (sockinet ld)) (retio (BDREMOTE_OK, ld)))))))"

section \<open>The client table\<close>

text \<open>
  A failed \<open>accept\<close> is only logged: \<open>add_client\<close> goes on with the descriptor -1.
\<close>

definition add_client :: "os \<Rightarrow> lirc_data \<Rightarrow> lirc_data io" where
  "add_client os ld =
     bindio (sys os (Accept (sockinet ld))) (\<lambda>fd.
     if fd \<ge> FD_SETSIZE \<or> clin ld \<ge> MAX_CLIENTS
     then seqio (sys os (Shutdown fd 2)) (seqio (sys os (Close fd)) (retio ld))
     else seqio (nolinger os fd)
       (bindio (sys os (Fcntl_getfl fd)) (\<lambda>flags.
        seqio (if flags \<noteq> -1 then seqio (sys os (Fcntl_setfl_nonblock fd flags)) (retio ()) else retio ())
        (seqio (lock_data os)
        (seqio (guardio (clin ld < length (clis ld)) Out_of_bounds)
        (let ld = ld\<lparr>clis := (clis ld)[clin ld := fd], clin := clin ld + 1\<rparr> in
         seqio (unlock_data os) (retio ld)))))))"

text \<open>
  The inner loop of \<open>remove_client\<close>: \<open>clis[i] = clis[i+1]\<close> from \<open>i\<close> up to the new \<open>clin\<close>.
\<close>

function shift_clients :: "int list \<Rightarrow> nat \<Rightarrow> nat \<Rightarrow> stop + int list" where
  "shift_clients xs n i =
     (if i < n
      then if i + 1 < length xs then shift_clients (xs[i := xs ! (i + 1)]) n (i + 1)
           else Inl Out_of_bounds
      else Inr xs)"
  by pat_completeness auto
termination
  by (relation "measure (\<lambda>(xs, n, i). n - i)") auto

text \<open>The outer loop, from index \<open>i\<close>.\<close>

function remove_client_loop :: "os \<Rightarrow> int \<Rightarrow> lirc_data \<Rightarrow> nat \<Rightarrow> lirc_data io" where
  "remove_client_loop os fd ld i =
     (if i < clin ld
      then if i \<ge> length (clis ld) then stopio Out_of_bounds
        else if clis ld ! i = fd
        then seqio (sys os (Shutdown (clis ld ! i) 2))
          (seqio (sys os (Close (clis ld ! i)))
          (let ld = ld\<lparr>clin := clin ld - 1\<rparr> in
           bindio (liftio (shift_clients (clis ld) (clin ld) i)) (\<lambda>xs. retio (ld\<lparr>clis := xs\<rparr>))))
        else remove_client_loop os fd ld (i + 1)
      else retio ld)"
  by pat_completeness auto
termination
  by (relation "measure (\<lambda>(os, fd, ld, i). clin ld - i)") auto

definition remove_client :: "os \<Rightarrow> lirc_data \<Rightarrow> int \<Rightarrow> lirc_data io" where
  "remove_client os ld fd = remove_client_loop os fd ld 0"

declare shift_clients.simps [simp del] remove_client_loop.simps [simp del]

section \<open>The accept loop\<close>

text \<open>
  The test after \<open>ppoll\<close> looks at the requested events, which always include \<open>POLLIN\<close>, not at
  the returned ones: every time \<open>ppoll\<close> returns a positive number a client is accepted. The
  flag \<open>__io_canceled\<close> is read before each round.
\<close>

definition POLLIN_requested :: bool where
  "POLLIN_requested = True"

fun accept_loop :: "os \<Rightarrow> nat \<Rightarrow> lirc_data \<Rightarrow> lirc_data io" where
  "accept_loop os 0 ld = stopio Out_of_fuel"
| "accept_loop os (Suc k) ld =
     bindio (sys os Get_canceled) (\<lambda>canceled.
     if canceled \<noteq> 0 then retio ld
     else bindio (sys os (Ppoll [sockinet ld] None)) (\<lambda>r.
       if r < 1 then accept_loop os k ld
       else if POLLIN_requested then bindio (add_client os ld) (accept_loop os k)
       else accept_loop os k ld))"

text \<open>The loop that closes the clients.\<close>

fun close_clients :: "os \<Rightarrow> int list \<Rightarrow> unit io" where
  "close_clients os [] = retio ()"
| "close_clients os (fd # fds) =
     seqio (sys os (Shutdown fd 2)) (seqio (sys os (Close fd)) (close_clients os fds))"

definition clients :: "lirc_data \<Rightarrow> int list" where
  "clients ld = take (clin ld) (clis ld)"

definition lirc_server :: "os \<Rightarrow> nat \<Rightarrow> configuration \<Rightarrow> lirc_data \<Rightarrow> (int \<times> lirc_data) io" where
  "lirc_server os fuel cfg ld =
     bindio (create_listener os cfg ld) (\<lambda>(r, ld).
     if r = BDREMOTE_FAIL then retio (BDREMOTE_FAIL, ld)
     else bindio (accept_loop os fuel ld) (\<lambda>ld.
       seqio (lock_data os)
       (seqio (guardio (clin ld \<le> length (clis ld)) Out_of_bounds)
       (seqio (close_clients os (clients ld))
       (let ld = ld\<lparr>clin := 0\<rparr> in
        seqio (unlock_data os)
        (seqio (sys os (Shutdown (sockinet ld) 2))
        (seqio (sys os (Close (sockinet ld)))
        (retio (BDREMOTE_OK, ld\<lparr>sockinet := BDREMOTE_FAIL\<rparr>)))))))))"

section \<open>The invariant of the shared data\<close>

definition ld_wf :: "lirc_data \<Rightarrow> bool" where
  "ld_wf ld \<longleftrightarrow> magic0 ld = 0x15 \<and> config ld \<noteq> None \<and> length (clis ld) = MAX_CLIENTS \<and>
     clin ld \<le> MAX_CLIENTS \<and> ring_inv (qu ld)"

lemma length_clients [simp]: "ld_wf ld \<Longrightarrow> length (clients ld) = clin ld"
  by (simp add: ld_wf_def clients_def)

lemma clients_nth: "i < clin ld \<Longrightarrow> clis ld ! i = clients ld ! i"
  by (simp add: clients_def)

lemma wp_lock_data [wp_simps]:
  "wp (lock_data os) P E h = P () ((Lock Data_mutex, ret os h (Lock Data_mutex)) # h)"
  by (simp add: lock_data_def wp_simps)

lemma wp_unlock_data [wp_simps]:
  "wp (unlock_data os) P E h = P () ((Unlock Data_mutex, ret os h (Unlock Data_mutex)) # h)"
  by (simp add: unlock_data_def wp_simps)

lemma wp_nolinger [wp_simps]:
  "wp (nolinger os fd) P E h = P () ((Setsockopt fd Linger, ret os h (Setsockopt fd Linger)) # h)"
  by (simp add: nolinger_def wp_simps)

lemma shift_clients_ok:
  "n < length xs \<Longrightarrow> i \<le> n \<Longrightarrow>
     shift_clients xs n i = Inr (take i xs @ take (n - i) (drop (Suc i) xs) @ drop n xs)"
proof (induction xs n i rule: shift_clients.induct)
  case (1 xs n i)
  show ?case
  proof (cases "i < n")
    case True
    let ?ys = "xs[i := xs ! (i + 1)]"
    have "shift_clients xs n i = shift_clients ?ys n (i + 1)"
      using True "1.prems" by (subst shift_clients.simps) simp
    also have "\<dots> = Inr (take (i + 1) ?ys @ take (n - (i + 1)) (drop (Suc (i + 1)) ?ys) @ drop n ?ys)"
      using True "1.prems" by (intro "1.IH") auto
    finally have shifted: "shift_clients xs n i =
        Inr (take (i + 1) ?ys @ take (n - (i + 1)) (drop (Suc (i + 1)) ?ys) @ drop n ?ys)" .
    have "take (i + 1) ?ys = take i xs @ [xs ! (i + 1)]"
      using True "1.prems" by (simp add: take_Suc_update)
    moreover have "drop (Suc (i + 1)) ?ys = drop (Suc (i + 1)) xs" and "drop n ?ys = drop n xs"
      using True by simp_all
    moreover have "take (n - i) (drop (Suc i) xs) =
        xs ! (i + 1) # take (n - (i + 1)) (drop (Suc (i + 1)) xs)"
    proof -
      have "drop (Suc i) xs = xs ! Suc i # drop (Suc (Suc i)) xs"
        using True "1.prems" by (intro Cons_nth_drop_Suc [symmetric]) simp
      moreover have "n - i = Suc (n - (i + 1))" using True by simp
      ultimately show ?thesis by simp
    qed
    ultimately show ?thesis using shifted by simp
  next
    case False
    then have "i = n" using "1.prems" by simp
    then show ?thesis by (subst shift_clients.simps) simp
  qed
qed

text \<open>
  Removing the client found at index \<open>i\<close>: the table closes up and the socket is shut down and
  closed.
\<close>

lemma remove_client_loop_ok:
  assumes "ld_wf ld" and "i \<le> k" and "k < clin ld" and "clis ld ! k = fd"
    and "\<forall>j. i \<le> j \<and> j < k \<longrightarrow> clis ld ! j \<noteq> fd"
  shows "wp (remove_client_loop os fd ld i)
     (\<lambda>ld' h'. ld_wf ld' \<and> clients ld' = take k (clients ld) @ drop (Suc k) (clients ld) \<and>
        clin ld' = clin ld - 1 \<and> ld' = ld\<lparr>clis := clis ld', clin := clin ld'\<rparr> \<and>
        (\<exists>r1 r2. h' = (Close fd, r2) # (Shutdown fd 2, r1) # h))
     (\<lambda>_. False) h"
  using assms
proof (induction os fd ld i rule: remove_client_loop.induct)
  case (1 os fd ld i)
  have len: "length (clis ld) = MAX_CLIENTS" and le: "clin ld \<le> MAX_CLIENTS"
    using "1.prems"(1) by (simp_all add: ld_wf_def)
  show ?case
  proof (cases "clis ld ! i = fd")
    case True
    then have "k = i" using "1.prems"(2,5) by (metis le_neq_implies_less order_refl)
    let ?n = "clin ld - 1"
    let ?xs = "take i (clis ld) @ take (?n - i) (drop (Suc i) (clis ld)) @ drop ?n (clis ld)"
    have lt: "?n < length (clis ld)" "i \<le> ?n" using "1.prems"(3) \<open>k = i\<close> len le by auto
    have len': "length ?xs = MAX_CLIENTS" using lt len by simp
    have "take ?n ?xs = take i (clients ld) @ drop (Suc i) (clients ld)"
      using lt "1.prems"(3) by (simp add: clients_def drop_take min_def) linarith
    moreover have i: "i < clin ld" "\<not> length (clis ld) \<le> i"
      using "1.prems"(3) \<open>k = i\<close> len le by auto
    have "wp (remove_client_loop os fd ld i) P E h =
        (let h1 = (Shutdown fd 2, ret os h (Shutdown fd 2)) # h
         in P (ld\<lparr>clin := ?n, clis := ?xs\<rparr>) ((Close fd, ret os h1 (Close fd)) # h1))" for P E
      using True i shift_clients_ok [OF lt]
      by (subst remove_client_loop.simps) (simp add: wp_simps Let_def)
    ultimately show ?thesis
      using len' le "1.prems"(1) \<open>k = i\<close> by (simp add: Let_def ld_wf_def clients_def)
  next
    case False
    then have ik: "i < k" using "1.prems"(2,4) by (metis le_neq_implies_less)
    then have lt: "i < clin ld" "\<not> length (clis ld) \<le> i" using "1.prems"(3) len le by auto
    with "1.IH" [OF lt False "1.prems"(1)] ik "1.prems"(3-5) False show ?thesis
      by (subst remove_client_loop.simps) simp
  qed
qed

lemma remove_client_ok:
  assumes "ld_wf ld" and "fd \<in> set (clients ld)"
  shows "wp (remove_client os ld fd)
     (\<lambda>ld' h'. ld_wf ld' \<and> clients ld' = remove1 fd (clients ld) \<and> clin ld' = clin ld - 1 \<and>
        ld' = ld\<lparr>clis := clis ld', clin := clin ld'\<rparr> \<and>
        (\<exists>r1 r2. h' = (Close fd, r2) # (Shutdown fd 2, r1) # h))
     (\<lambda>_. False) h"
proof -
  define k where "k = (LEAST k. k < clin ld \<and> clis ld ! k = fd)"
  have "\<exists>k. k < clin ld \<and> clis ld ! k = fd"
    using assms by (auto simp: in_set_conv_nth clients_nth)
  then have k: "k < clin ld \<and> clis ld ! k = fd" unfolding k_def by (rule LeastI_ex)
  have first: "\<forall>j. 0 \<le> j \<and> j < k \<longrightarrow> clis ld ! j \<noteq> fd"
    using not_less_Least [of _ "\<lambda>k. k < clin ld \<and> clis ld ! k = fd"] k
    by (auto simp: k_def [symmetric])
  have "remove1 (clients ld ! k) (clients ld) = take k (clients ld) @ drop (Suc k) (clients ld)"
    using k first assms(1) by (intro remove1_nth_split) (auto simp: clients_nth [symmetric])
  moreover have "clients ld ! k = fd" using k by (simp add: clients_nth [symmetric])
  ultimately show ?thesis
    using remove_client_loop_ok [OF assms(1) _ _ _ first, of os h] k
    by (simp add: remove_client_def)
qed

lemma remove_client_absent:
  "\<forall>j. i \<le> j \<and> j < clin ld \<longrightarrow> clis ld ! j \<noteq> fd \<Longrightarrow> clin ld \<le> length (clis ld) \<Longrightarrow>
     remove_client_loop os fd ld i h = Inr (ld, h)"
proof (induction os fd ld i rule: remove_client_loop.induct)
  case (1 os fd ld i)
  then show ?case by (subst remove_client_loop.simps) (auto simp: retio_def)
qed

text \<open>The calls that take a client off the table.\<close>

definition close_call :: "syscall \<Rightarrow> bool" where
  "close_call c \<longleftrightarrow> (\<exists>fd. c = Shutdown fd 2 \<or> c = Close fd)"

lemma close_call_simps [simp]: "close_call (Shutdown fd 2)" "close_call (Close fd)"
  by (auto simp: close_call_def)

lemma calls_remove_client: "calls close_call (remove_client os ld fd)"
proof -
  have "calls close_call (remove_client_loop os fd ld i)" for i
    by (induction os fd ld i rule: remove_client_loop.induct)
       (subst remove_client_loop.simps, auto simp: Let_def intro!: ext_intros)
  then show ?thesis by (simp add: remove_client_def)
qed

lemma calls_locks [ext_intros]:
  "S (Lock Data_mutex) \<Longrightarrow> calls S (lock_data os)" "S (Unlock Data_mutex) \<Longrightarrow> calls S (unlock_data os)"
  unfolding lock_data_def unlock_data_def by (auto intro!: ext_intros)

section \<open>Descriptors\<close>

text \<open>The sockets a history created or accepted and has not closed.\<close>

fun open_socks :: "hist \<Rightarrow> int multiset" where
  "open_socks [] = {#}"
| "open_socks ((Socket k, fd) # h) = (if fd = -1 then open_socks h else add_mset fd (open_socks h))"
| "open_socks ((Accept s, fd) # h) = (if fd = -1 then open_socks h else add_mset fd (open_socks h))"
| "open_socks ((Close fd, r) # h) = open_socks h - {#fd#}"
| "open_socks (e # h) = open_socks h"

lemma no_neg_sock: "-1 \<notin># open_socks h"
proof (induction h rule: open_socks.induct)
  case (4 fd r h)
  then show ?case by (auto dest: in_diffD)
qed auto

definition table_socks :: "lirc_data \<Rightarrow> int multiset" where
  "table_socks ld = mset (filter (\<lambda>fd. fd \<noteq> -1) (clients ld))"

lemma diff_table: "-1 \<notin># M \<Longrightarrow> M + mset (filter (\<lambda>fd. fd \<noteq> -1) xs) - mset xs = M"
proof (induction xs)
  case Nil
  then show ?case by simp
next
  case (Cons x xs)
  show ?case
  proof (cases "x = -1")
    case True
    have "-1 \<notin># M + mset (filter (\<lambda>fd. fd \<noteq> -1) xs)" using Cons.prems by auto
    then have "M + mset (filter (\<lambda>fd. fd \<noteq> -1) xs) - {#-1#} = M + mset (filter (\<lambda>fd. fd \<noteq> -1) xs)"
      by (rule diff_single_trivial)
    with True Cons show ?thesis by (simp add: diff_diff_add [symmetric] del: diff_diff_add)
  next
    case False
    with Cons show ?thesis by simp
  qed
qed

section \<open>The operations on the table\<close>

text \<open>
  Accepting a client: the new descriptor is put at the end of the table when there is room and the
  descriptor is small enough, whether the \<open>accept\<close> succeeded or not; otherwise it is closed.
\<close>

lemma add_client_ok:
  fixes os :: os and h :: hist
  assumes wf: "ld_wf ld"
  defines "fd \<equiv> ret os h (Accept (sockinet ld))"
  shows "wp (add_client os ld)
     (\<lambda>ld' h'. ld_wf ld' \<and>
        clients ld' = (if fd < FD_SETSIZE \<and> clin ld < MAX_CLIENTS then clients ld @ [fd] else clients ld) \<and>
        ld' = ld\<lparr>clis := clis ld', clin := clin ld'\<rparr> \<and>
        (\<forall>m. lock_depth m h' = lock_depth m h) \<and> length h \<le> length h' \<and>
        (open_socks h = M + table_socks ld \<longrightarrow> open_socks h' = M + table_socks ld'))
     (\<lambda>_. False) h"
proof (cases "fd \<ge> FD_SETSIZE \<or> clin ld \<ge> MAX_CLIENTS")
  case True
  have "fd = -1 \<Longrightarrow> open_socks h - {#-1#} = open_socks h"
    using no_neg_sock by (rule diff_single_trivial)
  with True wf show ?thesis
    unfolding add_client_def by (auto simp: wp_simps simp flip: fd_def)
next
  case False
  have "clin ld < length (clis ld)" using wf False by (simp add: ld_wf_def)
  then have "clients (ld\<lparr>clis := (clis ld)[clin ld := fd], clin := Suc (clin ld)\<rparr>) = clients ld @ [fd]"
    by (simp add: clients_def take_Suc_update)
  with False wf \<open>clin ld < length (clis ld)\<close> show ?thesis
    unfolding add_client_def
    by (auto simp: wp_simps Let_def ld_wf_def table_socks_def simp flip: fd_def)
qed

lemma wp_close_clients:
  "wp (close_clients os fds)
     (\<lambda>_ h'. open_socks h' = open_socks h - mset fds \<and> (\<forall>m. lock_depth m h' = lock_depth m h) \<and>
        (\<forall>fd \<in> set fds. \<exists>r. (Close fd, r) \<in> set h') \<and> set h \<subseteq> set h')
     (\<lambda>_. False) h"
proof (induction fds arbitrary: h)
  case Nil
  then show ?case by (simp add: wp_simps)
next
  case (Cons fd fds)
  show ?case
    by (auto simp: wp_simps intro!: wp_mono [OF Cons.IH])
qed

text \<open>
  The accept loop keeps the invariant and accounts for every descriptor. It ends when the flag is
  set: \<open>N\<close> bounds the number of calls the system lets pass before that.
\<close>

definition cancels_after :: "os \<Rightarrow> nat \<Rightarrow> bool" where
  "cancels_after os N \<longleftrightarrow> (\<forall>h. N \<le> length h \<longrightarrow> ret os h Get_canceled \<noteq> 0)"

lemma accept_loop_ok:
  "ld_wf ld \<Longrightarrow> open_socks h = M + table_socks ld \<Longrightarrow>
     wp (accept_loop os fuel ld)
       (\<lambda>ld' h'. ld_wf ld' \<and> open_socks h' = M + table_socks ld' \<and>
          ld' = ld\<lparr>clis := clis ld', clin := clin ld'\<rparr> \<and> (\<forall>m. lock_depth m h' = lock_depth m h))
       (\<lambda>e. e = Out_of_fuel \<and> \<not> (cancels_after os N \<and> 0 < fuel \<and> N < length h + fuel)) h"
proof (induction fuel arbitrary: ld h)
  case 0
  then show ?case by (simp add: wp_simps)
next
  case (Suc k)
  let ?h1 = "(Get_canceled, ret os h Get_canceled) # h"
  let ?c = "Ppoll [sockinet ld] None"
  let ?h2 = "(?c, ret os ?h1 ?c) # ?h1"
  have late: "\<not> (cancels_after os N \<and> 0 < Suc k \<and> N < length h + Suc k)"
    if "ret os h Get_canceled = 0" and "\<not> (cancels_after os N \<and> 0 < k \<and> N < length h' + k)"
      and "length ?h2 \<le> length h'" for h'
    using that by (auto simp: cancels_after_def)
  have again: "wp (accept_loop os k ld')
       (\<lambda>ld'' h'. ld_wf ld'' \<and> open_socks h' = M + table_socks ld'' \<and>
          ld'' = ld\<lparr>clis := clis ld'', clin := clin ld''\<rparr> \<and> (\<forall>m. lock_depth m h' = lock_depth m h))
       (\<lambda>e. e = Out_of_fuel \<and> \<not> (cancels_after os N \<and> 0 < Suc k \<and> N < length h + Suc k)) h'"
    if "ret os h Get_canceled = 0" and "ld_wf ld'" and "open_socks h' = M + table_socks ld'"
      and "ld' = ld\<lparr>clis := clis ld', clin := clin ld'\<rparr>" and "\<forall>m. lock_depth m h' = lock_depth m h"
      and "length ?h2 \<le> length h'" for ld' h'
  proof (rule wp_mono [OF Suc.IH [OF that(2,3)]], goal_cases)
    case (1 ld'' h'')
    then have "ld'' = ld'\<lparr>clis := clis ld'', clin := clin ld''\<rparr>" by simp
    then have "ld'' = ld\<lparr>clis := clis ld'', clin := clin ld''\<rparr>"
      by (subst (asm) that(4)) simp
    with 1 that(5) show ?case by simp
  next
    case (2 e)
    then show ?case using late [OF that(1) _ that(6)] by simp
  qed
  have "wp (add_client os ld) (\<lambda>ld' h'. wp (accept_loop os k ld')
       (\<lambda>ld'' h'. ld_wf ld'' \<and> open_socks h' = M + table_socks ld'' \<and>
          ld'' = ld\<lparr>clis := clis ld'', clin := clin ld''\<rparr> \<and> (\<forall>m. lock_depth m h' = lock_depth m h))
       (\<lambda>e. e = Out_of_fuel \<and> \<not> (cancels_after os N \<and> 0 < Suc k \<and> N < length h + Suc k)) h')
       (\<lambda>e. e = Out_of_fuel \<and> \<not> (cancels_after os N \<and> 0 < Suc k \<and> N < length h + Suc k)) ?h2"
    if "ret os h Get_canceled = 0"
    by (rule wp_mono [OF add_client_ok [OF Suc.prems(1), of os ?h2 M]])
       (use again [OF that] Suc.prems in auto)
  then show ?case
    using Suc.prems again [of ld ?h2]
    by (auto simp: wp_simps POLLIN_requested_def)
qed

section \<open>Properties\<close>

text \<open>Shared data after initialisation, with arbitrary former contents of the arrays.\<close>

definition fresh_ld :: lirc_data where
  "fresh_ld = \<lparr>magic0 = 0x15, config = Some full_config, sockinet = -1, clis = replicate 16 0, clin = 0,
     charge_percent = 100, charge_percent_set = 0, qu = empty_queue\<rparr>"

lemma fresh_ld_wf: "ld_wf fresh_ld" "clients fresh_ld = []"
  by (simp_all add: ld_wf_def fresh_ld_def MAX_CLIENTS_def clients_def)

text \<open>
  Initialisation establishes the invariant of the shared data from any memory: afterwards the
  table is empty, the queue is empty and valid, no battery charge is known, the mutex is free.
\<close>

lemma initLircData_spec:
  assumes "length (clis ld) = MAX_CLIENTS" and "length (buf (qu ld)) = QUEUESIZE"
  shows "wp (initLircData os ld cfg)
     (\<lambda>ld' h'. ld_wf ld' \<and> config ld' = Some cfg \<and> clients ld' = [] \<and> sockinet ld' = -1 \<and>
        ring_list (qu ld') = [] \<and> charge_percent_set ld' = 0 \<and>
        (\<forall>m. lock_depth m h' = lock_depth m h))
     (\<lambda>_. False) h"
  using queueInit_inv [OF assms(2)] assms(1)
  by (auto simp: initLircData_def wp_simps Let_def case_prod_beta ld_wf_def clients_def MAX_CLIENTS_def)

lemma initLircData_spec_witness:
  "wp (initLircData quiet_os (fresh_ld\<lparr>clis := replicate 16 77, clin := 9, sockinet := 5\<rparr>) full_config)
     (\<lambda>ld' h'. ld_wf ld' \<and> clients ld' = [] \<and> sockinet ld' = -1) (\<lambda>_. False) []"
  by (rule wp_mono [OF initLircData_spec])
     (use empty_queue_inv in \<open>auto simp: fresh_ld_def MAX_CLIENTS_def ring_inv_def\<close>)

text \<open>
  \<open>remove_client\<close> deletes one client from the table and nothing else. The table without its
  first occurrence of the descriptor is what remains, in the same order; the descriptor is shut
  down and closed when it was in the table, and nothing happens when it was not.
\<close>

lemma remove_client_spec:
  assumes "ld_wf ld"
  shows "wp (remove_client os ld fd)
     (\<lambda>ld' h'. ld_wf ld' \<and> clients ld' = remove1 fd (clients ld) \<and>
        ld' = ld\<lparr>clis := clis ld', clin := clin ld'\<rparr> \<and>
        (if fd \<in> set (clients ld) then \<exists>r1 r2. h' = (Close fd, r2) # (Shutdown fd 2, r1) # h else h' = h))
     (\<lambda>_. False) h"
proof (cases "fd \<in> set (clients ld)")
  case True
  show ?thesis
    by (rule wp_mono [OF remove_client_ok [OF assms True]]) (use True in auto)
next
  case False
  then have "remove_client os ld fd h = Inr (ld, h)"
    unfolding remove_client_def using assms
    by (intro remove_client_absent) (auto simp: clients_nth ld_wf_def)
  with False assms show ?thesis by (simp add: wp_def remove1_idem)
qed

lemma remove_client_spec_witness:
  "wp (remove_client quiet_os (fresh_ld\<lparr>clis := [4, 5, 6] @ replicate 13 0, clin := 3\<rparr>) 5)
     (\<lambda>ld' h'. clients ld' = [4, 6]) (\<lambda>_. False) []"
  by (rule wp_mono [OF remove_client_spec])
     (auto simp: ld_wf_def fresh_ld_def MAX_CLIENTS_def clients_def numeral_eq_Suc)

text \<open>
  \<open>add_client\<close> keeps the invariant and puts the result of \<open>accept\<close> at the end of the table
  exactly when there is room and the number is below \<open>FD_SETSIZE\<close>. A failed \<open>accept\<close> is no
  exception: -1 is then a client.
\<close>

lemma add_client_spec:
  fixes os :: os and h :: hist
  assumes "ld_wf ld"
  defines "fd \<equiv> ret os h (Accept (sockinet ld))"
  shows "wp (add_client os ld)
     (\<lambda>ld' h'. ld_wf ld' \<and>
        clients ld' = (if fd < FD_SETSIZE \<and> clin ld < MAX_CLIENTS then clients ld @ [fd] else clients ld) \<and>
        (\<forall>m. lock_depth m h' = lock_depth m h))
     (\<lambda>_. False) h"
  by (rule wp_mono [OF add_client_ok [OF assms(1)]]) (auto simp: fd_def)

lemma add_client_spec_witness:
  "wp (add_client (quiet_os\<lparr>ret := (\<lambda>h c. -1)\<rparr>) fresh_ld)
     (\<lambda>ld' h'. ld_wf ld' \<and> clients ld' = [-1]) (\<lambda>_. False) []"
  by (rule wp_mono [OF add_client_spec [OF fresh_ld_wf(1)]])
     (auto simp: fresh_ld_wf FD_SETSIZE_def fresh_ld_def MAX_CLIENTS_def clients_def)

lemma lirc_server_ok:
  assumes wf: "ld_wf ld" and cs: "clients ld = []"
  shows "wp (lirc_server os fuel cfg ld)
     (\<lambda>(r, ld') h'. ld_wf ld' \<and> clients ld' = [] \<and> open_socks h' = open_socks h \<and>
        (\<forall>m. lock_depth m h' = lock_depth m h) \<and>
        (r = BDREMOTE_OK \<and> sockinet ld' = BDREMOTE_FAIL \<or> r = BDREMOTE_FAIL \<and>
           (sockinet ld' = BDREMOTE_FAIL \<or> (\<exists>p. (Bind_inet (sockinet ld') p, -1) \<in> set h') \<and>
              (\<exists>h s p. ret os h (Bind_inet s p) = -1))))
     (\<lambda>e. e = Out_of_fuel \<and> \<not> (cancels_after os N \<and> 0 < fuel \<and> N \<le> fuel)) h"
proof -
  have loop: "wp (accept_loop os fuel (ld\<lparr>sockinet := s\<rparr>))
       (\<lambda>ld' h'. ld_wf ld' \<and> open_socks h' = add_mset s (open_socks h) + table_socks ld' \<and>
          sockinet ld' = s \<and> clin ld' \<le> length (clis ld') \<and> (\<forall>m. lock_depth m h' = lock_depth m h))
       (\<lambda>e. e = Out_of_fuel \<and> \<not> (cancels_after os N \<and> 0 < fuel \<and> N \<le> fuel)) h1"
    if "open_socks h1 = add_mset s (open_socks h)" and "\<forall>m. lock_depth m h1 = lock_depth m h"
      and "length h1 > 0" for s h1
  proof -
    have wf': "ld_wf (ld\<lparr>sockinet := s\<rparr>)" using wf by (simp add: ld_wf_def)
    have "clients (ld\<lparr>sockinet := s\<rparr>) = clients ld" by (simp add: clients_def)
    then have "table_socks (ld\<lparr>sockinet := s\<rparr>) = {#}" by (simp add: table_socks_def cs)
    then have "open_socks h1 = add_mset s (open_socks h) + table_socks (ld\<lparr>sockinet := s\<rparr>)"
      using that(1) by simp
    from accept_loop_ok [OF wf' this, of os fuel N] show ?thesis
    proof (rule wp_mono, goal_cases)
      case (1 ld' h')
      then have "ld' = (ld\<lparr>sockinet := s\<rparr>)\<lparr>clis := clis ld', clin := clin ld'\<rparr>" by blast
      then have "sockinet ld' = s" by (metis lirc_data.select_convs(3) lirc_data.surjective
          lirc_data.update_convs(3,4,5))
      with 1 that(2) show ?case by (auto simp: ld_wf_def)
    qed (use that(3) in \<open>cases h1; auto\<close>)
  qed
  have same: "clients (ld\<lparr>sockinet := s\<rparr>) = clients ld" "ld_wf (ld\<lparr>sockinet := s\<rparr>)" for s
    using wf by (simp_all add: clients_def ld_wf_def)
  have sum: "open_socks h + table_socks ld' - mset (clients ld') = open_socks h" for ld'
    using diff_table [OF no_neg_sock [of h], of "clients ld'"] by (simp add: table_socks_def)
  have zero: "clin ld' = 0 \<Longrightarrow> clients ld' = []" for ld' by (simp add: clients_def)
  show ?thesis
  proof (cases "ret os h (Socket Inet_stream) = -1")
    case True
    with wf cs same show ?thesis
      by (auto simp: lirc_server_def create_listener_def wp_simps Let_def BDREMOTE_OK_def
          BDREMOTE_FAIL_def ld_wf_def clients_def)
  next
    case False
    define s where "s = ret os h (Socket Inet_stream)"
    show ?thesis
      using False wf cs same unfolding lirc_server_def create_listener_def
      by (auto simp: wp_simps Let_def BDREMOTE_OK_def BDREMOTE_FAIL_def ld_wf_def zero
          simp flip: s_def intro!: wp_mono [OF loop] wp_mono [OF wp_close_clients] simp: sum)
  qed
qed

text \<open>
  C17: The server gives every descriptor back and comes to an end. Started with an empty table it
  ends with an empty table; every socket it created or accepted has been closed, on success and on
  failure; the mutex is free; the invariant holds. The number of the listening socket is reset, except
  when \<open>bind\<close> failed. When the termination flag is set after at most
  \<open>N\<close> calls, \<open>N\<close> rounds are enough for it to return.
\<close>

theorem lirc_server_spec:
  assumes wf: "ld_wf ld" and cs: "clients ld = []"
  shows "wp (lirc_server os fuel cfg ld)
     (\<lambda>(r, ld') h'. ld_wf ld' \<and> clients ld' = [] \<and> open_socks h' = open_socks h \<and>
        (\<forall>m. lock_depth m h' = lock_depth m h) \<and>
        (r = BDREMOTE_OK \<and> sockinet ld' = BDREMOTE_FAIL \<or> r = BDREMOTE_FAIL \<and>
           (sockinet ld' = BDREMOTE_FAIL \<or> (\<exists>p. (Bind_inet (sockinet ld') p, -1) \<in> set h'))))
     (\<lambda>e. e = Out_of_fuel \<and> \<not> (cancels_after os N \<and> 0 < fuel \<and> N \<le> fuel)) h"
  by (rule wp_mono [OF lirc_server_ok [OF assms, where N = N]]) auto

text \<open>A system in which the flag is set after two calls.\<close>

definition stopping_os :: os where
  "stopping_os = quiet_os\<lparr>ret := (\<lambda>h c. if c = Get_canceled then (if length h < 2 then 0 else 1)
     else if c = Socket Inet_stream then 3 else ret quiet_os h c)\<rparr>"

theorem lirc_server_spec_witness:
  "wp (lirc_server stopping_os 2 full_config fresh_ld)
     (\<lambda>(r, ld') h'. ld_wf ld' \<and> clients ld' = [] \<and> open_socks h' = {#}) (\<lambda>_. False) []"
proof -
  have "cancels_after stopping_os 2" by (simp add: cancels_after_def stopping_os_def)
  then show ?thesis
    using lirc_server_spec [OF fresh_ld_wf, of stopping_os 2 full_config "[]" 2]
    by (auto elim!: wp_mono)
qed

text \<open>
  A port that is in use aborts the daemon. When \<open>bind\<close> fails, \<open>lirc_server\<close> closes the
  listening socket but keeps its number, and \<open>destroyLircData\<close>, which \<open>main\<close> calls next on the same
  data, fails its assertion that the number was reset.
\<close>

lemma bind_failure_aborts:
  assumes "ret os h (Socket Inet_stream) \<noteq> -1"
    and "\<forall>h s p. ret os h (Bind_inet s p) = -1" and "clin ld = 0"
  shows "wp (bindio (lirc_server os fuel cfg ld) (\<lambda>(r, ld'). destroyLircData ld'))
     (\<lambda>_ _. False) (\<lambda>e. e = Assertion) h"
  using assms
  by (simp add: lirc_server_def create_listener_def destroyLircData_def wp_simps Let_def
      BDREMOTE_FAIL_def)

lemma bind_failure_aborts_witness:
  "wp (bindio (lirc_server (quiet_os\<lparr>ret := (\<lambda>h c. case c of Bind_inet s p \<Rightarrow> -1 | Socket k \<Rightarrow> 3 | _ \<Rightarrow> 0)\<rparr>)
         5 full_config fresh_ld) (\<lambda>(r, ld'). destroyLircData ld'))
     (\<lambda>_ _. False) (\<lambda>e. e = Assertion) []"
  by (rule bind_failure_aborts) (simp_all add: fresh_ld_def)

text \<open>
  The port is taken modulo \<open>2 ^ 16\<close>. Whatever number \<open>-p\<close> gave, the server listens, when it
  does, on that number modulo 65536: out of range ports are not rejected.
\<close>

lemma listen_port_narrowed:
  "wp (create_listener os cfg ld)
     (\<lambda>(r, ld') h'. (r = BDREMOTE_FAIL \<or>
        (\<exists>p b. (Bind_inet (sockinet ld') p, b) \<in> set h' \<and> b \<noteq> -1 \<and>
           uint p = listen_port cfg mod 2 ^ 16)))
     (\<lambda>_. False) h"
proof -
  define port where "port = (word_of_int (listen_port cfg) :: u16)"
  have "uint port = listen_port cfg mod 2 ^ 16" by (simp add: port_def uint_word_of_int)
  then show ?thesis
    unfolding create_listener_def port_def [symmetric]
    by (auto simp: wp_simps Let_def intro!: exI [of _ port])
qed

end
