(* ===== verification/Keydef.thy ===== *)
theory Keydef
  imports Sys
begin

text \<open>
  The key table of \<^verbatim>\<open>src/keydef.h\<close> and its lookup, \<open>codeToIndex\<close> of
  \<^verbatim>\<open>src/lirc_thr.c\<close>. Table entries are read through \<open>key_at\<close>, which is out of bounds
  where the C array is. The C strings end at the \<open>\0\<close> the source writes in them.
\<close>

record key_info =
  name_orig :: string
  name_lirc :: string
  event_code :: u32
  code :: u32
  mask :: u32

definition key :: "string \<Rightarrow> string \<Rightarrow> u32 \<Rightarrow> u32 \<Rightarrow> u32 \<Rightarrow> key_info" where
  "key n l e c m = \<lparr>name_orig = n, name_lirc = l, event_code = e, code = c, mask = m\<rparr>"

definition ps3remote_keyup :: u32 where
  "ps3remote_keyup = 0xFF"

definition ps3remote_undef :: int where
  "ps3remote_undef = -1"

definition ps3remote_num_keys :: nat where
  "ps3remote_num_keys = 51"

text \<open>The table; the event codes are those of \<^verbatim>\<open>linux/input.h\<close> that the header repeats.\<close>

definition ps3remote_keys :: "key_info list" where
  "ps3remote_keys = [
   key ''enter'' ''KEY_ENTER'' 28 0xb 0x80000,
   key ''ps'' ''KEY_POWER'' 116 0x43 0x10000,
   key ''select'' ''KEY_SELECT'' 353 0x50 0x1,
   key ''l3'' ''BTN_C'' 306 0x51 0x2,
   key ''r3'' ''BTN_Z'' 309 0x52 0x4,
   key ''start'' ''BTN_START'' 315 0x53 0x8,
   key ''up'' ''KEY_UP'' 103 0x54 0x10,
   key ''right'' ''KEY_RIGHT'' 106 0x55 0x20,
   key ''down'' ''KEY_DOWN'' 108 0x56 0x40,
   key ''left'' ''KEY_LEFT'' 105 0x57 0x80,
   key ''l2'' ''BTN_B'' 305 0x58 0x100,
   key ''r2'' ''BTN_Y'' 308 0x59 0x200,
   key ''l1'' ''BTN_A'' 304 0x5a 0x400,
   key ''r1'' ''BTN_X'' 307 0x5b 0x800,
   key ''triangle'' ''KEY_OPTION'' 357 0x5c 0x1000,
   key ''circle'' ''KEY_BACK'' 158 0x5d 0x2000,
   key ''cross'' ''KEY_CLEAR'' 355 0x5e 0x4000,
   key ''square'' ''KEY_ZOOM'' 372 0x5f 0x8000,
   key ''num1'' ''KEY_1'' 2 0x0 0x0,
   key ''num2'' ''KEY_2'' 3 0x1 0x0,
   key ''num3'' ''KEY_3'' 4 0x2 0x0,
   key ''num4'' ''KEY_4'' 5 0x3 0x0,
   key ''num5'' ''KEY_5'' 6 0x4 0x0,
   key ''num6'' ''KEY_6'' 7 0x5 0x0,
   key ''num7'' ''KEY_7'' 8 0x6 0x0,
   key ''num8'' ''KEY_8'' 9 0x7 0x0,
   key ''num9'' ''KEY_9'' 10 0x8 0x0,
   key ''num0'' ''KEY_0'' 11 0x9 0x0,
   key ''return'' ''KEY_MEDIA_REPEAT'' 439 0xe 0x0,
   key ''clear'' ''KEY_CLEAR'' 355 0xf 0x0,
   key ''eject'' ''KEY_EJECTCD'' 161 0x16 0x0,
   key ''topmenu'' ''KEY_MENU'' 139 0x1a 0x0,
   key ''time'' ''KEY_TIME'' 359 0x28 0x0,
   key ''prev'' ''KEY_PREVIOUS'' 412 0x30 0x0,
   key ''next'' ''KEY_NEXT'' 407 0x31 0x0,
   key ''play'' ''KEY_PLAY'' 207 0x32 0x0,
   key ''scanrev'' ''KEY_REWIND'' 168 0x33 0x0,
   key ''scanfwd'' ''KEY_FORWARD'' 159 0x34 0x0,
   key ''stop'' ''KEY_STOP'' 128 0x38 0x0,
   key ''pause'' ''KEY_PAUSE'' 119 0x39 0x0,
   key ''popup'' ''KEY_CONTEXT_MENU'' 438 0x40 0x0,
   key ''steprev'' ''KEY_FRAMEBACK'' 436 0x60 0x0,
   key ''stepfwd'' ''KEY_FRAMEFORWARD'' 437 0x61 0x0,
   key ''subtitle'' ''KEY_SUBTITLE'' 370 0x63 0x0,
   key ''audio'' ''KEY_AUDIO'' 392 0x64 0x0,
   key ''angle'' ''KEY_ANGLE'' 371 0x65 0x0,
   key ''display'' ''KEY_INFO'' 358 0x70 0x0,
   key ''blue'' ''KEY_BLUE'' 401 0x80 0x0,
   key ''red'' ''KEY_RED'' 398 0x81 0x0,
   key ''green'' ''KEY_GREEN'' 399 0x82 0x0,
   key ''yellow'' ''KEY_YELLOW'' 400 0x83 0x0]"

text \<open>\<open>ps3remote_keys[i]\<close>.\<close>

definition key_at :: "int \<Rightarrow> stop + key_info" where
  "key_at i =
     (if 0 \<le> i \<and> i < int (length ps3remote_keys) then Inr (ps3remote_keys ! nat i)
      else Inl Out_of_bounds)"

text \<open>The loop of \<open>codeToIndex\<close>, from index \<open>i\<close>.\<close>

function codeToIndex_loop :: "u32 \<Rightarrow> nat \<Rightarrow> int" where
  "codeToIndex_loop c i =
     (if i < ps3remote_num_keys
      then if c = code (ps3remote_keys ! i) then int i else codeToIndex_loop c (i + 1)
      else ps3remote_undef)"
  by pat_completeness auto
termination
  by (relation "measure (\<lambda>(c, i). ps3remote_num_keys - i)") auto

declare codeToIndex_loop.simps [simp del]

definition codeToIndex :: "u32 \<Rightarrow> int" where
  "codeToIndex c = codeToIndex_loop c 0"

section \<open>The table\<close>

lemma length_keys [simp]: "length ps3remote_keys = ps3remote_num_keys"
  by (simp add: ps3remote_keys_def ps3remote_num_keys_def)

lemma distinct_codes: "distinct (map code ps3remote_keys)"
  by (simp add: ps3remote_keys_def key_def)

lemma codes_inj:
  "i < ps3remote_num_keys \<Longrightarrow> j < ps3remote_num_keys \<Longrightarrow>
     code (ps3remote_keys ! i) = code (ps3remote_keys ! j) \<longleftrightarrow> i = j"
  using nth_eq_iff_index_eq [OF distinct_codes, of i j] by simp

lemma key_names:
  "\<forall>k \<in> set ps3remote_keys.
     length (name_orig k) \<le> 8 \<and> length (name_lirc k) \<le> 16 \<and>
     code k \<noteq> ps3remote_keyup \<and> code k < 0x100 \<and> 0 < event_code k \<and> event_code k < 0x200"
  by (simp add: ps3remote_keys_def key_def ps3remote_keyup_def)

lemma key_at_Inr [lib_simps]:
  "0 \<le> i \<Longrightarrow> i < int ps3remote_num_keys \<Longrightarrow> key_at i = Inr (ps3remote_keys ! nat i)"
  by (simp add: key_at_def)

lemma key_at_undef [lib_simps]: "key_at ps3remote_undef = Inl Out_of_bounds"
  by (simp add: key_at_def ps3remote_undef_def)

section \<open>The lookup\<close>

lemma codeToIndex_loop_found:
  assumes "i \<le> j" and "j < ps3remote_num_keys" and "code (ps3remote_keys ! j) = c"
  shows "codeToIndex_loop c i = int j"
  using assms
proof (induction c i rule: codeToIndex_loop.induct)
  case (1 c i)
  show ?case
  proof (cases "c = code (ps3remote_keys ! i)")
    case True
    with "1.prems"(3) have "code (ps3remote_keys ! i) = code (ps3remote_keys ! j)" by simp
    then have "i = j"
      using codes_inj [of i j] le_less_trans [OF "1.prems"(1,2)] "1.prems"(2) by blast
    with True "1.prems"(2) show ?thesis by (subst codeToIndex_loop.simps) simp
  next
    case False
    with "1.prems" have "i + 1 \<le> j" by (metis Suc_eq_plus1 le_neq_implies_less Suc_leI)
    with False "1.prems" "1.IH" show ?thesis by (simp add: codeToIndex_loop.simps [of c i])
  qed
qed

lemma codeToIndex_loop_undef:
  assumes "\<forall>j. i \<le> j \<and> j < ps3remote_num_keys \<longrightarrow> code (ps3remote_keys ! j) \<noteq> c"
  shows "codeToIndex_loop c i = ps3remote_undef"
  using assms
proof (induction c i rule: codeToIndex_loop.induct)
  case (1 c i)
  then show ?case by (subst codeToIndex_loop.simps) auto
qed

lemma codeToIndex_known:
  "i < ps3remote_num_keys \<Longrightarrow> codeToIndex (code (ps3remote_keys ! i)) = int i"
  by (simp add: codeToIndex_def codeToIndex_loop_found)

lemma codeToIndex_unknown:
  "c \<notin> code ` set ps3remote_keys \<Longrightarrow> codeToIndex c = ps3remote_undef"
  unfolding codeToIndex_def
  by (rule codeToIndex_loop_undef) (metis image_eqI length_keys nth_mem)

lemma codeToIndex_cases:
  obtains (known) i where "i < ps3remote_num_keys" "codeToIndex c = int i"
      "code (ps3remote_keys ! i) = c"
  | (unknown) "c \<notin> code ` set ps3remote_keys" "codeToIndex c = ps3remote_undef"
proof (cases "c \<in> code ` set ps3remote_keys")
  case True
  then obtain i where "i < ps3remote_num_keys" "code (ps3remote_keys ! i) = c"
    by (auto simp: in_set_conv_nth)
  with codeToIndex_known known show ?thesis by metis
next
  case False
  with codeToIndex_unknown unknown show ?thesis by blast
qed

lemma keyup_unknown: "codeToIndex ps3remote_keyup = ps3remote_undef"
  using key_names by (intro codeToIndex_unknown) force

text \<open>
  C33: \<open>codeToIndex\<close> inverts the key table. It returns the index of the one entry with the given
  code, and \<open>ps3remote_undef\<close> exactly when no entry has it; the release code \<open>0xFF\<close> is not
  the code of a key.
\<close>

theorem codeToIndex_correct:
  "codeToIndex c =
     (case filter (\<lambda>i. code (ps3remote_keys ! i) = c) [0..<length ps3remote_keys] of
        [] \<Rightarrow> ps3remote_undef | [i] \<Rightarrow> int i | _ \<Rightarrow> -2) \<and>
   codeToIndex ps3remote_keyup = ps3remote_undef"
proof (cases c rule: codeToIndex_cases)
  case (known i)
  have "filter (\<lambda>j. code (ps3remote_keys ! j) = c) [0..<ps3remote_num_keys] =
      filter (\<lambda>j. j = i) [0..<ps3remote_num_keys]"
    using known codes_inj by (intro filter_cong) auto
  also have "\<dots> = [i]"
    using known(1) by (rule filter_single_upt)
  finally show ?thesis using known keyup_unknown by simp
next
  case unknown
  have "filter (\<lambda>j. code (ps3remote_keys ! j) = c) [0..<ps3remote_num_keys] = []"
    using unknown by (auto simp: filter_empty_conv)
  with unknown keyup_unknown show ?thesis by simp
qed

end
