(* ===== verification/Event_Out.thy ===== *)
theory Event_Out
  imports Keydef
begin

text \<open>
  Key events through the Linux input device: \<^verbatim>\<open>src/event_out.c\<close>. Its state is the
  descriptor \<open>event_out_fd\<close>, -1 when there is no device.
\<close>

definition EV_KEY :: int where
  "EV_KEY = 1"

text \<open>\<open>sizeof (struct uinput_user_dev)\<close> and \<open>sizeof (struct input_event)\<close>.\<close>

definition SIZEOF_UINPUT_DEV :: int where
  "SIZEOF_UINPUT_DEV = 1116"

text \<open>The code goes into a 16 bit member; whether the write succeeds is ignored.\<close>

definition event_out_send :: "os \<Rightarrow> int \<Rightarrow> u32 \<Rightarrow> int \<Rightarrow> unit io" where
  "event_out_send os event_out_fd c v =
     (if event_out_fd \<noteq> -1
      then seqio (sys os (Write_event event_out_fd EV_KEY (uint (ucast c :: u16)) v)) (retio ())
      else retio ())"

definition event_out_destroy :: "os \<Rightarrow> int \<Rightarrow> int io" where
  "event_out_destroy os event_out_fd =
     (if event_out_fd \<noteq> -1
      then seqio (sys os (Dev (Ioctl_dev_destroy event_out_fd)))
           (seqio (sys os (Close event_out_fd)) (retio (-1)))
      else retio event_out_fd)"

definition uinput_devname :: "string list" where
  "uinput_devname = [''/dev/uinput'', ''/dev/input/uinput'', ''/dev/misc/uinput'']"

text \<open>The loop over the device names: the first that opens.\<close>

fun open_first :: "os \<Rightarrow> string list \<Rightarrow> int io" where
  "open_first os [] = retio (-1)"
| "open_first os (d # ds) =
     bindio (sys os (Open_dev d)) (\<lambda>fd. if fd = -1 then open_first os ds else retio fd)"

text \<open>The loop over the key table; false when an \<open>ioctl\<close> fails.\<close>

fun set_keybits :: "os \<Rightarrow> int \<Rightarrow> key_info list \<Rightarrow> bool io" where
  "set_keybits os fd [] = retio True"
| "set_keybits os fd (k # ks) =
     bindio (sys os (Dev (Ioctl_set_keybit fd (uint (event_code k))))) (\<lambda>r.
     if r \<noteq> 0 then retio False else set_keybits os fd ks)"

definition close_device :: "os \<Rightarrow> int \<Rightarrow> int io" where
  "close_device os fd = seqio (sys os (Close fd)) (retio (-1))"

definition event_out_init :: "os \<Rightarrow> int io" where
  "event_out_init os =
     bindio (open_first os uinput_devname) (\<lambda>fd.
     if fd = -1 then retio fd
     else bindio (sys os (Dev (Write_uinput_dev fd ''bdremoteng''))) (\<lambda>r.
       if r \<noteq> SIZEOF_UINPUT_DEV then close_device os fd
       else bindio (sys os (Dev (Ioctl_set_evbit fd EV_KEY))) (\<lambda>r.
         if r \<noteq> 0 then close_device os fd
         else bindio (set_keybits os fd ps3remote_keys) (\<lambda>ok.
           if \<not> ok then close_device os fd
           else bindio (sys os (Dev (Ioctl_dev_create fd))) (\<lambda>r.
             if r \<noteq> 0 then close_device os fd else retio fd)))))"

section \<open>Properties\<close>

text \<open>The input devices a history opened and has not closed.\<close>

fun open_devices :: "hist \<Rightarrow> int list" where
  "open_devices [] = []"
| "open_devices ((Open_dev d, fd) # h) = (if fd = -1 then open_devices h else fd # open_devices h)"
| "open_devices ((Close fd, r) # h) = remove1 fd (open_devices h)"
| "open_devices (e # h) = open_devices h"

text \<open>The key codes a history enabled on a device.\<close>

fun enabled_keys :: "int \<Rightarrow> hist \<Rightarrow> int list" where
  "enabled_keys fd [] = []"
| "enabled_keys fd ((Dev (Ioctl_set_keybit fd' c), r) # h) =
     enabled_keys fd h @ (if fd' = fd \<and> r = 0 then [c] else [])"
| "enabled_keys fd (e # h) = enabled_keys fd h"

lemma wp_close_device [wp_simps]:
  "wp (close_device os fd) P E h = P (-1) ((Close fd, ret os h (Close fd)) # h)"
  by (simp add: close_device_def wp_simps)

lemma wp_open_first:
  "wp (open_first os ds)
     (\<lambda>fd h'. open_devices h' = (if fd = -1 then [] else [fd]) @ open_devices h \<and>
        (\<forall>f. enabled_keys f h' = enabled_keys f h))
     (\<lambda>_. False) h"
proof (induction ds arbitrary: h)
  case Nil
  then show ?case by (simp add: wp_simps)
next
  case (Cons d ds)
  then show ?case
    by (auto simp: wp_simps intro: wp_mono [OF Cons.IH])
qed

lemma wp_set_keybits:
  "wp (set_keybits os fd ks)
     (\<lambda>ok h'. open_devices h' = open_devices h \<and>
        (ok \<longrightarrow> enabled_keys fd h' = enabled_keys fd h @ map (\<lambda>k. uint (event_code k)) ks))
     (\<lambda>_. False) h"
proof (induction ks arbitrary: h)
  case Nil
  then show ?case by (simp add: wp_simps)
next
  case (Cons k ks)
  then show ?case
    by (auto simp: wp_simps intro: wp_mono [OF Cons.IH])
qed

lemma event_out_init_ok:
  "wp (event_out_init os)
     (\<lambda>fd h'. open_devices h' = (if fd = -1 then [] else [fd]) @ open_devices h \<and>
        (fd = -1 \<or> hd h' = (Dev (Ioctl_dev_create fd), 0) \<and>
           enabled_keys fd h' = enabled_keys fd h @ map (\<lambda>k. uint (event_code k)) ps3remote_keys) \<and>
        wp (event_out_destroy os fd) (\<lambda>fd' h''. fd' = -1 \<and> open_devices h'' = open_devices h)
          (\<lambda>_. False) h')
     (\<lambda>_. False) h"
proof -
  have destroy: "wp (event_out_destroy os fd) P E h =
      (if fd = -1 then P (-1) h
       else let h1 = (Dev (Ioctl_dev_destroy fd), ret os h (Dev (Ioctl_dev_destroy fd))) # h
            in P (-1) ((Close fd, ret os h1 (Close fd)) # h1))" for fd P E h
    by (simp add: event_out_destroy_def wp_simps Let_def)
  show ?thesis
    unfolding event_out_init_def wp_bindio
  proof (rule wp_mono [OF wp_open_first], goal_cases)
    case (1 fd h1)
    show ?case
      using 1 by (auto simp: wp_simps destroy Let_def intro!: wp_mono [OF wp_set_keybits])
  qed
qed

text \<open>
  C34: \<open>event_out_init\<close> leaves a device with every key of the remote, or nothing. When it returns
  a descriptor, that device is open, the key code of every entry of the key table was enabled on
  it, in order, and creating the device was the last call; when it fails, whatever it opened is
  closed again. \<open>event_out_destroy\<close> closes the device.
\<close>

theorem event_out_init_spec:
  "wp (event_out_init os)
     (\<lambda>fd h'. open_devices h' = (if fd = -1 then [] else [fd]) @ open_devices h \<and>
        (fd = -1 \<or> hd h' = (Dev (Ioctl_dev_create fd), 0) \<and>
           enabled_keys fd h' = enabled_keys fd h @ map (\<lambda>k. uint (event_code k)) ps3remote_keys) \<and>
        wp (event_out_destroy os fd) (\<lambda>fd' h''. fd' = -1 \<and> open_devices h'' = open_devices h)
          (\<lambda>_. False) h')
     (\<lambda>_. False) h"
  by (rule event_out_init_ok)

end
