(* ===== verification/Lirc_Thr.thy ===== *)
theory Lirc_Thr
  imports Lirc_Srv Event_Out
begin

text \<open>
  The LIRC thread of \<^verbatim>\<open>src/lirc_thr.c\<close>: it takes packets of the remote off the queue, turns
  them into key presses and releases, repeats a key that is held down, and broadcasts one line per
  event to the clients. The build options are \<open>ENABLE_REPEAT\<close>, an argument of the definitions, and
  \<open>BDREMOTE_DEBUG\<close>, which is on.
\<close>

section \<open>The other thread\<close>

text \<open>
  The thread of \<open>lirc_server\<close> works on the same table of clients under \<open>dataMutex\<close>: it adds
  a client the way \<open>add_client\<close> does, and empties the table when the program terminates. The LIRC
  thread sees what it did when it reads the table next.
\<close>

fun server_did :: "server_act \<Rightarrow> lirc_data \<Rightarrow> lirc_data" where
  "server_did (Joined fd) ld =
     (if fd < FD_SETSIZE \<and> clin ld < MAX_CLIENTS
      then ld\<lparr>clis := (clis ld)[clin ld := fd], clin := clin ld + 1\<rparr> else ld)"
| "server_did Cleared ld = ld\<lparr>clin := 0\<rparr>"

definition server_ran :: "server_act list \<Rightarrow> lirc_data \<Rightarrow> lirc_data" where
  "server_ran acts ld = fold server_did acts ld"

definition look :: "os \<Rightarrow> lirc_data \<Rightarrow> lirc_data io" where
  "look os ld = bindio (asksio (server_acts os)) (\<lambda>acts. retio (server_ran acts ld))"

section \<open>Broadcasting\<close>

text \<open>
  Removing a client found in the table shortens it. The broadcast loop ends because of this: \<open>i\<close>
  stays where it is when the client at \<open>i\<close> is removed.
\<close>

lemma remove_client_loop_clin:
  "remove_client_loop os fd ld i h = Inr (ld', h') \<Longrightarrow>
     clin ld' \<le> clin ld \<and> (i \<le> j \<and> j < clin ld \<and> clis ld ! j = fd \<longrightarrow> clin ld' < clin ld)"
proof (induction os fd ld i rule: remove_client_loop.induct)
  case (1 os fd ld i)
  show ?case
  proof (cases "i < clin ld \<and> i < length (clis ld)")
    case True
    show ?thesis
    proof (cases "clis ld ! i = fd")
      case True
      with \<open>i < clin ld \<and> _\<close> "1.prems" show ?thesis
        by (subst (asm) (1) remove_client_loop.simps)
           (auto simp: seqio_def bindio_def liftio_def retio_def sys_def Let_def split: sum.splits)
    next
      case False
      with True "1.prems" have "remove_client_loop os fd ld (i + 1) h = Inr (ld', h')"
        by (subst (asm) (1) remove_client_loop.simps) simp
      with "1.IH" True False show ?thesis
        by (metis Suc_eq_plus1 Suc_leI le_neq_implies_less not_le)
    qed
  next
    case False
    with "1.prems" show ?thesis
      by (subst (asm) (1) remove_client_loop.simps)
         (auto simp: stopio_def retio_def split: if_splits)
  qed
qed

lemma remove_client_clin:
  "remove_client os ld (clis ld ! i) h = Inr (ld', h') \<Longrightarrow> i < clin ld \<Longrightarrow> clin ld' < clin ld"
  unfolding remove_client_def using remove_client_loop_clin [of os "clis ld ! i" ld 0 h ld' h' i]
  by simp

function broadcast_loop :: "os \<Rightarrow> string \<Rightarrow> lirc_data \<Rightarrow> nat \<Rightarrow> lirc_data io" where
  "broadcast_loop os msg ld i h =
     (if i < clin ld
      then if i \<ge> length (clis ld) then stopio Out_of_bounds h
        else case write_socket os (clis ld ! i) msg h of
          Inl e \<Rightarrow> Inl e
        | Inr (n, h1) \<Rightarrow>
            if n < int (length msg)
            then case remove_client os ld (clis ld ! i) h1 of
                Inl e \<Rightarrow> Inl e
              | Inr (ld', h2) \<Rightarrow> broadcast_loop os msg ld' i h2
            else broadcast_loop os msg ld (i + 1) h1
      else retio ld h)"
  by pat_completeness auto
termination
  by (relation "measure (\<lambda>(os, msg, ld, i, h). clin ld - i)")
     (auto dest: remove_client_clin)

declare broadcast_loop.simps [simp del]

text \<open>The line sent for an event: code, repeat count, name of the key, name of the remote.\<close>

definition lirc_line :: "u32 \<Rightarrow> int \<Rightarrow> string \<Rightarrow> string" where
  "lirc_line c rep name = fmt_hex 4 c @ '' '' @ fmt_dec 2 rep @ '' '' @ name @ '' SonyBDRemote'' @ nl"

text \<open>
  \<open>sprintf\<close> writes into an array of 100 bytes. The number of clients is read for the assertion
  before the mutex is taken.
\<close>

definition broadcastToLirc :: "os \<Rightarrow> lirc_data \<Rightarrow> string \<Rightarrow> int \<Rightarrow> u32 \<Rightarrow> lirc_data io" where
  "broadcastToLirc os ld name rep c =
     (let msg = lirc_line c rep name in
      seqio (guardio (length msg + 1 \<le> 100) Out_of_bounds)
      (seqio (liftio (deref (config ld)))
      (seqio (assertio (magic0 ld = 0x15))
      (bindio (look os ld) (\<lambda>ld.
       seqio (assertio (clin ld < MAX_CLIENTS))
       (seqio (lock_data os)
       (bindio (look os ld) (\<lambda>ld.
        bindio (broadcast_loop os msg ld 0) (\<lambda>ld.
        seqio (unlock_data os) (retio ld))))))))))"

section \<open>Key presses and releases\<close>

definition key_name :: "configuration \<Rightarrow> int \<Rightarrow> stop + string" where
  "key_name cfg i =
     (case key_at i of Inl e \<Rightarrow> Inl e
      | Inr k \<Rightarrow> Inr (if lirc_namespace cfg \<noteq> 0 then name_lirc k else name_orig k))"

text \<open>\<open>event_out_fd\<close> is the descriptor of the input device, -1 when there is none.\<close>

definition send_event :: "os \<Rightarrow> int \<Rightarrow> configuration \<Rightarrow> int \<Rightarrow> int \<Rightarrow> unit io" where
  "send_event os event_out_fd cfg i v =
     (if event_out cfg \<noteq> 0
      then bindio (liftio (key_at i)) (\<lambda>k. event_out_send os event_out_fd (event_code k) v)
      else retio ())"

definition DataInd_keyDown ::
  "os \<Rightarrow> int \<Rightarrow> lirc_data \<Rightarrow> u32 \<Rightarrow> keyState \<Rightarrow> (lirc_data \<times> keyState) io" where
  "DataInd_keyDown os event_out_fd ld c ks =
     bindio (liftio (deref (config ld))) (\<lambda>cfg.
     let (num, ks) =
       (if c \<noteq> ps3remote_keyup
        then (codeToIndex c, ks\<lparr>keyDown := 1, lastKey := codeToIndex c, repeat_count := 0\<rparr>)
        else (ps3remote_undef, ks)) in
     if num \<noteq> ps3remote_undef
     then bindio (liftio (key_name cfg num)) (\<lambda>name.
          bindio (liftio (key_at num)) (\<lambda>k.
          bindio (broadcastToLirc os ld name 0 (code k)) (\<lambda>ld.
          seqio (send_event os event_out_fd cfg num 1) (retio (ld, ks)))))
     else retio (ld, ks))"

definition DataInd_keyUp ::
  "os \<Rightarrow> int \<Rightarrow> lirc_data \<Rightarrow> u32 \<Rightarrow> keyState \<Rightarrow> (lirc_data \<times> keyState) io" where
  "DataInd_keyUp os event_out_fd ld c ks =
     bindio (liftio (deref (config ld))) (\<lambda>cfg.
     if c = ps3remote_keyup \<and> lastKey ks \<noteq> ps3remote_undef
     then bindio (liftio (key_name cfg (lastKey ks))) (\<lambda>name.
          bindio (case release cfg of
              None \<Rightarrow> retio ld
            | Some suffix \<Rightarrow>
                if length name + length suffix < 100
                then broadcastToLirc os ld (name @ suffix) 0 c
                else retio ld) (\<lambda>ld.
          seqio (send_event os event_out_fd cfg (lastKey ks) 0)
            (retio (ld, ks\<lparr>keyDown := 0, lastKey := ps3remote_undef, repeat_count := 0\<rparr>))))
     else retio (ld, ks))"

text \<open>
  A packet of the remote: 13 bytes, \<open>0xa1\<close> first, the code at 5, the state at 11. The mask is
  only printed.
\<close>

definition handleKey ::
  "os \<Rightarrow> int \<Rightarrow> lirc_data \<Rightarrow> byte list \<Rightarrow> int \<Rightarrow> keyState \<Rightarrow> (lirc_data \<times> keyState) io" where
  "handleKey os event_out_fd ld dat len ks =
     seqio (assertio (magic0 ld = 0x15))
     (if len = 13
      then seqio (guardio (13 \<le> length dat) Out_of_bounds)
        (if dat ! 0 = 0xa1
         then if dat ! 11 = 1 then DataInd_keyDown os event_out_fd ld (ucast (dat ! 5)) ks
           else if dat ! 11 = 0 then DataInd_keyUp os event_out_fd ld (ucast (dat ! 5)) ks
           else retio (ld, ks)
         else retio (ld, ks))
      else retio (ld, ks))"

section \<open>The thread\<close>

definition blockInMs :: int where
  "blockInMs = 10"

text \<open>\<open>sendAfterMs\<close> and \<open>rate_delay\<close>, both \<open>unsigned long\<close>.\<close>

definition send_after_ms :: "configuration \<Rightarrow> u64" where
  "send_after_ms cfg = (if repeat_rate cfg > 0 then word_of_int (1000 div repeat_rate cfg) else 100)"

definition rate_delay :: "configuration \<Rightarrow> u64" where
  "rate_delay cfg = (if repeat_delay cfg > 0 then word_of_int (repeat_delay cfg) else 100)"

definition reset_repeat :: "os \<Rightarrow> keyState \<Rightarrow> keyState io" where
  "reset_repeat os ks =
     bindio (initTime os ks) (\<lambda>ks. retio (ks\<lparr>repeat_count := 0, done_waiting := 0\<rparr>))"

text \<open>The bluetooth thread puts messages on the queue while this thread does not hold its mutex.\<close>

definition hear :: "os \<Rightarrow> lirc_data \<Rightarrow> lirc_data io" where
  "hear os ld = bindio (asksio (arrivals os)) (\<lambda>ms. retio (ld\<lparr>qu := producer_ran ms (qu ld)\<rparr>))"

text \<open>What the thread does with a message: the key, and the stop watch starts again.\<close>

definition lirc_handle ::
  "os \<Rightarrow> bool \<Rightarrow> int \<Rightarrow> lirc_data \<Rightarrow> queueData \<Rightarrow> keyState \<Rightarrow> (lirc_data \<times> keyState) io" where
  "lirc_handle os enable_repeat event_out_fd ld qd ks =
     seqio (assertio (buffer qd \<noteq> None))
     (bindio (handleKey os event_out_fd ld (the (buffer qd)) (size_of qd) ks) (\<lambda>(ld, ks).
      seqio (liftio (queueDataDeInit qd))
      (if enable_repeat
       then bindio (reset_repeat os ks) (\<lambda>ks. retio (ld, ks))
       else retio (ld, ks))))"

text \<open>The message part of one pass of the thread.\<close>

definition lirc_receive ::
  "os \<Rightarrow> nat \<Rightarrow> bool \<Rightarrow> int \<Rightarrow> lirc_data \<Rightarrow> keyState \<Rightarrow> (lirc_data \<times> keyState) io" where
  "lirc_receive os fuel enable_repeat event_out_fd ld ks =
     bindio (hear os ld) (\<lambda>ld.
     bindio (queueRemNonBlock os fuel (qu ld) blockInMs None) (\<lambda>(res, qd, q).
     let ld = ld\<lparr>qu := q\<rparr> in
     if res = Q_OK
     then bindio (liftio (deref qd)) (\<lambda>qd. lirc_handle os enable_repeat event_out_fd ld qd ks)
     else retio (ld, ks)))"

text \<open>The repeat part of one pass.\<close>

definition lirc_repeat ::
  "os \<Rightarrow> int \<Rightarrow> lirc_data \<Rightarrow> keyState \<Rightarrow> (lirc_data \<times> keyState) io" where
  "lirc_repeat os event_out_fd ld ks =
     bindio (liftio (deref (config ld))) (\<lambda>cfg.
     bindio (updateTime os ks) (\<lambda>ks.
     if done_waiting ks = 0
     then retio (ld, if elapsed ks \<ge> rate_delay cfg then ks\<lparr>done_waiting := 1, elapsed := 0\<rparr> else ks)
     else if elapsed ks \<ge> send_after_ms cfg
     then bindio (liftio (key_name cfg (lastKey ks))) (\<lambda>name.
          bindio (liftio (key_at (lastKey ks))) (\<lambda>k.
          bindio (broadcastToLirc os ld name (repeat_count ks) (code k)) (\<lambda>ld.
          seqio (send_event os event_out_fd cfg (lastKey ks) 2)
          (seqio (guardio (c_int (repeat_count ks + 1)) Int_overflow)
            (retio (ld, ks\<lparr>elapsed := 0, repeat_count := repeat_count ks + 1\<rparr>))))))
     else retio (ld, ks)))"

definition lirc_pass ::
  "os \<Rightarrow> nat \<Rightarrow> bool \<Rightarrow> int \<Rightarrow> lirc_data \<Rightarrow> keyState \<Rightarrow> (lirc_data \<times> keyState) io" where
  "lirc_pass os fuel enable_repeat event_out_fd ld ks =
     bindio (lirc_receive os fuel enable_repeat event_out_fd ld ks) (\<lambda>(ld, ks).
     if enable_repeat \<and> keyDown ks = 1 then lirc_repeat os event_out_fd ld ks else retio (ld, ks))"

text \<open>The loop; the thread returns the data it shares, which the other threads then see.\<close>

fun lirc_loop ::
  "os \<Rightarrow> nat \<Rightarrow> nat \<Rightarrow> bool \<Rightarrow> int \<Rightarrow> lirc_data \<Rightarrow> keyState \<Rightarrow> (lirc_data \<times> keyState) io" where
  "lirc_loop os fuel 0 enable_repeat event_out_fd ld ks = stopio Out_of_fuel"
| "lirc_loop os fuel (Suc k) enable_repeat event_out_fd ld ks =
     bindio (sys os Get_canceled) (\<lambda>canceled.
     if canceled \<noteq> 0 then retio (ld, ks)
     else bindio (lirc_pass os fuel enable_repeat event_out_fd ld ks) (\<lambda>(ld, ks).
       lirc_loop os fuel k enable_repeat event_out_fd ld ks))"

text \<open>\<open>ks\<close> is a local variable: \<open>ks0\<close> is what its memory held.\<close>

definition lircThread ::
  "os \<Rightarrow> nat \<Rightarrow> nat \<Rightarrow> bool \<Rightarrow> int \<Rightarrow> keyState \<Rightarrow> lirc_data \<Rightarrow> (lirc_data \<times> keyState) io" where
  "lircThread os fuel k enable_repeat event_out_fd ks0 ld =
     seqio (liftio (deref (config ld)))
     (let ks = ks0\<lparr>keyDown := 0, lastKey := ps3remote_undef\<rparr> in
      bindio (if enable_repeat then reset_repeat os ks else retio ks) (\<lambda>ks.
      lirc_loop os fuel k enable_repeat event_out_fd ld ks))"

section \<open>The table while the thread works on it\<close>

lemma server_did_wf: "ld_wf ld \<Longrightarrow> ld_wf (server_did a ld)"
  by (cases a) (auto simp: ld_wf_def)

lemma server_did_frame:
  "server_did a ld = ld\<lparr>clis := clis (server_did a ld), clin := clin (server_did a ld)\<rparr>"
  by (cases a) auto

lemma server_ran_wf: "ld_wf ld \<Longrightarrow> ld_wf (server_ran acts ld)"
  unfolding server_ran_def by (induction acts arbitrary: ld) (auto simp: server_did_wf)

lemma server_ran_frame:
  "server_ran acts ld = ld\<lparr>clis := clis (server_ran acts ld), clin := clin (server_ran acts ld)\<rparr>"
  unfolding server_ran_def
proof (induction acts arbitrary: ld)
  case Nil
  then show ?case by simp
next
  case (Cons a acts)
  have "fold server_did acts (server_did a ld) = (server_did a ld)\<lparr>
      clis := clis (fold server_did acts (server_did a ld)), clin := clin (fold server_did acts (server_did a ld))\<rparr>"
    by (rule Cons.IH)
  also have "\<dots> = ld\<lparr>clis := clis (fold server_did acts (server_did a ld)),
      clin := clin (fold server_did acts (server_did a ld))\<rparr>"
    by (subst server_did_frame) simp
  finally show ?case by simp
qed

lemma server_ran_simps [simp]:
  "config (server_ran acts ld) = config ld" "magic0 (server_ran acts ld) = magic0 ld"
  "qu (server_ran acts ld) = qu ld" "sockinet (server_ran acts ld) = sockinet ld"
  by (subst server_ran_frame, simp)+

lemma server_ran_Nil [simp]: "server_ran [] ld = ld"
  by (simp add: server_ran_def)

text \<open>
  Room in the table: fewer than \<open>MAX_CLIENTS\<close> clients, and nobody joins. The assertion of
  \<open>broadcastToLirc\<close> holds as long as there is.
\<close>

definition roomy :: "os \<Rightarrow> lirc_data \<Rightarrow> bool" where
  "roomy os ld \<longleftrightarrow> clin ld < MAX_CLIENTS \<and> (\<forall>h. set (server_acts os h) \<subseteq> {Cleared})"

lemma roomy_queue [simp]: "roomy os (ld\<lparr>qu := q\<rparr>) = roomy os ld"
  by (simp add: roomy_def)

lemma roomy_mono: "roomy os ld \<Longrightarrow> clin ld' \<le> clin ld \<Longrightarrow> roomy os ld'"
  by (simp add: roomy_def)

lemma server_ran_clin: "set acts \<subseteq> {Cleared} \<Longrightarrow> clin (server_ran acts ld) \<le> clin ld"
proof (induction acts arbitrary: ld)
  case (Cons a acts)
  have "clin (server_ran acts (server_did a ld)) \<le> clin (server_did a ld)"
    by (rule Cons.IH) (use Cons.prems in auto)
  also have "\<dots> \<le> clin ld" using Cons.prems by simp
  finally show ?case by (simp add: server_ran_def)
qed (simp add: server_ran_def)

lemma roomy_ran: "roomy os ld \<Longrightarrow> roomy os (server_ran (server_acts os h) ld)"
  by (rule roomy_mono) (auto simp: roomy_def intro: server_ran_clin)

lemma wp_look [wp_simps]: "wp (look os ld) P E h = P (server_ran (server_acts os h) ld) h"
  by (simp add: look_def wp_simps)

text \<open>What the thread sees of \<open>add_client\<close> is what \<open>add_client\<close> does.\<close>

lemma add_client_joins:
  "ld_wf ld \<Longrightarrow> wp (add_client os ld)
     (\<lambda>ld' h'. ld' = server_did (Joined (ret os h (Accept (sockinet ld)))) ld) (\<lambda>_. False) h"
  by (auto simp: add_client_def wp_simps Let_def ld_wf_def)

section \<open>The broadcast\<close>

text \<open>Writing to the descriptor -1 fails.\<close>

definition posix_ebadf :: "os \<Rightarrow> bool" where
  "posix_ebadf os \<longleftrightarrow> (\<forall>h b. ret os h (Write (-1) b) = -1)"

text \<open>
  Descriptors that are open are distinct; the entries a failed \<open>accept\<close> left are all -1.
\<close>

definition table_ok :: "int list \<Rightarrow> bool" where
  "table_ok xs \<longleftrightarrow> distinct (filter (\<lambda>fd. fd \<noteq> -1) xs)"

lemma write_socket_cases:
  assumes "posix_write os" and "posix_ebadf os" and "msg \<noteq> []"
  obtains n h1 where "write_socket os fd msg h = Inr (n, h1)"
    and "n < int (length msg) \<Longrightarrow> \<exists>k < length msg. sent fd h1 = sent fd h @ take k msg"
    and "\<not> n < int (length msg) \<Longrightarrow> fd \<noteq> -1 \<and> sent fd h1 = sent fd h @ msg"
    and "\<And>fd'. fd' \<noteq> fd \<or> fd' = -1 \<Longrightarrow> sent fd' h1 = sent fd' h"
    and "\<And>m. lock_depth m h1 = lock_depth m h" and "set h \<subseteq> set h1"
proof (cases "fd = -1")
  case True
  have "write_socket os fd msg h = Inr (-1, (Write (-1) msg, -1) # h)"
    using assms(2,3) True
    by (simp add: write_socket_def write_socket_loop.simps [of os "-1"] Let_def retio_def posix_ebadf_def)
  then show ?thesis
    by (rule that) (use True assms(3) in \<open>auto intro: exI [of _ 0]\<close>)
next
  case False
  from write_socket_loop_spec [OF assms(1), of fd "int (length msg)" msg h]
  obtain n h1 where w: "write_socket os fd msg h = Inr (n, h1)"
    and d: "n = int (length msg) \<and> sent fd h1 = sent fd h @ msg \<or>
            n \<le> 0 \<and> (\<exists>k < length msg. sent fd h1 = sent fd h @ take k msg)"
    and o: "\<forall>fd'. fd' \<noteq> fd \<longrightarrow> sent fd' h1 = sent fd' h" "\<forall>m. lock_depth m h1 = lock_depth m h"
       "set h \<subseteq> set h1"
    by (auto simp: wp_run write_socket_def)
  show ?thesis
    by (rule that [OF w]) (use d o False assms(3) in auto)
qed

text \<open>
  The loop from index \<open>i\<close>: the clients before \<open>i\<close> have the message; of the others, those that
  take the whole message stay.
\<close>

lemma broadcast_loop_ok:
  assumes "posix_write os" and "posix_ebadf os" and "msg \<noteq> []"
    and "ld_wf ld" and "i \<le> clin ld" and "-1 \<notin> set (take i (clients ld))" and "table_ok (clients ld)"
  shows "wp (broadcast_loop os msg ld i)
     (\<lambda>ld' h'. ld_wf ld' \<and> ld' = ld\<lparr>clis := clis ld', clin := clin ld'\<rparr> \<and>
        clients ld' = take i (clients ld) @
          filter (\<lambda>fd. sent fd h' = sent fd h @ msg) (drop i (clients ld)) \<and>
        (\<forall>fd. fd \<notin> set (drop i (clients ld)) \<or> fd = -1 \<longrightarrow> sent fd h' = sent fd h) \<and>
        (\<forall>fd \<in> set (drop i (clients ld)). sent fd h' \<noteq> sent fd h @ msg \<longrightarrow>
           (\<exists>r. (Close fd, r) \<in> set h') \<and> (\<exists>k < length msg. sent fd h' = sent fd h @ take k msg)) \<and>
        (\<forall>m. lock_depth m h' = lock_depth m h) \<and> set h \<subseteq> set h')
     (\<lambda>_. False) h"
  using assms
proof (induction os msg ld i h rule: broadcast_loop.induct)
  case (1 os msg ld i h)
  note wf = "1.prems"(4)
  show ?case
  proof (cases "i < clin ld")
    case False
    then have "broadcast_loop os msg ld i h = Inr (ld, h)" and "drop i (clients ld) = []"
      and "take i (clients ld) = clients ld"
      using wf by (auto simp: broadcast_loop.simps retio_def)
    then show ?thesis using wf by (simp add: wp_def)
  next
    case True
    let ?fd = "clis ld ! i"
    define rest where "rest = drop (Suc i) (clients ld)"
    have len: "\<not> length (clis ld) \<le> i" using True wf by (simp add: ld_wf_def)
    have fd: "clients ld ! i = ?fd" using True by (simp add: clients_nth)
    have drop: "drop i (clients ld) = ?fd # rest"
      using True wf by (simp add: rest_def Cons_nth_drop_Suc flip: fd)
    have split: "clients ld = take i (clients ld) @ ?fd # rest"
      by (metis append_take_drop_id drop)
    have new: "?fd \<notin> set (take i (clients ld))" "?fd \<noteq> -1 \<longrightarrow> ?fd \<notin> set rest"
      using "1.prems"(6,7) by (subst (asm) (2) split, force simp: table_ok_def)+
    obtain n h1 where w: "write_socket os ?fd msg h = Inr (n, h1)"
      and part: "n < int (length msg) \<Longrightarrow> \<exists>k < length msg. sent ?fd h1 = sent ?fd h @ take k msg"
      and all: "\<not> n < int (length msg) \<Longrightarrow> ?fd \<noteq> -1 \<and> sent ?fd h1 = sent ?fd h @ msg"
      and other: "\<And>fd'. fd' \<noteq> ?fd \<or> fd' = -1 \<Longrightarrow> sent fd' h1 = sent fd' h"
      and depth: "\<And>m. lock_depth m h1 = lock_depth m h" and sub: "set h \<subseteq> set h1"
      using write_socket_cases [OF "1.prems"(1-3), of ?fd h] by metis
    show ?thesis
    proof (cases "n < int (length msg)")
      case fails: True
      have "?fd \<in> set (clients ld)" by (subst split) simp
      from remove_client_ok [OF wf this, of os h1] obtain ld1 h2 r1 r2
        where rm: "remove_client os ld ?fd h1 = Inr (ld1, h2)" and wf1: "ld_wf ld1"
          and c1: "clients ld1 = remove1 ?fd (clients ld)" and n1: "clin ld1 = clin ld - 1"
          and f1: "ld1 = ld\<lparr>clis := clis ld1, clin := clin ld1\<rparr>"
          and h2: "h2 = (Close ?fd, r2) # (Shutdown ?fd 2, r1) # h1"
        by (auto simp: wp_run)
      have c1': "clients ld1 = take i (clients ld) @ rest"
        using new by (subst c1, subst split) (simp add: remove1_append)
      have ti: "take i (clients ld1) = take i (clients ld)" and di: "drop i (clients ld1) = rest"
        using True wf by (simp_all add: c1')
      have tab: "table_ok (clients ld1)"
        using "1.prems"(7) unfolding c1' by (subst (asm) split) (auto simp: table_ok_def split: if_splits)
      have eq: "broadcast_loop os msg ld i h = broadcast_loop os msg ld1 i h2"
        using True len w fails rm by (subst broadcast_loop.simps) simp
      have s2: "sent fd h2 = sent fd h1" for fd by (simp add: h2)
      have IH: "wp (broadcast_loop os msg ld1 i)
         (\<lambda>ld' h'. ld_wf ld' \<and> ld' = ld1\<lparr>clis := clis ld', clin := clin ld'\<rparr> \<and>
            clients ld' = take i (clients ld) @ filter (\<lambda>fd. sent fd h' = sent fd h2 @ msg) rest \<and>
            (\<forall>fd. fd \<notin> set rest \<or> fd = -1 \<longrightarrow> sent fd h' = sent fd h2) \<and>
            (\<forall>fd \<in> set rest. sent fd h' \<noteq> sent fd h2 @ msg \<longrightarrow>
               (\<exists>r. (Close fd, r) \<in> set h') \<and> (\<exists>k < length msg. sent fd h' = sent fd h2 @ take k msg)) \<and>
            (\<forall>m. lock_depth m h' = lock_depth m h2) \<and> set h2 \<subseteq> set h')
         (\<lambda>_. False) h2"
        using "1.IH"(1) [OF True len w refl fails rm refl "1.prems"(1-3) wf1] True n1 ti di tab "1.prems"(6)
        by simp
      have fr: "ld' = ld1\<lparr>clis := clis ld', clin := clin ld'\<rparr> \<Longrightarrow>
          ld' = ld\<lparr>clis := clis ld', clin := clin ld'\<rparr>" for ld'
        by (subst (asm) f1) simp
      have same: "sent fd h2 = sent fd h" if "fd \<in> set rest" for fd
        using that new other [of fd] s2 by metis
      obtain k0 where k0: "k0 < length msg" "sent ?fd h2 = sent ?fd h @ take k0 msg"
        using part [OF fails] s2 by auto
      have short: "take k0 msg \<noteq> msg" using k0(1) by (metis length_take min.absorb4 nat_neq_iff)
      show ?thesis
        unfolding drop
      proof (subst wp_def, subst eq, subst wp_def [symmetric], rule wp_mono [OF IH], goal_cases)
        case (1 ld' h')
        have notme: "sent ?fd h' = sent ?fd h @ take k0 msg"
          using 1 new(2) k0 by metis
        have "filter (\<lambda>fd. sent fd h' = sent fd h2 @ msg) rest = filter (\<lambda>fd. sent fd h' = sent fd h @ msg) rest"
          using same by (intro filter_cong) auto
        moreover have "(Close ?fd, r2) \<in> set h'" using 1 h2 by auto
        moreover have "sent fd h' = sent fd h" if "fd \<notin> set (?fd # rest) \<or> fd = -1" for fd
          using 1 that s2 other by (metis list.set_intros(1,2))
        moreover have "set h \<subseteq> set h'" using 1 sub h2 by auto
        ultimately show ?case
          using 1 fr [of ld'] notme k0(1) short same depth h2 by auto
      qed auto
    next
      case ok: False
      have tk: "take (i + 1) (clients ld) = take i (clients ld) @ [?fd]"
        using True wf by (simp add: take_Suc_conv_app_nth fd)
      have dr: "drop (i + 1) (clients ld) = rest" by (simp add: rest_def)
      have eq: "broadcast_loop os msg ld i h = broadcast_loop os msg ld (i + 1) h1"
        using True len w ok by (subst broadcast_loop.simps) simp
      have neq: "?fd \<noteq> -1" and got: "sent ?fd h1 = sent ?fd h @ msg" using all [OF ok] by auto
      have notin: "-1 \<notin> set (take (i + 1) (clients ld))" using neq "1.prems"(6) unfolding tk by simp
      note IH = "1.IH"(2) [OF True len w refl ok "1.prems"(1-4) _ notin "1.prems"(7), unfolded tk dr]
      have same: "sent fd h1 = sent fd h" if "fd \<in> set rest" for fd
        using that new neq other [of fd] by metis
      show ?thesis
        unfolding drop
      proof (subst wp_def, subst eq, subst wp_def [symmetric], rule wp_mono [OF IH], goal_cases)
        case (2 ld' h')
        have me: "sent ?fd h' = sent ?fd h @ msg" using 2 new(2) neq got by metis
        have "filter (\<lambda>fd. sent fd h' = sent fd h1 @ msg) rest = filter (\<lambda>fd. sent fd h' = sent fd h @ msg) rest"
          using same by (intro filter_cong) auto
        moreover have "sent fd h' = sent fd h" if "fd \<notin> set (?fd # rest) \<or> fd = -1" for fd
          using 2 that other by (metis list.set_intros(1,2))
        ultimately show ?case
          using 2 me same depth sub by auto
      qed (use True in auto)
    qed
  qed
qed

text \<open>
  A client that takes everything: its writes succeed completely, it is in the table once, and
  the server neither accepts another client under its number nor empties the table.
\<close>

definition reliable :: "os \<Rightarrow> int \<Rightarrow> bool" where
  "reliable os fd \<longleftrightarrow>
     (\<forall>h b. ret os h (Write fd b) = int (length b)) \<and>
     (\<forall>h. \<forall>a \<in> set (server_acts os h). \<exists>fd'. a = Joined fd' \<and> fd' \<noteq> fd)"

lemma drop_remove1_nth: "i < length xs \<Longrightarrow> drop i (remove1 (xs ! i) xs) = drop (Suc i) xs"
proof (induction xs arbitrary: i)
  case Nil
  then show ?case by simp
next
  case (Cons a xs)
  then show ?case by (cases i) auto
qed

lemma server_ran_count:
  assumes "\<forall>a \<in> set acts. \<exists>fd'. a = Joined fd' \<and> fd' \<noteq> fd" and "ld_wf ld"
  shows "count_list (clients (server_ran acts ld)) fd = count_list (clients ld) fd"
  using assms
proof (induction acts arbitrary: ld)
  case Nil
  then show ?case by simp
next
  case (Cons a acts)
  then obtain fd' where a: "a = Joined fd'" "fd' \<noteq> fd" by auto
  have "count_list (clients (server_did a ld)) fd = count_list (clients ld) fd"
    using a Cons.prems(2) by (auto simp: clients_def ld_wf_def take_Suc_update)
  moreover have "server_ran (a # acts) ld = server_ran acts (server_did a ld)"
    by (simp add: server_ran_def)
  ultimately show ?case using Cons.IH [OF _ server_did_wf [OF Cons.prems(2)]] Cons.prems(1) by simp
qed

lemma write_socket_reliable:
  assumes "reliable os fd"
  shows "\<exists>h1. write_socket os fd msg h = Inr (int (length msg), h1) \<and> sent fd h1 = sent fd h @ msg"
  using assms
  by (cases "msg = []")
     (simp_all add: write_socket_def write_socket_loop.simps Let_def retio_def reliable_def)

text \<open>Any table: the loop keeps the invariant, and a reliable client has the message exactly once.\<close>

lemma broadcast_loop_safe:
  assumes "posix_write os" and "ld_wf ld" and "i \<le> clin ld"
  shows "wp (broadcast_loop os msg ld i)
     (\<lambda>ld' h'. ld_wf ld' \<and> ld' = ld\<lparr>clis := clis ld', clin := clin ld'\<rparr> \<and> clin ld' \<le> clin ld \<and>
        (\<forall>m. lock_depth m h' = lock_depth m h) \<and> (\<exists>t. h' = t @ h) \<and>
        (reliable os fd \<and> count_list (clients ld) fd = 1 \<longrightarrow>
           count_list (clients ld') fd = 1 \<and>
           sent fd h' = sent fd h @ (if fd \<in> set (drop i (clients ld)) then msg else [])))
     (\<lambda>_. False) h"
  using assms
proof (induction os msg ld i h rule: broadcast_loop.induct)
  case (1 os msg ld i h)
  note wf = "1.prems"(2)
  show ?case
  proof (cases "i < clin ld")
    case False
    then have "broadcast_loop os msg ld i h = Inr (ld, h)" and "drop i (clients ld) = []"
      using wf by (auto simp: broadcast_loop.simps retio_def)
    then show ?thesis using wf by (simp add: wp_def)
  next
    case True
    let ?fd = "clis ld ! i"
    have len: "\<not> length (clis ld) \<le> i" using True wf by (simp add: ld_wf_def)
    have fd: "clients ld ! i = ?fd" and ic: "i < length (clients ld)"
      using True wf by (simp_all add: clients_nth)
    have drop: "drop i (clients ld) = ?fd # drop (Suc i) (clients ld)"
      using ic by (simp add: Cons_nth_drop_Suc flip: fd)
    obtain n h1 where w: "write_socket os ?fd msg h = Inr (n, h1)"
      and other: "\<And>fd'. fd' \<noteq> ?fd \<Longrightarrow> sent fd' h1 = sent fd' h"
      and depth: "\<And>m. lock_depth m h1 = lock_depth m h"
      using write_socket_loop_spec [OF "1.prems"(1), of ?fd "int (length msg)" msg h]
      by (auto simp: wp_run write_socket_def)
    obtain t where t: "h1 = t @ h" using callsD [OF calls_write_socket w] by auto
    show ?thesis
    proof (cases "n < int (length msg)")
      case fails: True
      have "?fd \<in> set (clients ld)" using ic fd nth_mem by metis
      from remove_client_ok [OF wf this, of os h1] obtain ld1 h2 r1 r2
        where rm: "remove_client os ld ?fd h1 = Inr (ld1, h2)" and wf1: "ld_wf ld1"
          and c1: "clients ld1 = remove1 ?fd (clients ld)" and n1: "clin ld1 = clin ld - 1"
          and f1: "ld1 = ld\<lparr>clis := clis ld1, clin := clin ld1\<rparr>"
          and h2: "h2 = (Close ?fd, r2) # (Shutdown ?fd 2, r1) # h1"
        by (auto simp: wp_run)
      have di: "drop i (clients ld1) = drop (Suc i) (clients ld)"
        using drop_remove1_nth [OF ic] by (simp add: c1 fd)
      have neq: "fd \<noteq> ?fd" if "reliable os fd"
        using write_socket_reliable [OF that, of msg h] w fails by auto
      have eq: "broadcast_loop os msg ld i h = broadcast_loop os msg ld1 i h2"
        using True len w fails rm by (subst broadcast_loop.simps) simp
      note IH = "1.IH"(1) [OF True len w refl fails rm refl "1.prems"(1) wf1, unfolded di]
      have fr: "ld' = ld1\<lparr>clis := clis ld', clin := clin ld'\<rparr> \<Longrightarrow>
          ld' = ld\<lparr>clis := clis ld', clin := clin ld'\<rparr>" for ld'
        by (subst (asm) f1) simp
      show ?thesis
        unfolding drop
      proof (subst wp_def, subst eq, subst wp_def [symmetric], rule wp_mono [OF IH], goal_cases)
        case (2 ld' h')
        have "count_list (clients ld1) fd = count_list (clients ld) fd" if "reliable os fd"
          using neq [OF that] by (simp add: c1 count_list_remove1)
        then show ?case
          using 2 fr [of ld'] neq other [of fd] depth h2 t n1 by auto
      qed (use True n1 in auto)
    next
      case ok: False
      have eq: "broadcast_loop os msg ld i h = broadcast_loop os msg ld (i + 1) h1"
        using True len w ok by (subst broadcast_loop.simps) simp
      note IH = "1.IH"(2) [OF True len w refl ok "1.prems"(1,2)]
      have once: "fd \<notin> set (drop (Suc i) (clients ld))"
        if "count_list (clients ld) fd = 1" and "fd = ?fd"
      proof -
        have "count_list (take i (clients ld) @ ?fd # drop (Suc i) (clients ld)) fd = 1"
          using that(1) by (simp add: drop [symmetric])
        then show ?thesis using that(2) by (simp add: count_list_0_iff)
      qed
      have me: "sent fd h1 = sent fd h @ msg" if "reliable os fd" and "fd = ?fd"
        using write_socket_reliable [OF that(1), of msg h] w that(2) by auto
      show ?thesis
        unfolding drop
      proof (subst wp_def, subst eq, subst wp_def [symmetric], rule wp_mono [OF IH], goal_cases)
        case (2 ld' h')
        then show ?case
          using once me other [of fd] depth t by (cases "fd = ?fd") auto
      qed (use True in auto)
    qed
  qed
qed

section \<open>The lines\<close>

lemma length_line:
  assumes "unat c < 16 ^ 4" and "0 \<le> rep" and "rep < 10 ^ k" and "0 < k"
  shows "length (lirc_line c rep name) \<le> 20 + max 2 k + length name"
  using length_fmt_hex_le [OF assms(1), of 4] length_fmt_dec_le [OF assms(2,3,4), of 2]
  by (simp add: lirc_line_def nl_def)

lemma length_line_eq:
  assumes "unat c < 16 ^ 4"
  shows "length (lirc_line c 0 name) = 22 + length name"
proof -
  have "length (fmt_hex 4 c) = 4"
    using length_fmt_hex_le [OF assms, of 4] by (simp add: fmt_hex_def)
  moreover have "length (fmt_dec 2 0) = 2"
    by (simp add: fmt_dec_def base_digits_small)
  ultimately show ?thesis by (simp add: lirc_line_def nl_def)
qed

text \<open>
  Everything the callers need of \<open>broadcastToLirc\<close>: it stops only at its assertion on the number
  of clients, keeps the invariant, and gives a reliable client the line.
\<close>

lemma broadcast_ok:
  assumes "posix_write os" and "ld_wf ld" and "length (lirc_line c rep name) < 100"
  shows "wp (broadcastToLirc os ld name rep c)
     (\<lambda>ld' h'. ld_wf ld' \<and> ld' = ld\<lparr>clis := clis ld', clin := clin ld'\<rparr> \<and>
        (roomy os ld \<longrightarrow> roomy os ld') \<and>
        (\<forall>m. lock_depth m h' = lock_depth m h) \<and> (\<exists>t. h' = t @ h) \<and>
        (reliable os fd \<and> count_list (clients ld) fd = 1 \<longrightarrow>
           count_list (clients ld') fd = 1 \<and> sent fd h' = sent fd h @ lirc_line c rep name))
     (\<lambda>e. e = Assertion \<and> \<not> roomy os ld) h"
proof -
  let ?ld1 = "server_ran (server_acts os h) ld"
  let ?h1 = "(Lock Data_mutex, ret os h (Lock Data_mutex)) # h"
  let ?ld2 = "server_ran (server_acts os ?h1) ?ld1"
  have wf: "ld_wf ?ld1" "ld_wf ?ld2" using assms(2) by (simp_all add: server_ran_wf)
  obtain cfg where cfg: "config ld = Some cfg" and magic: "magic0 ld = 0x15"
    using assms(2) by (auto simp: ld_wf_def)
  have cl: "clin ?ld1 \<le> MAX_CLIENTS" using wf by (simp add: ld_wf_def)
  have room: "roomy os ld \<Longrightarrow> clin ?ld1 \<noteq> MAX_CLIENTS" "clin ld' \<le> clin ?ld2 \<Longrightarrow> roomy os ld \<longrightarrow> roomy os ld'" for ld'
  proof -
    show "roomy os ld \<Longrightarrow> clin ?ld1 \<noteq> MAX_CLIENTS" using roomy_ran [of os ld h] by (simp add: roomy_def)
    have "roomy os ld \<longrightarrow> roomy os ?ld2" using roomy_ran by blast
    then show "clin ld' \<le> clin ?ld2 \<Longrightarrow> roomy os ld \<longrightarrow> roomy os ld'" using roomy_mono by blast
  qed
  have fr: "ld' = ?ld2\<lparr>clis := clis ld', clin := clin ld'\<rparr> \<Longrightarrow>
      ld' = ld\<lparr>clis := clis ld', clin := clin ld'\<rparr>" for ld'
    by (subst (asm) server_ran_frame, subst (asm) (2) server_ran_frame) simp
  have count: "count_list (clients ?ld2) fd = count_list (clients ld) fd" if "reliable os fd"
    using that wf assms(2) by (simp add: server_ran_count reliable_def)
  have present: "fd \<in> set (clients ?ld2)" if "count_list (clients ?ld2) fd = 1"
    using that by (metis count_notin zero_neq_one)
  show ?thesis
    using assms(3) cfg magic cl
    by (auto simp: broadcastToLirc_def wp_simps Let_def deref_def
        intro!: wp_mono [OF broadcast_loop_safe [OF assms(1) wf(2) le0]] dest!: fr
        simp: count present room)
qed

section \<open>Properties\<close>

text \<open>
  C7: A broadcast reaches every client that can take it and drops exactly the others. Let \<open>ld2\<close>
  be the table the thread finds when it holds the mutex, with fewer than \<open>MAX_CLIENTS\<close> clients
  at the assertion before and no open descriptor twice. Afterwards the table holds, in the same order,
  the clients that were sent the whole line; each of the others was sent a proper part of it and
  closed; nobody else was sent anything; the mutex is free and the invariant holds.
\<close>

theorem broadcastToLirc_spec:
  fixes os :: os and h :: hist
  assumes posix: "posix_write os" "posix_ebadf os" and wf: "ld_wf ld"
    and len: "length (lirc_line c rep name) < 100"
  defines "ld1 \<equiv> server_ran (server_acts os h) ld"
    and "h1 \<equiv> (Lock Data_mutex, ret os h (Lock Data_mutex)) # h"
  defines "ld2 \<equiv> server_ran (server_acts os h1) ld1"
  assumes room: "clin ld1 < MAX_CLIENTS" and tab: "table_ok (clients ld2)"
  shows "wp (broadcastToLirc os ld name rep c)
     (\<lambda>ld' h'. ld_wf ld' \<and>
        clients ld' = filter (\<lambda>fd. sent fd h' = sent fd h @ lirc_line c rep name) (clients ld2) \<and>
        (\<forall>fd \<in> set (clients ld2) - set (clients ld'). (\<exists>r. (Close fd, r) \<in> set h') \<and>
           (\<exists>k < length (lirc_line c rep name). sent fd h' = sent fd h @ take k (lirc_line c rep name))) \<and>
        (\<forall>fd. fd \<notin> set (clients ld2) \<longrightarrow> sent fd h' = sent fd h) \<and>
        (\<forall>m. lock_depth m h' = lock_depth m h))
     (\<lambda>_. False) h"
proof -
  have wf2: "ld_wf ld2" using wf by (simp add: ld2_def ld1_def server_ran_wf)
  have ne: "lirc_line c rep name \<noteq> []" by (simp add: lirc_line_def)
  obtain cfg where cfg: "config ld = Some cfg" and magic: "magic0 ld = 0x15"
    using wf by (auto simp: ld_wf_def)
  let ?line = "lirc_line c rep name"
  have run: "wp (broadcastToLirc os ld name rep c) P E h =
      wp (broadcast_loop os ?line ld2 0)
        (\<lambda>ld' h'. P ld' ((Unlock Data_mutex, ret os h' (Unlock Data_mutex)) # h')) E h1" for P E
    using len cfg magic room
    by (simp add: broadcastToLirc_def wp_simps Let_def flip: ld1_def h1_def ld2_def)
  have same: "sent fd h1 = sent fd h" for fd by (simp add: h1_def)
  have depth: "lock_depth m h1 = lock_depth m h + (if Data_mutex = m then 1 else 0)" for m
    by (simp add: h1_def)
  show ?thesis
    unfolding run
  proof (rule wp_mono [OF broadcast_loop_ok [OF posix ne wf2 le0 _ tab]], goal_cases)
    case (2 ld' h')
    then have cl: "clients ld' = filter (\<lambda>fd. sent fd h' = sent fd h @ ?line) (clients ld2)"
      by (simp add: same)
    have "fd \<in> set (clients ld2) \<Longrightarrow> sent fd h' \<noteq> sent fd h @ ?line \<Longrightarrow>
        (\<exists>r. (Close fd, r) \<in> set h') \<and> (\<exists>k < length ?line. sent fd h' = sent fd h @ take k ?line)" for fd
      using 2 by (simp add: same)
    moreover have "fd \<notin> set (clients ld2) \<Longrightarrow> sent fd h' = sent fd h" for fd
      using 2 by (simp add: same)
    moreover have "ld_wf ld'" and "\<forall>m. lock_depth m h' = lock_depth m h + (if Data_mutex = m then 1 else 0)"
      using 2 by (simp_all add: depth)
    ultimately show ?case by (auto simp: cl)
  qed simp_all
qed

lemma fresh_table_wf:
  "length xs = 16 \<Longrightarrow> n \<le> 16 \<Longrightarrow> ld_wf (fresh_ld\<lparr>clis := xs, clin := n\<rparr>)"
  using fresh_ld_wf by (simp add: ld_wf_def fresh_ld_def MAX_CLIENTS_def)

theorem broadcastToLirc_spec_witness:
  "wp (broadcastToLirc (quiet_os\<lparr>ret := (\<lambda>h c. case c of
          Write fd b \<Rightarrow> if fd = 5 then int (length b) else -1 | _ \<Rightarrow> 0)\<rparr>)
        (fresh_ld\<lparr>clis := [4, 5, -1] @ replicate 13 0, clin := 3\<rparr>) ''up'' 0 0x54)
     (\<lambda>ld' h'. ld_wf ld') (\<lambda>_. False) []"
proof -
  let ?os = "quiet_os\<lparr>ret := (\<lambda>h c. case c of
          Write fd b \<Rightarrow> if fd = 5 then int (length b) else -1 | _ \<Rightarrow> 0)\<rparr>"
  let ?ld = "fresh_ld\<lparr>clis := [4, 5, -1] @ replicate 13 0, clin := 3\<rparr>"
  have wf: "ld_wf ?ld" by (rule fresh_table_wf) simp_all
  have p: "posix_write ?os" "posix_ebadf ?os" by (simp_all add: posix_write_def posix_ebadf_def split: syscall.split)
  have cl: "clients ?ld = [4, 5, -1]" by (simp add: clients_def numeral_eq_Suc)
  have len: "length (lirc_line 0x54 0 ''up'') < 100" by (simp add: length_line_eq)
  show ?thesis
    by (rule wp_mono [OF broadcastToLirc_spec [OF p wf len]])
       (use cl in \<open>simp_all add: table_ok_def MAX_CLIENTS_def\<close>)
qed

text \<open>
  Sixteen clients and a key abort the daemon. \<open>add_client\<close> lets the table fill up to
  \<open>MAX_CLIENTS\<close> clients; with a full table every broadcast fails its assertion, before anything is
  sent.
\<close>

lemma full_table_aborts:
  assumes "ld_wf ld" and "length (lirc_line c rep name) < 100"
    and "clin (server_ran (server_acts os h) ld) = MAX_CLIENTS"
  shows "broadcastToLirc os ld name rep c h = Inl Assertion"
proof -
  obtain cfg where "config ld = Some cfg" and "magic0 ld = 0x15"
    using assms(1) by (auto simp: ld_wf_def)
  then have "wp (broadcastToLirc os ld name rep c) (\<lambda>_ _. False) (\<lambda>e. e = Assertion) h"
    using assms by (simp add: broadcastToLirc_def wp_simps Let_def)
  then show ?thesis by (simp add: wp_def split: sum.splits prod.splits)
qed

text \<open>Sixteen clients that connected one after the other.\<close>

lemma full_table_aborts_witness:
  "broadcastToLirc (quiet_os\<lparr>server_acts := (\<lambda>h. map Joined [4..19])\<rparr>) fresh_ld ''ps'' 0 0x43 [] =
     Inl Assertion"
  by (rule full_table_aborts [OF fresh_ld_wf(1)])
     (simp_all add: length_line_eq server_ran_def upto_rec_numeral fresh_ld_def
       FD_SETSIZE_def MAX_CLIENTS_def)

end
