(* ===== verification/Queue_Link.thy ===== *)
theory Queue_Link
  imports Queue_Conc Lirc_Thr
begin

text \<open>
  The two models of the queue agree. Theory \<open>Queue\<close> runs one operation of \<^verbatim>\<open>src/q.c\<close> at a time and takes what the
  other thread does from the answers of the system; theory \<open>Queue_Conc\<close> interleaves the steps of both. Here every
  call that occurs in an interleaving is shown to be a run of the function of theory \<open>Queue\<close>. The answers of the system
  for that run are not chosen freely: they are the ones recorded along the interleaving, how many messages the
  other thread took, or which it put, before the mutex was locked and in each of the waits, and which deadlines were
  refused. What is proved of the functions for all answers is therefore true of the interleaved threads.
\<close>

section \<open>What happens while a thread sleeps\<close>

text \<open>The waits of \<open>queueAdd\<close>: before each the ring is full, and the LIRC thread takes \<open>n\<close> messages.\<close>

fun waited :: "queueData queue \<Rightarrow> nat list \<Rightarrow> queueData queue \<Rightarrow> bool" where
  "waited q [] q1 \<longleftrightarrow> q1 = q"
| "waited q (n # ns) q1 \<longleftrightarrow> full q \<noteq> 0 \<and> waited (consumer_ran n q) ns q1"

lemma waited_snoc: "waited q ns q1 \<Longrightarrow> full q1 \<noteq> 0 \<Longrightarrow> waited q (ns @ [n]) (consumer_ran n q1)"
  by (induction ns arbitrary: q) auto

lemma consumer_ran_Suc: "consumer_ran (Suc n) q = (let r = consumer_ran n q in if empty r \<noteq> 0 then r else snd (queueRem_ring r))"
  by (simp add: consumer_ran_def Let_def)

lemma consumer_ran_0 [simp]: "consumer_ran 0 q = q"
  by (simp add: consumer_ran_def)

text \<open>A call of \<open>queueAdd\<close> for \<open>x\<close>, before it has put its message on the ring.\<close>

definition in_add :: "queueData \<Rightarrow> queueData add_pc \<Rightarrow> bool" where
  "in_add x pc \<longleftrightarrow> pc \<in> {A_lock x, A_test x, A_wait x, A_woken x}"

text \<open>
  The record of a call: \<open>ns\<close> holds, for each time the bluetooth thread got the mutex, how many messages the LIRC thread
  took since the call or since the wait began; \<open>n\<close> counts those taken since then.
\<close>

inductive add_trace :: "queueData \<Rightarrow> queueData qsys \<Rightarrow> nat list \<Rightarrow> nat \<Rightarrow> queueData qsys \<Rightarrow> bool"
  for x :: queueData and s :: "queueData qsys" where
  at_start: "add_trace x s [] 0 s"
| at_lock: "add_trace x s ns n t \<Longrightarrow> apc t = A_lock x \<or> apc t = A_woken x \<Longrightarrow> add_step t u \<Longrightarrow>
     add_trace x s (ns @ [n]) 0 u"
| at_test: "add_trace x s ns n t \<Longrightarrow> apc t = A_test x \<Longrightarrow> add_step t u \<Longrightarrow> add_trace x s ns n u"
| at_other: "add_trace x s ns n t \<Longrightarrow> in_add x (apc t) \<Longrightarrow> rem_step t u \<or> env_step t u \<Longrightarrow>
     add_trace x s ns (n + (length (taken u) - length (taken t))) u"

text \<open>Every interleaving of the call has its record.\<close>

definition add_run :: "queueData \<Rightarrow> queueData qsys \<Rightarrow> queueData qsys \<Rightarrow> bool" where
  "add_run x s t \<longleftrightarrow> qstep s t \<and> in_add x (apc s)"

lemma add_run_traced: "(add_run x)\<^sup>*\<^sup>* s t \<Longrightarrow> \<exists>ns n. add_trace x s ns n t"
proof (induction rule: rtranclp_induct)
  case base
  show ?case using at_start by blast
next
  case (step t u)
  then obtain ns n where tr: "add_trace x s ns n t" by blast
  have pc: "in_add x (apc t)" and st: "add_step t u \<or> rem_step t u \<or> env_step t u"
    using step.hyps(2) by (auto simp: add_run_def qstep_def)
  have "apc t \<noteq> A_wait x" if "add_step t u" using that by (auto elim!: add_step.cases)
  then show ?case using at_lock [OF tr] at_test [OF tr] at_other [OF tr pc] st pc unfolding in_add_def by blast
qed

text \<open>How far the call is, as a run of the function from the ring \<open>q0\<close>.\<close>

definition add_so_far :: "queueData \<Rightarrow> queueData queue \<Rightarrow> nat list \<Rightarrow> nat \<Rightarrow> queueData qsys \<Rightarrow> bool" where
  "add_so_far x q0 ns n s \<longleftrightarrow>
     (case apc s of
        A_lock y \<Rightarrow> y = x \<and> ns = [] \<and> ring s = consumer_ran n q0
      | A_test y \<Rightarrow> y = x \<and> n = 0 \<and> (\<exists>k ws. ns = k # ws \<and> waited (consumer_ran k q0) ws (ring s))
      | A_wait y \<Rightarrow> y = x \<and> (\<exists>k ws q1. ns = k # ws \<and> waited (consumer_ran k q0) ws q1 \<and> full q1 \<noteq> 0 \<and>
          ring s = consumer_ran n q1)
      | A_woken y \<Rightarrow> y = x \<and> (\<exists>k ws q1. ns = k # ws \<and> waited (consumer_ran k q0) ws q1 \<and> full q1 \<noteq> 0 \<and>
          ring s = consumer_ran n q1)
      | A_unlock \<Rightarrow> (\<exists>k ws q1. ns = k # ws \<and> waited (consumer_ran k q0) ws q1 \<and> full q1 = 0 \<and>
          ring s = queueAdd_ring x q1)
      | _ \<Rightarrow> False)"

lemma add_so_far_own:
  assumes "add_step s t" and sf: "add_so_far x q0 ns n s"
  shows "apc s = A_lock x \<or> apc s = A_woken x \<Longrightarrow> add_so_far x q0 (ns @ [n]) 0 t"
    and "apc s = A_test x \<Longrightarrow> add_so_far x q0 ns n t"
proof -
  assume pc: "apc s = A_lock x \<or> apc s = A_woken x"
  from assms(1) show "add_so_far x q0 (ns @ [n]) 0 t"
  proof (cases rule: add_step.cases)
    case (a_lock y)
    then show ?thesis using sf by (auto simp: add_so_far_def)
  next
    case (a_relock y)
    then show ?thesis using sf waited_snoc by (fastforce simp: add_so_far_def)
  qed (use pc in simp_all)
next
  assume pc: "apc s = A_test x"
  from assms(1) show "add_so_far x q0 ns n t"
  proof (cases rule: add_step.cases)
    case (a_wait y)
    then show ?thesis using sf by (auto simp: add_so_far_def)
  next
    case (a_put y)
    then show ?thesis using sf by (auto simp: add_so_far_def)
  qed (use pc in simp_all)
qed

text \<open>The other thread's steps leave the ring alone or take a message.\<close>

lemma others_take:
  assumes "rem_step s t \<or> env_step s t"
  shows "ring t = ring s \<and> taken t = taken s \<or>
    empty (ring s) = 0 \<and> ring t = snd (queueRem_ring (ring s)) \<and> length (taken t) = Suc (length (taken s)) \<and> rpc s = R_test"
  using assms by (auto elim!: rem_step.cases env_step.cases)

lemma add_so_far_other:
  assumes st: "rem_step s t \<or> env_step s t" and inv: "qsys_inv s" and pc: "in_add x (apc s)"
    and sf: "add_so_far x q0 ns n s"
  shows "add_so_far x q0 ns (n + (length (taken t) - length (taken s))) t"
proof -
  let ?d = "length (taken t) - length (taken s)"
  have held: "rpc s \<noteq> R_test" if "apc s = A_test x"
  proof
    assume "rpc s = R_test"
    then have "owner s = Some Lirc" using inv by (simp add: qsys_inv_def remover_holds_def)
    moreover have "owner s = Some Bt" using inv that by (simp add: qsys_inv_def adder_holds_def)
    ultimately show False by simp
  qed
  have apc: "apc t = apc s \<or> apc s = A_wait x \<and> apc t = A_woken x"
    using st pc by (auto elim!: rem_step.cases env_step.cases simp: in_add_def wake_adder_def)
  have ran: "ring t = consumer_ran (n + ?d) q" if "ring s = consumer_ran n q" for q
    using others_take [OF st] that consumer_ran_Suc [of n q] by (auto simp: Let_def)
  show ?thesis
  proof (cases "apc s")
    case (A_lock y)
    then show ?thesis using apc sf ran [of q0] by (auto simp: add_so_far_def)
  next
    case (A_test y)
    then have "ring t = ring s" "?d = 0" using others_take [OF st] held pc by (auto simp: in_add_def)
    with A_test apc sf show ?thesis by (auto simp: add_so_far_def)
  next
    case (A_wait y)
    then show ?thesis using apc sf ran unfolding add_so_far_def by fastforce
  next
    case (A_woken y)
    then show ?thesis using apc sf ran unfolding add_so_far_def by fastforce
  qed (use pc in \<open>simp_all add: in_add_def\<close>)
qed

lemma add_trace_so_far:
  "add_trace x s ns n t \<Longrightarrow> qsys_inv s \<Longrightarrow> apc s = A_lock x \<Longrightarrow> add_so_far x (ring s) ns n t \<and> qsys_inv t"
proof (induction rule: add_trace.induct)
  case at_start
  then show ?case by (simp add: add_so_far_def)
next
  case (at_lock ns n t u)
  then show ?case using add_so_far_own(1) [of t u x] qs.inv_step [of t u] unfolding qstep_def by blast
next
  case (at_test ns n t u)
  then show ?case using add_so_far_own(2) [of t u x] qs.inv_step [of t u] unfolding qstep_def by blast
next
  case (at_other ns n t u)
  then show ?case using add_so_far_other [of t u x] qs.inv_step [of t u] unfolding qstep_def by blast
qed

section \<open>The answers\<close>

text \<open>Answers under which the \<open>i\<close>-th wait of \<open>queueAdd\<close> sees \<open>ns ! i\<close> messages taken; the mutex is locked first.\<close>

definition take_os :: "nat list \<Rightarrow> os" where
  "take_os ns = quiet_os\<lparr>departures := (\<lambda>h. (ns @ replicate (length h) 0) ! (length h - 1))\<rparr>"

lemma take_os_wait:
  "waited q ns q1 \<Longrightarrow> full q1 = 0 \<Longrightarrow> length h = Suc (length pre) \<Longrightarrow>
     \<exists>h'. queueAdd_wait (take_os (pre @ ns)) (length ns) q h = Inr (q1, h')"
proof (induction ns arbitrary: q h pre)
  case Nil
  then show ?case by (simp add: queueAdd_wait.simps retio_def)
next
  case (Cons n ns)
  have d: "departures (take_os (pre @ n # ns)) h = n" using Cons.prems(3) by (simp add: take_os_def nth_append)
  let ?h = "(Cond_wait Not_full, ret (take_os (pre @ n # ns)) h (Cond_wait Not_full)) # h"
  have "\<exists>h'. queueAdd_wait (take_os ((pre @ [n]) @ ns)) (length ns) (consumer_ran n q) ?h = Inr (q1, h')"
    using Cons.prems by (intro Cons.IH) auto
  with Cons.prems(1) d show ?case
    by (simp add: queueAdd_wait.simps [of _ "Suc _"] wait_not_full_def bindio_def seqio_def asksio_def sys_def retio_def Let_def)
qed

section \<open>The same for the LIRC thread\<close>

text \<open>
  The rounds of \<open>queueRemNonBlock\<close> after which the loop goes on: \<open>Some ms\<close>, woken after \<open>ms\<close> arrived; \<open>None\<close>, the
  deadline was refused.
\<close>

fun rwaited :: "queueData queue \<Rightarrow> byte list list option list \<Rightarrow> queueData queue \<Rightarrow> bool" where
  "rwaited q [] q1 \<longleftrightarrow> q1 = q"
| "rwaited q (e # es) q1 \<longleftrightarrow> empty q \<noteq> 0 \<and> rwaited (case e of Some ms \<Rightarrow> producer_ran ms q | None \<Rightarrow> q) es q1"

lemma rwaited_snoc:
  "rwaited q es q1 \<Longrightarrow> empty q1 \<noteq> 0 \<Longrightarrow> rwaited q (es @ [e]) (case e of Some ms \<Rightarrow> producer_ran ms q1 | None \<Rightarrow> q1)"
  by (induction es arbitrary: q) auto

lemma rwaited_inv: "rwaited q es q1 \<Longrightarrow> ring_inv q \<Longrightarrow> ring_inv q1"
  by (induction es arbitrary: q) (auto simp: producer_ran_inv split: option.splits)

lemma producer_ran_0 [simp]: "producer_ran [] q = q"
  by (simp add: producer_ran_def)

lemma producer_ran_snoc:
  "full (producer_ran ms q) = 0 \<Longrightarrow> producer_ran (ms @ [m]) q = queueAdd_ring (message m) (producer_ran ms q)"
  by (simp add: producer_ran_def)

definition in_rem :: "rem_pc \<Rightarrow> bool" where
  "in_rem pc \<longleftrightarrow> pc \<in> {R_lock, R_test, R_wait, R_woken False, R_woken True}"

text \<open>
  The record of a call: \<open>es\<close> holds the messages put before the LIRC thread got the mutex, and then one entry for each
  round after which the loop went on; \<open>new\<close> are the messages put since then. What the bluetooth thread puts on the
  queue are packets.
\<close>

inductive rem_trace ::
  "queueData qsys \<Rightarrow> byte list list option list \<Rightarrow> byte list list \<Rightarrow> queueData qsys \<Rightarrow> bool"
  for s :: "queueData qsys" where
  rt_start: "rem_trace s [] [] s"
| rt_lock: "rem_trace s es new t \<Longrightarrow> rpc t = R_lock \<or> rpc t = R_woken False \<Longrightarrow> rem_step t u \<Longrightarrow>
     rem_trace s (es @ [Some new]) [] u"
| rt_refused: "rem_trace s es new t \<Longrightarrow> rpc t = R_test \<Longrightarrow> rem_step t u \<Longrightarrow> rpc u = R_test \<Longrightarrow>
     rem_trace s (es @ [None]) new u"
| rt_test: "rem_trace s es new t \<Longrightarrow> rpc t = R_test \<Longrightarrow> rem_step t u \<Longrightarrow> rpc u \<noteq> R_test \<Longrightarrow> rem_trace s es new u"
| rt_timeout: "rem_trace s es new t \<Longrightarrow> rpc t = R_woken True \<Longrightarrow> rem_step t u \<Longrightarrow> rem_trace s es new u"
| rt_other: "rem_trace s es new t \<Longrightarrow> in_rem (rpc t) \<Longrightarrow> add_step t u \<or> env_step t u \<Longrightarrow>
     added u = added t @ map message ms \<Longrightarrow> rem_trace s es (new @ ms) u"

text \<open>Every interleaving of the call in which packets are put has its record.\<close>

definition rem_run :: "queueData qsys \<Rightarrow> queueData qsys \<Rightarrow> bool" where
  "rem_run s t \<longleftrightarrow> qstep s t \<and> in_rem (rpc s) \<and> (\<exists>ms. added t = added s @ map message ms)"

lemma rem_run_traced: "rem_run\<^sup>*\<^sup>* s t \<Longrightarrow> \<exists>es new. rem_trace s es new t"
proof (induction rule: rtranclp_induct)
  case base
  show ?case using rt_start by blast
next
  case (step t u)
  then obtain es new where tr: "rem_trace s es new t" by blast
  obtain ms where pc: "in_rem (rpc t)" and st: "add_step t u \<or> rem_step t u \<or> env_step t u"
    and ms: "added u = added t @ map message ms"
    using step.hyps(2) by (auto simp: rem_run_def qstep_def)
  have "rpc t \<noteq> R_wait" if "rem_step t u" using that by (auto elim!: rem_step.cases)
  then show ?case
    using rt_lock [OF tr, of u] rt_refused [OF tr, of u] rt_test [OF tr, of u] rt_timeout [OF tr, of u] rt_other [OF tr pc _ ms]
      st pc unfolding in_rem_def by blast
qed

definition asleep :: "queueData queue \<Rightarrow> byte list list option list \<Rightarrow> byte list list \<Rightarrow> queueData queue \<Rightarrow> bool" where
  "asleep q0 es new r \<longleftrightarrow> (\<exists>ms rs q1. es = Some ms # rs \<and> rwaited (producer_ran ms q0) rs q1 \<and> empty q1 \<noteq> 0 \<and>
     r = producer_ran new q1)"

definition rem_so_far ::
  "queueData queue \<Rightarrow> byte list list option list \<Rightarrow> byte list list \<Rightarrow> queueData qsys \<Rightarrow> bool" where
  "rem_so_far q0 es new s \<longleftrightarrow>
     (case rpc s of
        R_lock \<Rightarrow> es = [] \<and> ring s = producer_ran new q0
      | R_test \<Rightarrow> new = [] \<and> (\<exists>ms rs. es = Some ms # rs \<and> rwaited (producer_ran ms q0) rs (ring s))
      | R_wait \<Rightarrow> asleep q0 es new (ring s) | R_woken b \<Rightarrow> asleep q0 es new (ring s) | R_fail \<Rightarrow> asleep q0 es new (ring s)
      | R_unlock \<Rightarrow> (\<exists>ms rs q1. es = Some ms # rs \<and> rwaited (producer_ran ms q0) rs q1 \<and> empty q1 = 0 \<and>
          ring s = snd (queueRem_ring q1) \<and> last (taken s) = the (fst (queueRem_ring q1)))
      | _ \<Rightarrow> False)"

lemma asleep_start: "rwaited (producer_ran ms q0) rs q1 \<Longrightarrow> empty q1 \<noteq> 0 \<Longrightarrow> asleep q0 (Some ms # rs) [] q1"
  unfolding asleep_def by (intro exI [of _ ms] exI [of _ rs] exI [of _ q1]) simp

lemma asleep_wakes:
  "asleep q0 es new r \<Longrightarrow> \<exists>ms rs. es @ [Some new] = Some ms # rs \<and> rwaited (producer_ran ms q0) rs r"
  unfolding asleep_def using rwaited_snoc [where e = "Some new"] by fastforce

lemma rem_so_far_own:
  assumes "rem_step s t" and sf: "rem_so_far q0 es new s"
  shows "rpc s = R_lock \<or> rpc s = R_woken False \<Longrightarrow> rem_so_far q0 (es @ [Some new]) [] t"
    and "rpc s = R_test \<Longrightarrow> rpc t = R_test \<Longrightarrow> rem_so_far q0 (es @ [None]) new t"
    and "rpc s = R_test \<Longrightarrow> rpc t \<noteq> R_test \<Longrightarrow> rem_so_far q0 es new t"
    and "rpc s = R_woken True \<Longrightarrow> rem_so_far q0 es new t"
proof -
  assume pc: "rpc s = R_lock \<or> rpc s = R_woken False"
  from assms(1) show "rem_so_far q0 (es @ [Some new]) [] t"
  proof (cases rule: rem_step.cases)
    case (r_relock b)
    then have "rpc s = R_woken False" "b = False" using pc by auto
    with r_relock show ?thesis using sf asleep_wakes by (auto simp: rem_so_far_def)
  qed (use pc sf in \<open>auto simp: rem_so_far_def\<close>)
next
  assume pc: "rpc s = R_test" "rpc t = R_test"
  from assms(1) show "rem_so_far q0 (es @ [None]) new t"
  proof (cases rule: rem_step.cases)
    case r_refused
    then show ?thesis using sf rwaited_snoc [where e = None] by (fastforce simp: rem_so_far_def)
  qed (use pc in simp_all)
next
  assume pc: "rpc s = R_test" "rpc t \<noteq> R_test"
  from assms(1) show "rem_so_far q0 es new t"
  proof (cases rule: rem_step.cases)
    case r_wait
    then show ?thesis using sf by (auto simp: rem_so_far_def intro: asleep_start)
  next
    case r_take
    then show ?thesis using sf by (auto simp: rem_so_far_def)
  qed (use pc in simp_all)
next
  assume pc: "rpc s = R_woken True"
  from assms(1) show "rem_so_far q0 es new t"
  proof (cases rule: rem_step.cases)
    case (r_relock b)
    then show ?thesis using sf pc by (auto simp: rem_so_far_def)
  qed (use pc in simp_all)
qed

lemma others_put:
  assumes "add_step s t \<or> env_step s t"
  shows "ring t = ring s \<and> added t = added s \<or>
    (\<exists>x. full (ring s) = 0 \<and> ring t = queueAdd_ring x (ring s) \<and> added t = added s @ [x] \<and> apc s = A_test x)"
  using assms by (auto elim!: add_step.cases env_step.cases)

lemma rem_so_far_other:
  assumes st: "add_step s t \<or> env_step s t" and inv: "qsys_inv s" and pc: "in_rem (rpc s)"
    and ms: "added t = added s @ map message ms" and sf: "rem_so_far q0 es new s"
  shows "rem_so_far q0 es (new @ ms) t"
proof -
  have rpc: "rpc t = rpc s \<or> rpc s = R_wait \<and> (\<exists>b. rpc t = R_woken b)"
    using st by (cases "rpc s = R_wait") (auto elim!: add_step.cases env_step.cases simp: wake_remover_def)
  have put: "ring t = ring s \<and> ms = [] \<or>
      full (ring s) = 0 \<and> (\<exists>m. ms = [m] \<and> ring t = queueAdd_ring (message m) (ring s)) \<and> rpc s \<noteq> R_test"
    using others_put [OF st]
  proof (elim disjE exE conjE)
    fix x
    assume x: "full (ring s) = 0" "ring t = queueAdd_ring x (ring s)" "added t = added s @ [x]" "apc s = A_test x"
    have "rpc s \<noteq> R_test"
    proof
      assume "rpc s = R_test"
      then have "owner s = Some Lirc" using inv by (simp add: qsys_inv_def remover_holds_def)
      moreover have "owner s = Some Bt" using inv x(4) by (simp add: qsys_inv_def adder_holds_def)
      ultimately show False by simp
    qed
    with x ms show ?thesis by auto
  qed (use ms in simp)
  have ran: "ring t = producer_ran (new @ ms) q" if "ring s = producer_ran new q" for q
    using put that producer_ran_snoc [of new q] by auto
  have sleep: "asleep q0 es (new @ ms) (ring t)" if "asleep q0 es new (ring s)"
    using that ran unfolding asleep_def by metis
  show ?thesis
  proof (cases "rpc s")
    case R_lock
    then show ?thesis using rpc sf ran by (auto simp: rem_so_far_def)
  next
    case R_test
    then show ?thesis using rpc put sf by (auto simp: rem_so_far_def)
  next
    case R_wait
    then show ?thesis using rpc sf sleep by (auto simp: rem_so_far_def)
  next
    case (R_woken b)
    then show ?thesis using rpc sf sleep by (auto simp: rem_so_far_def)
  qed (use pc in \<open>simp_all add: in_rem_def\<close>)
qed

lemma rem_trace_so_far:
  "rem_trace s es new t \<Longrightarrow> qsys_inv s \<Longrightarrow> rpc s = R_lock \<Longrightarrow> rem_so_far (ring s) es new t \<and> qsys_inv t"
proof (induction rule: rem_trace.induct)
  case rt_start
  then show ?case by (simp add: rem_so_far_def)
next
  case (rt_lock es new t u)
  then show ?case using rem_so_far_own(1) [of t u] qs.inv_step [of t u] unfolding qstep_def by blast
next
  case (rt_refused es new t u)
  then show ?case using rem_so_far_own(2) [of t u] qs.inv_step [of t u] unfolding qstep_def by blast
next
  case (rt_test es new t u)
  then show ?case using rem_so_far_own(3) [of t u] qs.inv_step [of t u] unfolding qstep_def by blast
next
  case (rt_timeout es new t u)
  then show ?case using rem_so_far_own(4) [of t u] qs.inv_step [of t u] unfolding qstep_def by blast
next
  case (rt_other es new t u ms)
  then show ?case using rem_so_far_other [of t u ms] qs.inv_step [of t u] unfolding qstep_def by blast
qed

text \<open>
  Answers for the rounds \<open>es\<close>, then a timeout after \<open>new\<close> arrived. In a refused round the clock stands in the
  last milliseconds of a second, so that the deadline is out of range.
\<close>

definition put_os :: "byte list list option list \<Rightarrow> byte list list \<Rightarrow> os" where
  "put_os es new = quiet_os\<lparr>
     clock := (\<lambda>h. let i = (length h - 1) div 2 in
       if i < length es \<and> es ! i = None then Timeval 0 999999 else Timeval 0 0),
     arrivals := (\<lambda>h. let i = (length h - 2) div 2 in
       if i < length es then (case es ! i of Some ms \<Rightarrow> ms | None \<Rightarrow> []) else new),
     ret := (\<lambda>h c. case c of
         Cond_timedwait c s ns \<Rightarrow> (if 0 \<le> ns \<and> ns < 1000000000
           then if (length h - 2) div 2 < length es then 0 else ETIMEDOUT else EINVAL)
       | _ \<Rightarrow> 0)\<rparr>"

lemma put_os_posix: "posix_timedwait (put_os es new)" "posix_clock (put_os es new)"
  by (auto simp: posix_timedwait_def posix_clock_def put_os_def Let_def)

lemma put_os_round:
  assumes "length h = 2 * i + 1" and "i < length es" and "empty q \<noteq> 0"
  shows "\<exists>h'. length h' = 2 * Suc i + 1 \<and>
    queueRemNonBlock_wait (put_os es new) (Suc k) blockInMs q h =
    queueRemNonBlock_wait (put_os es new) k blockInMs (case es ! i of Some ms \<Rightarrow> producer_ran ms q | None \<Rightarrow> q) h'"
proof -
  let ?os = "put_os es new"
  let ?u = "if es ! i = None then 999999 else 0"
  let ?c = "Cond_timedwait Not_empty 0 (?u * 1000 + blockInMs * 1000000)"
  let ?h1 = "(Gettimeofday, ret ?os h Gettimeofday) # h"
  let ?h2 = "(?c, ret ?os ?h1 ?c) # ?h1"
  have "clock ?os h = Timeval 0 ?u" using assms by (simp add: put_os_def Let_def)
  moreover have "arrivals ?os ?h1 = (case es ! i of Some ms \<Rightarrow> ms | None \<Rightarrow> [])" using assms by (simp add: put_os_def Let_def)
  moreover have "ret ?os ?h1 ?c = (if es ! i = None then EINVAL else 0)"
    using assms by (simp add: put_os_def Let_def blockInMs_def)
  ultimately have "queueRemNonBlock_wait ?os (Suc k) blockInMs q h =
      queueRemNonBlock_wait ?os k blockInMs (case es ! i of Some ms \<Rightarrow> producer_ran ms q | None \<Rightarrow> q) ?h2"
    using assms(3)
    by (auto simp: queueRemNonBlock_wait.simps [of _ "Suc k"] gettimeofday_def bindio_def seqio_def guardio_def assertio_def
        timedwait_not_empty_def asksio_def sys_def retio_def Let_def blockInMs_def c_int_def EINVAL_def ETIMEDOUT_def
        split: option.splits)
  moreover have "length ?h2 = 2 * Suc i + 1" using assms(1) by simp
  ultimately show ?thesis by blast
qed

lemma put_os_timeout:
  assumes "length h = 2 * length es + 1" and "empty q \<noteq> 0"
  shows "\<exists>h'. queueRemNonBlock_wait (put_os es new) (Suc k) blockInMs q h = Inr ((0, producer_ran new q), h')"
  using assms
  by (simp add: queueRemNonBlock_wait.simps [of _ "Suc k"] gettimeofday_def bindio_def seqio_def guardio_def assertio_def
      timedwait_not_empty_def asksio_def sys_def retio_def Let_def blockInMs_def c_int_def ETIMEDOUT_def put_os_def)

lemma put_os_rounds:
  "rwaited q es q1 \<Longrightarrow> length h = 2 * length pre + 1 \<Longrightarrow>
     \<exists>h'. length h' = 2 * length (pre @ es) + 1 \<and>
       queueRemNonBlock_wait (put_os (pre @ es) new) (length es + k) blockInMs q h =
       queueRemNonBlock_wait (put_os (pre @ es) new) k blockInMs q1 h'"
proof (induction es arbitrary: q h pre)
  case Nil
  then show ?case by auto
next
  case (Cons e es)
  let ?q = "case e of Some ms \<Rightarrow> producer_ran ms q | None \<Rightarrow> q"
  from put_os_round [of h "length pre" "pre @ e # es" q new "length es + k"] Cons.prems
  obtain h1 where h1: "length h1 = 2 * length (pre @ [e]) + 1"
    "queueRemNonBlock_wait (put_os (pre @ e # es) new) (length (e # es) + k) blockInMs q h =
     queueRemNonBlock_wait (put_os (pre @ e # es) new) (length es + k) blockInMs ?q h1"
    by auto
  from Cons.IH [OF _ h1(1), of ?q] Cons.prems(1) h1(2) show ?case by auto
qed

section \<open>Properties\<close>

text \<open>
  C12: Every interleaved call of \<open>queueAdd\<close> is the run of the function that its record describes. Between the call and
  the point where the bluetooth thread has put its message on the ring, let any steps of both threads and any spurious wake-ups
  happen, and record how many messages the LIRC thread takes before the mutex is locked, \<open>k\<close>, and during
  each wait, \<open>ws\<close>. Then \<open>queueAdd\<close>, started on the ring without the \<open>k\<close> oldest messages, on a system in
  which its waits see exactly the numbers \<open>ws\<close>, waits as often as the thread did and gives exactly the ring of the interleaved
  threads. Every such interleaving has a record.
\<close>

theorem interleaved_add_is_a_run:
  assumes "reach qinit qstep s" and "apc s = A_lock x" and "add_trace x s ns n t" and "apc t = A_unlock"
  shows "\<exists>k ws h. ns = k # ws \<and>
     queueAdd (take_os ws) (length ws) (consumer_ran k (ring s)) x [] = Inr (ring t, h)"
proof -
  have inv: "qsys_inv s" using assms(1) by (rule qs.reach_inv)
  then have "add_so_far x (ring s) ns n t" using add_trace_so_far [OF assms(3)] assms(2) by simp
  then obtain k ws q1 where w: "ns = k # ws" "waited (consumer_ran k (ring s)) ws q1" "full q1 = 0" "ring t = queueAdd_ring x q1"
    using assms(4) by (auto simp: add_so_far_def)
  have "ring_inv (ring s)" using inv by (simp add: qsys_inv_def)
  then have "sync (consumer_ran k (ring s))" using consumer_ran_inv(1) [of "ring s" k] by (simp add: ring_inv_def)
  moreover obtain h' where "queueAdd_wait (take_os ws) (length ws) (consumer_ran k (ring s))
      [(Lock Queue_mutex, ret (take_os ws) [] (Lock Queue_mutex))] = Inr (q1, h')"
    using take_os_wait [OF w(2,3), of "[(Lock Queue_mutex, ret (take_os ws) [] (Lock Queue_mutex))]" "[]"] by auto
  ultimately have "\<exists>h. queueAdd (take_os ws) (length ws) (consumer_ran k (ring s)) x [] = Inr (ring t, h)"
    using w(4) by (simp add: queueAdd_def lock_queue_def unlock_and_signal_def seqio_def bindio_def guardio_def sys_def
        retio_def Let_def)
  then show ?thesis using w(1) by blast
qed

text \<open>A queue nobody uses yet.\<close>

definition qsys_idle :: "queueData qsys" where
  "qsys_idle = \<lparr>ring = empty_queue, owner = None, apc = A_idle, rpc = R_idle, added = [], taken = []\<rparr>"

lemma reach_idle: "reach qinit qstep qsys_idle"
  by (rule reach_init) (auto simp: qinit_def qsys_idle_def empty_queue_def
    intro!: exI [of _ "\<lparr>buf = replicate QUEUESIZE None, head = 7, tail = 9, full = 1, empty = 0, sync = False\<rparr>"])

theorem interleaved_add_is_a_run_witness:
  "\<exists>h. queueAdd (take_os []) 0 empty_queue (message [1]) [] = Inr (queueAdd_ring (message [1]) empty_queue, h)"
proof -
  let ?x = "message [1]" let ?s = "qsys_idle\<lparr>apc := A_lock ?x\<rparr>"
  let ?t = "?s\<lparr>owner := Some Bt, apc := A_test ?x\<rparr>"
  let ?u = "?t\<lparr>ring := queueAdd_ring ?x (ring ?t), added := added ?t @ [?x], apc := A_unlock\<rparr>"
  have "qstep qsys_idle ?s" using a_call [of qsys_idle ?x] by (simp add: qstep_def qsys_idle_def)
  then have r: "reach qinit qstep ?s" by (rule reach_step [OF reach_idle])
  have "add_step ?s ?t" using a_lock [of ?s ?x] by (simp add: qsys_idle_def)
  from at_lock [OF at_start _ this] have "add_trace ?x ?s [0] 0 ?t" by simp
  moreover have "add_step ?t ?u" using a_put [of ?t ?x] by (simp add: qsys_idle_def)
  ultimately have "add_trace ?x ?s [0] 0 ?u" using at_test by force
  from interleaved_add_is_a_run [OF r _ this] show ?thesis by (auto simp: qsys_idle_def)
qed

text \<open>
  C11: Every interleaved call of \<open>queueRemNonBlock\<close> is the run of the function that its record describes. Between the
  call and the point where the LIRC thread has taken a message, or has the mutex again after a wait that timed out, let any
  steps of both threads happen, deadlines be refused and wake-ups be spurious, and record which packets are put before
  the mutex is locked, \<open>ms\<close>, for each round after which the loop went on whether the deadline was refused or which
  packets were put during the wait, \<open>rs\<close>, and those put during the last wait, \<open>new\<close>. Then the function, started on
  the ring with \<open>ms\<close> behind, on a system that answers the rounds as recorded and keeps to the documented behaviour of
  the clock and of the timed wait, makes exactly these rounds and gives the result, the message and the ring of
  the interleaved threads. Every such interleaving has a record.
\<close>

theorem interleaved_rem_is_a_run:
  assumes "reach qinit qstep s" and "rpc s = R_lock" and "rem_trace s es new t" and "rpc t \<in> {R_unlock, R_fail}"
  shows "\<exists>ms rs h. es = Some ms # rs \<and> posix_timedwait (put_os rs new) \<and> posix_clock (put_os rs new) \<and>
     queueRemNonBlock (put_os rs new) (length rs + (if rpc t = R_fail then 1 else 0)) (producer_ran ms (ring s)) blockInMs None [] =
       Inr (if rpc t = R_unlock then (Q_OK, Some (last (taken t)), ring t) else (Q_ERR, None, ring t), h)"
proof -
  have inv: "qsys_inv s" using assms(1) by (rule qs.reach_inv)
  then have sf: "rem_so_far (ring s) es new t" using rem_trace_so_far [OF assms(3)] assms(2) by simp
  have ri: "ring_inv (producer_ran ms (ring s))" for ms using inv by (simp add: qsys_inv_def producer_ran_inv)
  let ?h = "\<lambda>os. [(Lock Queue_mutex, ret os [] (Lock Queue_mutex))]"
  have call: "\<exists>h. queueRemNonBlock os fuel (producer_ran ms (ring s)) blockInMs None [] =
      Inr (if i = 0 then (Q_ERR, None, q1) else (Q_OK, fst (queueRem_ring q1), snd (queueRem_ring q1)), h)"
    if "queueRemNonBlock_wait os fuel blockInMs (producer_ran ms (ring s)) (?h os) = Inr ((i, q1), h')" for os fuel ms i q1 h'
    using that ri [of ms]
    by (simp add: queueRemNonBlock_def lock_queue_def unlock_and_signal_def seqio_def bindio_def guardio_def assertio_def
        sys_def retio_def Let_def case_prod_beta ring_inv_def)
  from assms(4) have "rpc t = R_unlock \<or> rpc t = R_fail" by simp
  then show ?thesis
  proof
    assume pc: "rpc t = R_unlock"
    then obtain ms rs q1 where w: "es = Some ms # rs" "rwaited (producer_ran ms (ring s)) rs q1" "empty q1 = 0"
        "ring t = snd (queueRem_ring q1)" "last (taken t) = the (fst (queueRem_ring q1))"
      using sf by (auto simp: rem_so_far_def)
    have out: "fst (queueRem_ring q1) = Some (last (taken t))"
      using ring_list_rem(1) [OF rwaited_inv [OF w(2) ri] w(3)] w(5) by simp
    obtain h' where "queueRemNonBlock_wait (put_os rs new) (length rs) blockInMs (producer_ran ms (ring s))
        (?h (put_os rs new)) = Inr ((1, q1), h')"
      using put_os_rounds [OF w(2), of "?h (put_os rs new)" "[]" new 0] w(3)
      by (auto simp: queueRemNonBlock_wait.simps [of _ 0] retio_def)
    from call [OF this] show ?thesis
      using w(1,4) out pc put_os_posix by (intro exI [of _ ms] exI [of _ rs]) simp
  next
    assume pc: "rpc t = R_fail"
    then obtain ms rs q1 where w: "es = Some ms # rs" "rwaited (producer_ran ms (ring s)) rs q1" "empty q1 \<noteq> 0"
        "ring t = producer_ran new q1"
      using sf by (auto simp: rem_so_far_def asleep_def)
    obtain h1 where "length h1 = 2 * length rs + 1" "queueRemNonBlock_wait (put_os rs new) (length rs + 1) blockInMs
        (producer_ran ms (ring s)) (?h (put_os rs new)) = queueRemNonBlock_wait (put_os rs new) 1 blockInMs q1 h1"
      using put_os_rounds [OF w(2), of "?h (put_os rs new)" "[]" new 1] by auto
    with put_os_timeout [of h1 rs q1 new 0] w(3) obtain h' where
      "queueRemNonBlock_wait (put_os rs new) (length rs + 1) blockInMs (producer_ran ms (ring s)) (?h (put_os rs new)) =
       Inr ((0, ring t), h')"
      by (auto simp: w(4))
    from call [OF this] show ?thesis
      using w(1) pc put_os_posix by (intro exI [of _ ms] exI [of _ rs]) simp
  qed
qed

theorem interleaved_rem_is_a_run_witness:
  "\<exists>h. queueRemNonBlock (put_os [None] []) 2 empty_queue blockInMs None [] = Inr ((Q_ERR, None, empty_queue), h)"
proof -
  let ?s = "qsys_idle\<lparr>rpc := R_lock\<rparr>" let ?t = "?s\<lparr>owner := Some Lirc, rpc := R_test\<rparr>"
  let ?u = "?t\<lparr>owner := None, rpc := R_wait\<rparr>" let ?v = "?u\<lparr>rpc := R_woken True\<rparr>"
  let ?w = "?v\<lparr>owner := Some Lirc, rpc := R_fail\<rparr>"
  have "qstep qsys_idle ?s" using r_call [of qsys_idle] by (simp add: qstep_def qsys_idle_def)
  then have r: "reach qinit qstep ?s" by (rule reach_step [OF reach_idle])
  have "rem_step ?s ?t" using r_lock [of ?s] by (simp add: qsys_idle_def)
  from rt_lock [OF rt_start _ this] have "rem_trace ?s [Some []] [] ?t" by simp
  moreover have "rem_step ?t ?t" using r_refused [of ?t] by (simp add: qsys_idle_def)
  ultimately have "rem_trace ?s [Some [], None] [] ?t" using rt_refused [of ?s "[Some []]" "[]" ?t ?t] by simp
  moreover have "rem_step ?t ?u" using r_wait [of ?t] by (simp add: qsys_idle_def)
  ultimately have "rem_trace ?s [Some [], None] [] ?u" using rt_test [of ?s _ _ ?t ?u] by simp
  moreover have "env_step ?u ?v" using e_timeout [of ?u] by simp
  ultimately have "rem_trace ?s [Some [], None] [] ?v"
    using rt_other [of ?s "[Some [], None]" "[]" ?u ?v "[]"] by (simp add: in_rem_def)
  moreover have "rem_step ?v ?w" using r_relock [of ?v True] by (simp add: qsys_idle_def)
  ultimately have "rem_trace ?s [Some [], None] [] ?w" using rt_timeout [of ?s _ _ ?v ?w] by simp
  from interleaved_rem_is_a_run [OF r _ this] show ?thesis by (auto simp: qsys_idle_def numeral_2_eq_2)
qed

end
