(* ===== verification/Table_Conc.thy ===== *)
theory Table_Conc
  imports Lirc_Thr
begin

text \<open>
  The table of clients under its two threads: the main thread accepts clients in \<open>lirc_server\<close>
  (\<^verbatim>\<open>src/lirc_srv.c\<close>) and the LIRC thread writes to them in \<open>broadcastToLirc\<close>
  (\<^verbatim>\<open>src/lirc_thr.c\<close>). Both test the number of clients before they take the mutex. A step is one
  call of the pthread library, one such test, or one stretch of code under the mutex; which thread
  moves is not determined.
\<close>

section \<open>Threads and their program counters\<close>

datatype table_user = Server | Sender

datatype server_pc = S_poll | S_checked int | S_add int | S_unlock | S_closing | S_end

datatype sender_pc = L_idle | L_checked | L_write nat | L_aborted

text \<open>\<open>accepted\<close> and \<open>closed\<close> record the descriptors accepted and closed so far.\<close>

record tsys =
  shared :: lirc_data
  lock :: "table_user option"
  spc :: server_pc
  lpc :: sender_pc
  accepted :: "int list"
  closed :: "int list"

section \<open>Steps\<close>

text \<open>The main thread: \<open>add_client\<close>, and the end of \<open>lirc_server\<close>.\<close>

inductive server_step :: "tsys \<Rightarrow> tsys \<Rightarrow> bool" where
  s_reject: "spc s = S_poll \<Longrightarrow> fd \<ge> FD_SETSIZE \<or> clin (shared s) \<ge> MAX_CLIENTS \<Longrightarrow>
     server_step s (s\<lparr>accepted := fd # accepted s, closed := fd # closed s\<rparr>)"
| s_check: "spc s = S_poll \<Longrightarrow> \<not> (fd \<ge> FD_SETSIZE \<or> clin (shared s) \<ge> MAX_CLIENTS) \<Longrightarrow>
     server_step s (s\<lparr>accepted := fd # accepted s, spc := S_checked fd\<rparr>)"
| s_lock: "spc s = S_checked fd \<Longrightarrow> lock s = None \<Longrightarrow>
     server_step s (s\<lparr>lock := Some Server, spc := S_add fd\<rparr>)"
| s_add: "spc s = S_add fd \<Longrightarrow>
     server_step s (s\<lparr>shared := (shared s)\<lparr>clis := (clis (shared s))[clin (shared s) := fd],
       clin := clin (shared s) + 1\<rparr>, spc := S_unlock\<rparr>)"
| s_unlock: "spc s = S_unlock \<Longrightarrow> server_step s (s\<lparr>lock := None, spc := S_poll\<rparr>)"
| s_cancel: "spc s = S_poll \<Longrightarrow> lock s = None \<Longrightarrow>
     server_step s (s\<lparr>lock := Some Server, spc := S_closing\<rparr>)"
| s_close: "spc s = S_closing \<Longrightarrow>
     server_step s (s\<lparr>closed := clients (shared s) @ closed s, shared := (shared s)\<lparr>clin := 0\<rparr>,
       lock := None, spc := S_end\<rparr>)"

text \<open>
  The LIRC thread in \<open>broadcastToLirc\<close>: \<open>L_write i\<close> is the top of the loop. In \<open>l_drop\<close> the write
  was short, and the client is removed by \<open>remove_client\<close>.
\<close>

inductive sender_step :: "tsys \<Rightarrow> tsys \<Rightarrow> bool" where
  l_check: "lpc s = L_idle \<Longrightarrow> clin (shared s) < MAX_CLIENTS \<Longrightarrow> sender_step s (s\<lparr>lpc := L_checked\<rparr>)"
| l_abort: "lpc s = L_idle \<Longrightarrow> \<not> clin (shared s) < MAX_CLIENTS \<Longrightarrow> sender_step s (s\<lparr>lpc := L_aborted\<rparr>)"
| l_lock: "lpc s = L_checked \<Longrightarrow> lock s = None \<Longrightarrow>
     sender_step s (s\<lparr>lock := Some Sender, lpc := L_write 0\<rparr>)"
| l_sent: "lpc s = L_write i \<Longrightarrow> i < clin (shared s) \<Longrightarrow> sender_step s (s\<lparr>lpc := L_write (i + 1)\<rparr>)"
| l_drop: "lpc s = L_write i \<Longrightarrow> i < clin (shared s) \<Longrightarrow> fd = clis (shared s) ! i \<Longrightarrow>
     remove_client os (shared s) fd h = Inr (ld', h') \<Longrightarrow>
     sender_step s (s\<lparr>shared := ld', closed := fd # closed s\<rparr>)"
| l_unlock: "lpc s = L_write i \<Longrightarrow> \<not> i < clin (shared s) \<Longrightarrow>
     sender_step s (s\<lparr>lock := None, lpc := L_idle\<rparr>)"

inductive_cases server_stepE: "server_step s t"
inductive_cases sender_stepE: "sender_step s t"

definition tstep :: "tsys \<Rightarrow> tsys \<Rightarrow> bool" where
  "tstep s t \<longleftrightarrow> server_step s t \<or> sender_step s t"

definition tinit :: "tsys \<Rightarrow> bool" where
  "tinit s \<longleftrightarrow> ld_wf (shared s) \<and> clin (shared s) = 0 \<and> lock s = None \<and> spc s = S_poll \<and> lpc s = L_idle \<and>
     accepted s = [] \<and> closed s = []"

section \<open>The invariant\<close>

text \<open>The descriptor the server holds in its hand, and whether it holds the mutex.\<close>

definition in_hand :: "server_pc \<Rightarrow> int multiset" where
  "in_hand pc = (case pc of S_checked fd \<Rightarrow> {#fd#} | S_add fd \<Rightarrow> {#fd#} | _ \<Rightarrow> {#})"

definition server_holds :: "server_pc \<Rightarrow> bool" where
  "server_holds pc \<longleftrightarrow> (case pc of S_add _ \<Rightarrow> True | S_unlock \<Rightarrow> True | S_closing \<Rightarrow> True | _ \<Rightarrow> False)"

definition sender_holds :: "sender_pc \<Rightarrow> bool" where
  "sender_holds pc \<longleftrightarrow> (case pc of L_write _ \<Rightarrow> True | _ \<Rightarrow> False)"

lemmas tpc_defs = in_hand_def server_holds_def sender_holds_def

definition tsys_inv :: "tsys \<Rightarrow> bool" where
  "tsys_inv s \<longleftrightarrow> ld_wf (shared s) \<and>
     (server_holds (spc s) \<longleftrightarrow> lock s = Some Server) \<and> (sender_holds (lpc s) \<longleftrightarrow> lock s = Some Sender) \<and>
     (in_hand (spc s) \<noteq> {#} \<longrightarrow> clin (shared s) < MAX_CLIENTS) \<and>
     (spc s = S_end \<longrightarrow> clin (shared s) = 0) \<and>
     mset (accepted s) = mset (closed s) + mset (clients (shared s)) + in_hand (spc s)"

lemma tinit_inv: "tinit s \<Longrightarrow> tsys_inv s"
  by (simp add: tinit_def tsys_inv_def tpc_defs clients_def)

lemma server_step_inv:
  assumes "server_step s t" and "tsys_inv s"
  shows "tsys_inv t"
  using assms
proof (cases rule: server_step.cases)
  case (s_add fd)
  have wf: "ld_wf (shared s)" and room: "clin (shared s) < MAX_CLIENTS"
    using assms(2) s_add by (simp_all add: tsys_inv_def tpc_defs)
  then have "clients ((shared s)\<lparr>clis := (clis (shared s))[clin (shared s) := fd], clin := clin (shared s) + 1\<rparr>) =
      clients (shared s) @ [fd]"
    by (simp add: clients_def ld_wf_def take_Suc_update)
  then show ?thesis
    using assms(2) s_add room by (simp add: tsys_inv_def tpc_defs ld_wf_def)
qed (auto simp: tsys_inv_def tpc_defs ld_wf_def clients_def)

lemma sender_step_inv:
  assumes "sender_step s t" and "tsys_inv s"
  shows "tsys_inv t"
  using assms
proof (cases rule: sender_step.cases)
  case (l_drop i fd os h ld' h')
  have wf: "ld_wf (shared s)" using assms(2) by (simp add: tsys_inv_def)
  have fd: "fd \<in> set (clients (shared s))" using l_drop(3,4) wf by (simp add: clients_nth)
  have "ld_wf ld' \<and> clients ld' = remove1 fd (clients (shared s)) \<and> clin ld' = clin (shared s) - 1"
    using remove_client_ok [OF wf fd, of os h] l_drop(5) by (simp add: wp_def)
  with assms(2) l_drop fd show ?thesis
    by (auto simp: tsys_inv_def tpc_defs)
qed (auto simp: tsys_inv_def tpc_defs)

interpretation ts: invariant_system tinit tstep tsys_inv
  by unfold_locales (auto simp: tstep_def intro: tinit_inv server_step_inv sender_step_inv)

section \<open>Properties\<close>

text \<open>
  C9: Testing the number of clients before taking the mutex does not break the table. However the main
  thread and the LIRC thread are interleaved, the number of clients stays in the array; when a
  client is stored there is room for it; the two are never in the table at once; and every descriptor
  accepted is in the table, in the hand of the server, or closed. When the server has ended all are closed.
\<close>

theorem table_safe:
  assumes "reach tinit tstep s"
  shows "length (clis (shared s)) = MAX_CLIENTS \<and> clin (shared s) \<le> MAX_CLIENTS \<and>
     (\<forall>fd. spc s \<noteq> S_add fd \<or> clin (shared s) < MAX_CLIENTS) \<and>
     \<not> (server_holds (spc s) \<and> sender_holds (lpc s)) \<and>
     mset (accepted s) = mset (closed s) + mset (clients (shared s)) + in_hand (spc s) \<and>
     (spc s \<noteq> S_end \<or> mset (accepted s) = mset (closed s))"
  using ts.reach_inv [OF assms] by (auto simp: tsys_inv_def tpc_defs ld_wf_def clients_def)

definition tsys0 :: tsys where
  "tsys0 = \<lparr>shared = fresh_ld, lock = None, spc = S_poll, lpc = L_idle, accepted = [], closed = []\<rparr>"

lemma tinit_tsys0: "tinit tsys0"
  using fresh_ld_wf by (simp add: tinit_def tsys0_def fresh_ld_def)

theorem table_safe_witness: "mset (accepted tsys0) = mset (closed tsys0) + mset (clients (shared tsys0)) + in_hand (spc tsys0)"
  using table_safe [OF reach_init [where init = tinit and step = tstep, OF tinit_tsys0]] by simp

text \<open>Accepting \<open>k\<close> clients one after the other.\<close>

lemma reach_clients:
  "k \<le> MAX_CLIENTS \<Longrightarrow>
     \<exists>s. reach tinit tstep s \<and> clin (shared s) = k \<and> lock s = None \<and> spc s = S_poll \<and> lpc s = L_idle"
proof (induction k)
  case 0
  then show ?case using reach_init [where init = tinit and step = tstep, OF tinit_tsys0]
    by (intro exI [of _ tsys0]) (simp add: tsys0_def fresh_ld_def)
next
  case (Suc k)
  then obtain s where s: "reach tinit tstep s" "clin (shared s) = k" "lock s = None" "spc s = S_poll" "lpc s = L_idle"
    by auto
  let ?s1 = "s\<lparr>accepted := 7 # accepted s, spc := S_checked 7\<rparr>"
  let ?s2 = "?s1\<lparr>lock := Some Server, spc := S_add 7\<rparr>"
  let ?ld = "shared s"
  let ?s3 = "?s2\<lparr>shared := ?ld\<lparr>clis := (clis ?ld)[clin ?ld := 7], clin := clin ?ld + 1\<rparr>, spc := S_unlock\<rparr>"
  let ?s4 = "?s3\<lparr>lock := None, spc := S_poll\<rparr>"
  have "server_step s ?s1" using s Suc.prems by (intro s_check) (auto simp: FD_SETSIZE_def)
  moreover have "server_step ?s1 ?s2" using s by (intro s_lock) auto
  moreover have "server_step ?s2 ?s3" using server_step.s_add [of ?s2 7] by simp
  moreover have "server_step ?s3 ?s4" by (intro s_unlock) auto
  ultimately have "reach tinit tstep ?s4"
    using s(1) by (meson reach_step tstep_def)
  then show ?case using s by (intro exI [of _ ?s4]) simp
qed

text \<open>
  C37: Sixteen clients and one key are enough to abort the daemon. The server fills the whole table, and the
  LIRC thread then fails its assertion that there is still room in it: the aborted state is reachable.
\<close>

theorem full_table_reachable: "\<exists>s. reach tinit tstep s \<and> clin (shared s) = MAX_CLIENTS \<and> lpc s = L_aborted"
proof -
  obtain s where s: "reach tinit tstep s" "clin (shared s) = MAX_CLIENTS" "lpc s = L_idle"
    using reach_clients [of MAX_CLIENTS] by auto
  have "sender_step s (s\<lparr>lpc := L_aborted\<rparr>)" using s by (intro l_abort) auto
  then have "reach tinit tstep (s\<lparr>lpc := L_aborted\<rparr>)" using s(1) by (auto intro: reach_step simp: tstep_def)
  with s show ?thesis by (intro exI [of _ "s\<lparr>lpc := L_aborted\<rparr>"]) simp
qed

end
