(* ===== verification/Table_Link.thy ===== *)
theory Table_Link
  imports Table_Conc
begin

text \<open>
  The two models of a broadcast agree. Theory \<open>Lirc_Thr\<close> runs \<open>broadcastToLirc\<close> (\<^verbatim>\<open>src/lirc_thr.c\<close>) from its
  beginning to its end and takes what the main thread does from the answers of the system; theory \<open>Table_Conc\<close> interleaves
  it with \<open>lirc_server\<close> (\<^verbatim>\<open>src/lirc_srv.c\<close>). Here every broadcast that occurs in an interleaving is shown to be a run of
  the function. The answers for that run are the ones recorded along the interleaving: whom the main thread admitted,
  whether it emptied the table, and which clients did not take the line. So what is proved of the function for all answers
  is true of the interleaved threads.
\<close>

section \<open>Removing a client\<close>

text \<open>What \<open>remove_client\<close> does to the table does not depend on the answers.\<close>

lemma remove_client_loop_any:
  "remove_client_loop os fd ld i h = Inr (ld', h') \<Longrightarrow> \<exists>h2'. remove_client_loop os2 fd ld i h2 = Inr (ld', h2')"
proof (induction os fd ld i rule: remove_client_loop.induct)
  case (1 os fd ld i)
  show ?case
  proof (cases "i < clin ld \<and> i < length (clis ld) \<and> clis ld ! i \<noteq> fd")
    case True
    with 1 show ?thesis by (subst remove_client_loop.simps) (simp add: remove_client_loop.simps [of os])
  next
    case False
    with "1.prems" show ?thesis
      by (subst remove_client_loop.simps, subst (asm) (1) remove_client_loop.simps)
         (auto simp: seqio_def bindio_def liftio_def retio_def stopio_def sys_def Let_def split: sum.splits if_splits)
  qed
qed

lemma remove_client_any:
  "remove_client os ld fd h = Inr (ld', h') \<Longrightarrow> \<exists>h2'. remove_client os2 ld fd h2 = Inr (ld', h2')"
  unfolding remove_client_def by (rule remove_client_loop_any)

section \<open>How far a broadcast is\<close>

text \<open>
  The rounds of the loop: \<open>True\<close>, the client got the whole line; \<open>False\<close>, it did not and was removed.
\<close>

definition removed :: "lirc_data \<Rightarrow> int \<Rightarrow> lirc_data \<Rightarrow> bool" where
  "removed ld fd ld' \<longleftrightarrow> (\<exists>os h h'. remove_client os ld fd h = Inr (ld', h'))"

fun sends :: "bool list \<Rightarrow> lirc_data \<Rightarrow> nat \<Rightarrow> lirc_data \<Rightarrow> nat \<Rightarrow> bool" where
  "sends [] ld i ld' i' \<longleftrightarrow> ld' = ld \<and> i' = i"
| "sends (b # bs) ld i ld' i' \<longleftrightarrow> i < clin ld \<and>
     (if b then sends bs ld (i + 1) ld' i'
      else \<exists>ld1. removed ld (clis ld ! i) ld1 \<and> sends bs ld1 i ld' i')"

lemma sends_sent: "sends bs ld i ld' i' \<Longrightarrow> i' < clin ld' \<Longrightarrow> sends (bs @ [True]) ld i ld' (i' + 1)"
  by (induction bs arbitrary: ld i) (simp, fastforce split: if_splits)

lemma sends_drop:
  "sends bs ld i ld' i' \<Longrightarrow> i' < clin ld' \<Longrightarrow> removed ld' (clis ld' ! i') ld1 \<Longrightarrow>
     sends (bs @ [False]) ld i ld1 i'"
  by (induction bs arbitrary: ld i) (simp, fastforce split: if_splits)

text \<open>
  The record of a broadcast: \<open>acts\<close> is what the main thread did to the table since the assertion, \<open>bs\<close> has an entry for
  each client the line was written to, whether it got the whole line (the loop goes on to the next index) or was dropped.
\<close>

definition act_of :: "server_pc \<Rightarrow> server_act list" where
  "act_of pc = (case pc of S_add fd \<Rightarrow> [Joined fd] | S_closing \<Rightarrow> [Cleared] | _ \<Rightarrow> [])"

inductive broadcast_trace :: "tsys \<Rightarrow> server_act list \<Rightarrow> bool list \<Rightarrow> tsys \<Rightarrow> bool"
  for s :: tsys where
  bt_start: "broadcast_trace s [] [] s"
| bt_server: "broadcast_trace s acts bs t \<Longrightarrow> server_step t u \<Longrightarrow> broadcast_trace s (acts @ act_of (spc t)) bs u"
| bt_lock: "broadcast_trace s acts bs t \<Longrightarrow> lpc t = L_checked \<Longrightarrow> sender_step t u \<Longrightarrow> broadcast_trace s acts bs u"
| bt_write: "broadcast_trace s acts bs t \<Longrightarrow> lpc t = L_write i \<Longrightarrow> i < clin (shared t) \<Longrightarrow> sender_step t u \<Longrightarrow>
     broadcast_trace s acts (bs @ [lpc u = L_write (i + 1)]) u"

text \<open>Every interleaving of a broadcast has its record, as long as the LIRC thread is at the table.\<close>

definition broadcast_run :: "tsys \<Rightarrow> tsys \<Rightarrow> bool" where
  "broadcast_run s t \<longleftrightarrow> tstep s t \<and> lpc s \<noteq> L_idle"

lemma broadcast_run_traced:
  "broadcast_run\<^sup>*\<^sup>* s t \<Longrightarrow> lpc t \<noteq> L_idle \<Longrightarrow> \<exists>acts bs. broadcast_trace s acts bs t"
proof (induction rule: rtranclp_induct)
  case base
  show ?case using bt_start by blast
next
  case (step t u)
  then obtain acts bs where tr: "broadcast_trace s acts bs t" by (auto simp: broadcast_run_def)
  from step.hyps(2) have "server_step t u \<or> sender_step t u" by (simp add: broadcast_run_def tstep_def)
  then show ?case
  proof
    assume st: "sender_step t u"
    then have "lpc t = L_checked \<or> (\<exists>i. lpc t = L_write i \<and> i < clin (shared t))"
      using step.prems step.hyps(2) by (auto elim!: sender_stepE simp: broadcast_run_def)
    then show ?thesis using bt_lock [OF tr _ st] bt_write [OF tr _ _ st] by blast
  qed (use bt_server [OF tr] in blast)
qed

definition broadcast_so_far :: "lirc_data \<Rightarrow> server_act list \<Rightarrow> bool list \<Rightarrow> tsys \<Rightarrow> bool" where
  "broadcast_so_far ld acts bs s \<longleftrightarrow>
     (case lpc s of
        L_checked \<Rightarrow> bs = [] \<and> shared s = server_ran acts ld
      | L_write i \<Rightarrow> sends bs (server_ran acts ld) 0 (shared s) i
      | _ \<Rightarrow> False)"

text \<open>The main thread admits descriptors that \<open>select\<close> could take.\<close>

definition hand_ok :: "tsys \<Rightarrow> bool" where
  "hand_ok s \<longleftrightarrow> tsys_inv s \<and> (\<forall>fd. spc s = S_checked fd \<or> spc s = S_add fd \<longrightarrow> fd < FD_SETSIZE)"

lemma hand_ok_step:
  assumes "tstep s t" and "hand_ok s"
  shows "hand_ok t"
proof -
  have "tsys_inv t" using ts.inv_step assms by (auto simp: hand_ok_def)
  with assms show ?thesis by (auto simp: hand_ok_def tstep_def elim!: server_stepE sender_stepE)
qed

interpretation tl: invariant_system tinit tstep hand_ok
proof unfold_locales
  show "hand_ok s" if "tinit s" for s using that tinit_inv by (auto simp: hand_ok_def tinit_def)
qed (rule hand_ok_step)

text \<open>What the main thread does to the table is what \<open>server_ran\<close> tells, and only while it has the mutex.\<close>

lemma server_step_ran:
  assumes "server_step s t" and "hand_ok s"
  shows "shared t = server_ran (act_of (spc s)) (shared s) \<and> (act_of (spc s) \<noteq> [] \<longrightarrow> lock s = Some Server)"
  using assms by (cases rule: server_step.cases) (auto simp: hand_ok_def tsys_inv_def tpc_defs server_ran_def act_of_def)

lemma server_ran_append: "server_ran bs (server_ran acts ld) = server_ran (acts @ bs) ld"
  by (simp add: server_ran_def)

lemma so_far_server:
  assumes st: "server_step s t" and inv: "hand_ok s" and sf: "broadcast_so_far ld acts bs s"
  shows "broadcast_so_far ld (acts @ act_of (spc s)) bs t"
proof -
  have pc: "lpc t = lpc s" using st by (auto elim!: server_stepE)
  note ran = server_step_ran [OF st inv]
  show ?thesis
  proof (cases "lpc s")
    case (L_write i)
    then have "lock s = Some Sender" using inv by (auto simp: hand_ok_def tsys_inv_def tpc_defs)
    with ran have "act_of (spc s) = []" "shared t = shared s" by auto
    with L_write sf pc show ?thesis by (simp add: broadcast_so_far_def)
  next
    case L_checked
    with ran sf pc show ?thesis by (simp add: broadcast_so_far_def server_ran_append)
  qed (use sf in \<open>simp_all add: broadcast_so_far_def\<close>)
qed

lemma so_far_lock:
  "sender_step s t \<Longrightarrow> lpc s = L_checked \<Longrightarrow> broadcast_so_far ld acts bs s \<Longrightarrow> broadcast_so_far ld acts bs t"
  by (auto elim!: sender_stepE simp: broadcast_so_far_def)

lemma so_far_write:
  assumes st: "sender_step s t" and pc: "lpc s = L_write i" "i < clin (shared s)" and sf: "broadcast_so_far ld acts bs s"
  shows "broadcast_so_far ld acts (bs @ [lpc t = L_write (i + 1)]) t"
  using st
proof (cases rule: sender_step.cases)
  case (l_sent j)
  then show ?thesis using sf pc sends_sent by (auto simp: broadcast_so_far_def)
next
  case (l_drop j fd os h ld' h')
  then have "removed (shared s) (clis (shared s) ! i) ld'" using pc by (auto simp: removed_def)
  moreover have "sends bs (server_ran acts ld) 0 (shared s) i" using sf pc by (simp add: broadcast_so_far_def)
  ultimately have "sends (bs @ [False]) (server_ran acts ld) 0 ld' i" using pc(2) sends_drop by blast
  with l_drop pc show ?thesis by (simp add: broadcast_so_far_def)
qed (use pc in simp_all)

lemma trace_so_far:
  "broadcast_trace s acts bs t \<Longrightarrow> hand_ok s \<Longrightarrow> lpc s = L_checked \<Longrightarrow>
     broadcast_so_far (shared s) acts bs t \<and> hand_ok t"
proof (induction rule: broadcast_trace.induct)
  case bt_start
  then show ?case by (simp add: broadcast_so_far_def)
next
  case (bt_server acts bs t u)
  then show ?case using so_far_server [of t u] hand_ok_step [of t u] unfolding tstep_def by blast
next
  case (bt_lock acts bs t u)
  then show ?case using so_far_lock [of t u] hand_ok_step [of t u] unfolding tstep_def by blast
next
  case (bt_write acts bs t i u)
  then show ?case using so_far_write [of t u] hand_ok_step [of t u] unfolding tstep_def by blast
qed

section \<open>The answers\<close>

text \<open>
  The main thread moves before the mutex is locked, and the \<open>k\<close>-th write is whole or fails as \<open>bs ! k\<close> tells.
\<close>

definition writes :: "hist \<Rightarrow> nat" where
  "writes h = length (filter (\<lambda>e. \<not> no_write (fst e)) h)"

definition send_os :: "server_act list \<Rightarrow> bool list \<Rightarrow> os" where
  "send_os acts bs = quiet_os\<lparr>
     server_acts := (\<lambda>h. if length h = 1 then acts else []),
     ret := (\<lambda>h c. case c of Write fd b \<Rightarrow> if writes h < length bs \<and> bs ! writes h then int (length b) else -1 | _ \<Rightarrow> 0)\<rparr>"

lemma send_os_posix: "posix_write (send_os acts bs)"
  by (auto simp: posix_write_def send_os_def)

lemma send_os_write:
  assumes "msg \<noteq> []"
  shows "write_socket (send_os acts bs) fd msg h =
     (let n = if writes h < length bs \<and> bs ! writes h then int (length msg) else -1 in Inr (n, (Write fd msg, n) # h))"
  using assms by (auto simp: write_socket_def write_socket_loop.simps [of _ _ _ "_"] send_os_def Let_def retio_def)

lemma writes_simps [simp]:
  "writes [] = 0" "writes ((Write fd b, r) # h) = Suc (writes h)" "no_write c \<Longrightarrow> writes ((c, r) # h) = writes h"
  by (simp_all add: writes_def no_write_def)

lemma writes_remove:
  assumes "remove_client os ld fd h = Inr (ld', h')"
  shows "writes h' = writes h"
proof -
  obtain t where t: "h' = t @ h" "\<forall>e \<in> set t. close_call (fst e)"
    using callsD [OF calls_remove_client assms] by blast
  then have "filter (\<lambda>e. \<not> no_write (fst e)) t = []"
    by (auto simp: filter_empty_conv close_call_def no_write_def)
  then show ?thesis by (simp add: t(1) writes_def)
qed

lemma send_os_loop:
  assumes "sends cs ld i ld' i'" and "\<not> i' < clin ld'" and "msg \<noteq> []" and "ld_wf ld" and "bs = pre @ cs"
    and "writes h = length pre"
  shows "\<exists>h'. broadcast_loop (send_os acts bs) msg ld i h = Inr (ld', h')"
  using assms
proof (induction cs arbitrary: ld i pre h)
  case Nil
  then show ?case by (simp add: broadcast_loop.simps retio_def)
next
  case (Cons b cs)
  let ?os = "send_os acts bs" and ?fd = "clis ld ! i"
  let ?n = "if b then int (length msg) else -1"
  let ?h1 = "(Write ?fd msg, ?n) # h"
  have i: "i < clin ld" "\<not> length (clis ld) \<le> i" using Cons.prems(1,4) by (auto simp: ld_wf_def)
  have w: "write_socket ?os ?fd msg h = Inr (?n, ?h1)"
    using send_os_write [OF Cons.prems(3), of acts bs ?fd h] Cons.prems(5,6) by (simp add: Let_def nth_append)
  have pre: "bs = (pre @ [b]) @ cs" "writes ?h1 = length (pre @ [b])" using Cons.prems(5,6) by simp_all
  show ?case
  proof (cases b)
    case True
    then have "sends cs ld (i + 1) ld' i'" using Cons.prems(1) by simp
    from Cons.IH [OF this Cons.prems(2-4) pre] True i w show ?thesis by (subst broadcast_loop.simps) simp
  next
    case False
    then obtain ld1 where rm: "removed ld ?fd ld1" and rest: "sends cs ld1 i ld' i'" using Cons.prems(1) by auto
    obtain h2 where run: "remove_client ?os ld ?fd ?h1 = Inr (ld1, h2)"
      using rm remove_client_any unfolding removed_def by blast
    have "?fd \<in> set (clients ld)" using i(1) Cons.prems(4) by (simp add: clients_nth)
    from remove_client_ok [OF Cons.prems(4) this, of ?os ?h1] run have wf: "ld_wf ld1" by (simp add: wp_def)
    have "writes h2 = length (pre @ [b])" using writes_remove [OF run] pre(2) by simp
    from Cons.IH [OF rest Cons.prems(2,3) wf pre(1) this] False i w run Cons.prems(3)
    show ?thesis by (subst broadcast_loop.simps) simp
  qed
qed

lemma send_os_run:
  assumes "sends bs (server_ran acts ld) 0 ld' i" and "\<not> i < clin ld'" and wf: "ld_wf ld" and room: "clin ld < MAX_CLIENTS"
    and len: "length (lirc_line c rep name) < 100"
  shows "\<exists>h'. broadcastToLirc (send_os acts bs) ld name rep c [] = Inr (ld', h')"
proof -
  let ?os = "send_os acts bs"
  let ?h = "[(Lock Data_mutex, ret ?os [] (Lock Data_mutex))]"
  obtain cfg where cfg: "config ld = Some cfg" and magic: "magic0 ld = 0x15" using wf by (auto simp: ld_wf_def)
  have msg: "lirc_line c rep name \<noteq> []" by (simp add: lirc_line_def)
  have acts: "server_acts ?os [] = []" "server_acts ?os ?h = acts" by (simp_all add: send_os_def)
  obtain h' where loop: "broadcast_loop ?os (lirc_line c rep name) (server_ran acts ld) 0 ?h = Inr (ld', h')"
    using send_os_loop [OF assms(1,2) msg server_ran_wf [OF wf], of bs "[]" ?h acts] by (auto simp: no_write_def)
  have "wp (broadcastToLirc ?os ld name rep c) (\<lambda>r _. r = ld') (\<lambda>_. False) []"
    using cfg magic room len by (simp add: broadcastToLirc_def wp_simps Let_def acts) (simp add: wp_def loop)
  then show ?thesis by (auto simp: wp_def split: sum.splits prod.splits)
qed

section \<open>Properties\<close>

text \<open>
  C13: Every interleaved broadcast is the run of the function that its record describes. Between the assertion on the number
  of clients and the point where the LIRC thread is through with the table, let the main thread admit clients and empty the
  table and let writes come short in any way, and record what the main thread did and which clients got the whole line. Then
  \<open>broadcastToLirc\<close>, started on the table as it was at the assertion, on a system in which the main thread does exactly
  this before the mutex is locked and the \<open>k\<close>-th write is whole or fails as recorded, gives exactly the table of the
  interleaved threads. Every such interleaving has a record.
\<close>

theorem interleaved_broadcast_is_a_run:
  assumes "reach tinit tstep s" and "lpc s = L_idle" and "clin (shared s) < MAX_CLIENTS"
    and "broadcast_trace (s\<lparr>lpc := L_checked\<rparr>) acts bs t" and "lpc t = L_write i" and "\<not> i < clin (shared t)"
    and "length (lirc_line c rep name) < 100"
  shows "\<exists>h'. broadcastToLirc (send_os acts bs) (shared s) name rep c [] = Inr (shared t, h')"
proof -
  have inv: "hand_ok s" using assms(1) by (rule tl.reach_inv)
  have "sender_step s (s\<lparr>lpc := L_checked\<rparr>)" using assms(2,3) by (rule l_check)
  then have "hand_ok (s\<lparr>lpc := L_checked\<rparr>)" using hand_ok_step [of s] inv by (simp add: tstep_def)
  from trace_so_far [OF assms(4) this] have "sends bs (server_ran acts (shared s)) 0 (shared t) i"
    using assms(5) by (auto simp: broadcast_so_far_def)
  moreover have "ld_wf (shared s)" using inv by (simp add: hand_ok_def tsys_inv_def)
  ultimately show ?thesis using send_os_run assms(3,6,7) by blast
qed

text \<open>A client that does not take the line is dropped.\<close>

theorem interleaved_broadcast_is_a_run_witness:
  "\<exists>(s :: tsys) ld' h'. clin (shared s) = 1 \<and> clin ld' = 0 \<and>
     broadcastToLirc (send_os [] [False]) (shared s) ''up'' 0 0x54 [] = Inr (ld', h')"
proof -
  obtain s where s: "reach tinit tstep s" "clin (shared s) = 1" "lock s = None" "lpc s = L_idle"
    using reach_clients [of 1] by (auto simp: MAX_CLIENTS_def)
  have wf: "ld_wf (shared s)" using tl.reach_inv [OF s(1)] by (simp add: hand_ok_def tsys_inv_def)
  let ?fd = "clis (shared s) ! 0"
  have "?fd \<in> set (clients (shared s))" using s(2) wf by (simp add: clients_nth)
  from remove_client_ok [OF wf this, of quiet_os "[]"] s(2) obtain ld' h' where
    rm: "remove_client quiet_os (shared s) ?fd [] = Inr (ld', h')" and n: "clin ld' = 0"
    by (auto simp: wp_def split: sum.splits)
  let ?s1 = "s\<lparr>lpc := L_checked\<rparr>"
  let ?s2 = "?s1\<lparr>lock := Some Sender, lpc := L_write 0\<rparr>"
  let ?s3 = "?s2\<lparr>shared := ld', closed := ?fd # closed ?s2\<rparr>"
  have "sender_step ?s1 ?s2" using l_lock [of ?s1] s(3) by simp
  from bt_lock [OF bt_start _ this] have tr: "broadcast_trace ?s1 [] [] ?s2" by simp
  have "sender_step ?s2 ?s3" using l_drop [of ?s2 0 ?fd quiet_os "[]" ld' h'] s(2) rm by simp
  from bt_write [OF tr _ _ this, of 0] s(2) have run: "broadcast_trace ?s1 [] [False] ?s3" by simp
  have room: "clin (shared s) < MAX_CLIENTS" using s(2) by (simp add: MAX_CLIENTS_def)
  have len: "length (lirc_line 0x54 0 ''up'') < 100" by (simp add: length_line_eq)
  from interleaved_broadcast_is_a_run [OF s(1) s(4) room run _ _ len, of 0] n
  obtain h2 where "broadcastToLirc (send_os [] [False]) (shared s) ''up'' 0 0x54 [] = Inr (ld', h2)" by auto
  with n s(2) show ?thesis by blast
qed

end
