(* ===== verification/Remote.thy ===== *)
theory Remote
  imports Lirc_Thr
begin

text \<open>
  The remote as its users see it, as an abstract state machine, and the proof that the LIRC thread of
  \<^verbatim>\<open>src/lirc_thr.c\<close> implements it: packet by packet (\<open>react\<close>), pass by pass, and from the
  start of the thread to its end (\<open>remote_run\<close>).
\<close>

section \<open>What the remote does: the specification\<close>

text \<open>
  The remote as a client should see it. Either every key is up, or one key is held down and has been
  repeated \<open>n\<close> times; key -1 stands for a key that is not in the table.
\<close>

datatype remote = Up | Down int int

definition find_key :: "byte \<Rightarrow> nat option" where
  "find_key c = find (\<lambda>i. code (ps3remote_keys ! i) = ucast c) [0..<length ps3remote_keys]"

definition shown_name :: "configuration \<Rightarrow> int \<Rightarrow> string" where
  "shown_name cfg i =
     (let k = ps3remote_keys ! nat i in if lirc_namespace cfg \<noteq> 0 then name_lirc k else name_orig k)"

text \<open>What comes out: lines for the clients, events for the input device.\<close>

datatype out = Line string | Event int int

definition lines :: "out list \<Rightarrow> string" where
  "lines xs = concat (map (\<lambda>x. case x of Line l \<Rightarrow> l | Event k v \<Rightarrow> []) xs)"

definition events :: "out list \<Rightarrow> (int \<times> int) list" where
  "events xs = concat (map (\<lambda>x. case x of Line l \<Rightarrow> [] | Event k v \<Rightarrow> [(k, v)]) xs)"

definition event_for :: "configuration \<Rightarrow> int \<Rightarrow> int \<Rightarrow> out list" where
  "event_for cfg i v =
     (if event_out cfg \<noteq> 0
      then [Event (uint (ucast (event_code (ps3remote_keys ! nat i)) :: u16)) v] else [])"

lemma out_simps [simp]:
  "lines [] = []" "lines (Line l # xs) = l @ lines xs" "lines (Event k v # xs) = lines xs"
  "lines (xs @ ys) = lines xs @ lines ys"
  "events [] = []" "events (Line l # xs) = events xs" "events (Event k v # xs) = (k, v) # events xs"
  "events (xs @ ys) = events xs @ events ys"
  "lines (event_for cfg i v) = []"
  by (simp_all add: lines_def events_def event_for_def)

text \<open>A press, a release and a packet: the new state and what comes out.\<close>

definition press :: "configuration \<Rightarrow> remote \<Rightarrow> byte \<Rightarrow> remote \<times> out list" where
  "press cfg s c =
     (if c = 0xFF then (s, [])
      else case find_key c of
        None \<Rightarrow> (Down (-1) 0, [])
      | Some i \<Rightarrow> (Down (int i) 0, Line (lirc_line (ucast c) 0 (shown_name cfg (int i))) # event_for cfg (int i) 1))"

definition let_go :: "configuration \<Rightarrow> remote \<Rightarrow> byte \<Rightarrow> remote \<times> out list" where
  "let_go cfg s c =
     (case s of
        Up \<Rightarrow> (s, [])
      | Down i n \<Rightarrow>
          if c \<noteq> 0xFF \<or> i = -1 then (s, [])
          else (Up, (case release cfg of None \<Rightarrow> []
                    | Some suffix \<Rightarrow> [Line (lirc_line 0xFF 0 (shown_name cfg i @ suffix))]) @
                  event_for cfg i 0))"

definition react :: "configuration \<Rightarrow> remote \<Rightarrow> byte list \<Rightarrow> remote \<times> out list" where
  "react cfg s m =
     (if length m \<noteq> 13 \<or> m ! 0 \<noteq> 0xa1 then (s, [])
      else if m ! 11 = 1 then press cfg s (m ! 5)
      else if m ! 11 = 0 then let_go cfg s (m ! 5)
      else (s, []))"

fun valid_remote :: "remote \<Rightarrow> bool" where
  "valid_remote Up = True"
| "valid_remote (Down i n) = (-1 \<le> i \<and> i < int ps3remote_num_keys)"

text \<open>How the struct \<open>keyState\<close> represents it; the count matters only when keys are repeated.\<close>

fun tracks :: "bool \<Rightarrow> remote \<Rightarrow> keyState \<Rightarrow> bool" where
  "tracks er Up ks = (keyDown ks = 0 \<and> lastKey ks = ps3remote_undef)"
| "tracks er (Down i n) ks = (keyDown ks = 1 \<and> lastKey ks = i \<and> (er \<longrightarrow> repeat_count ks = n))"

text \<open>The suffix of the release names leaves room for the longest name in the array \<open>msg\<close>.\<close>

definition suffix_fits :: "configuration \<Rightarrow> bool" where
  "suffix_fits cfg \<longleftrightarrow> (\<forall>sfx. release cfg = Some sfx \<longrightarrow> length sfx \<le> 61)"

lemma find_key_cases:
  obtains (known) i where "i < ps3remote_num_keys" "find_key c = Some i"
      "codeToIndex (ucast c) = int i" "code (ps3remote_keys ! i) = ucast c"
  | (unknown) "find_key c = None" "codeToIndex (ucast c) = ps3remote_undef"
proof (cases "ucast c :: u32" rule: codeToIndex_cases)
  case (known i)
  have "code (ps3remote_keys ! j) \<noteq> ucast c" if "j < i" for j
    using known codes_inj [of j i] that by auto
  with known have "find_key c = Some i"
    unfolding find_key_def find_Some_iff by (intro exI [of _ i]) auto
  with known show ?thesis by (auto intro: that(1))
next
  case unknown
  then have "find_key c = None"
    unfolding find_key_def find_None_iff by auto (metis image_eqI length_keys nth_mem)
  with unknown show ?thesis by (auto intro: that(2))
qed

lemma undef_simps [simp]: "ps3remote_undef = -1" "ps3remote_keyup = 0xFF"
  by (simp_all add: ps3remote_undef_def ps3remote_keyup_def)

lemma ucast_keyup: "ucast (c :: byte) = (0xFF :: u32) \<longleftrightarrow> c = 0xFF"
proof
  assume "ucast c = (0xFF :: u32)"
  then have "uint (ucast c :: u32) = uint (0xFF :: u32)" by simp
  then have "uint c = uint (0xFF :: byte)" by (simp add: uint_up_ucast is_up)
  then show "c = 0xFF" by (simp only: word_uint_eq_iff)
qed auto

lemma key_in_table:
  assumes "0 \<le> i" and "i < int ps3remote_num_keys"
  shows "key_at i = Inr (ps3remote_keys ! nat i)" "key_name cfg i = Inr (shown_name cfg i)"
    "length (shown_name cfg i) \<le> 16" "unat (code (ps3remote_keys ! nat i)) < 16 ^ 4"
proof -
  show at: "key_at i = Inr (ps3remote_keys ! nat i)" using assms by (simp add: key_at_Inr)
  then show "key_name cfg i = Inr (shown_name cfg i)" by (simp add: key_name_def shown_name_def Let_def)
  have "ps3remote_keys ! nat i \<in> set ps3remote_keys" using assms by simp
  with key_names have k: "length (name_orig (ps3remote_keys ! nat i)) \<le> 8"
      "length (name_lirc (ps3remote_keys ! nat i)) \<le> 16" "code (ps3remote_keys ! nat i) < 0x100"
    by auto
  then show "length (shown_name cfg i) \<le> 16" by (simp add: shown_name_def Let_def)
  from k(3) have "unat (code (ps3remote_keys ! nat i)) < 256" by (simp add: word_less_nat_alt)
  then show "unat (code (ps3remote_keys ! nat i)) < 16 ^ 4" by simp
qed

lemma send_event_ok:
  assumes "0 \<le> i" and "i < int ps3remote_num_keys"
  shows "wp (send_event os efd cfg i v)
     (\<lambda>_ h'. (\<exists>t. h' = t @ h) \<and> (\<forall>fd. sent fd h' = sent fd h) \<and>
        (\<forall>m. lock_depth m h' = lock_depth m h) \<and>
        key_events efd h' = key_events efd h @ (if efd \<noteq> -1 then events (event_for cfg i v) else []))
     (\<lambda>_. False) h"
  using assms by (simp add: send_event_def event_out_send_def key_in_table wp_simps event_for_def)

text \<open>A broadcast writes no key event.\<close>

lemma calls_broadcast: "calls no_event (broadcastToLirc os ld name rep c)"
proof -
  have "\<exists>t. h' = t @ h \<and> (\<forall>e \<in> set t. no_event (fst e))"
    if "broadcast_loop os msg ld i h = Inr (ld', h')" for msg ld i h ld' h'
    using that
  proof (induction os msg ld i h rule: broadcast_loop.induct)
    case (1 os msg ld i h)
    show ?case
    proof (cases "i < clin ld \<and> i < length (clis ld)")
      case False
      with "1.prems" show ?thesis
        by (subst (asm) (1) broadcast_loop.simps) (auto simp: retio_def stopio_def split: if_splits)
    next
      case True
      then have len: "\<not> length (clis ld) \<le> i" by simp
      from True "1.prems" obtain n h1 where w: "write_socket os (clis ld ! i) msg h = Inr (n, h1)"
        by (subst (asm) (1) broadcast_loop.simps) (auto split: sum.splits if_splits)
      have "no_event (Write fd b)" for fd b by (simp add: no_event_def)
      with callsD [OF calls_write_socket w] obtain t where
        t: "h1 = t @ h" "\<forall>e \<in> set t. no_event (fst e)" by metis
      show ?thesis
      proof (cases "n < int (length msg)")
        case less: True
        with True "1.prems" w obtain ld1 h2 where
          rm: "remove_client os ld (clis ld ! i) h1 = Inr (ld1, h2)"
          and rest: "broadcast_loop os msg ld1 i h2 = Inr (ld', h')"
          by (subst (asm) (1) broadcast_loop.simps) (auto split: sum.splits)
        have "\<And>c. close_call c \<Longrightarrow> no_event c" by (auto simp: close_call_def no_event_def)
        with callsD [OF calls_remove_client rm] obtain u where
          u: "h2 = u @ h1" "\<forall>e \<in> set u. no_event (fst e)" by blast
        from "1.IH"(1) [OF conjunct1 [OF True] len w refl less rm refl rest] obtain t' where
          "h' = t' @ h2" "\<forall>e \<in> set t'. no_event (fst e)" by blast
        with t u show ?thesis by (intro exI [of _ "t' @ u @ t"]) auto
      next
        case ge: False
        with True "1.prems" w have "broadcast_loop os msg ld (i + 1) h1 = Inr (ld', h')"
          by (subst (asm) (1) broadcast_loop.simps) simp
        from "1.IH"(2) [OF conjunct1 [OF True] len w refl ge this] obtain t' where
          "h' = t' @ h1" "\<forall>e \<in> set t'. no_event (fst e)" by blast
        with t show ?thesis by (intro exI [of _ "t' @ t"]) auto
      qed
    qed
  qed
  then have loop: "calls no_event (broadcast_loop os msg ld i)" for msg ld i
    by (auto simp: calls_def)
  show ?thesis
    unfolding broadcastToLirc_def look_def by (auto simp: no_event_def intro!: ext_intros loop)
qed

section \<open>One packet\<close>

text \<open>
  The effect of every step of the thread: the shared data stays valid, the locks are as before,
  a reliable client gets the lines and the input device the events of \<open>xs\<close>.
\<close>

definition step_ok ::
  "os \<Rightarrow> int \<Rightarrow> int \<Rightarrow> lirc_data \<Rightarrow> hist \<Rightarrow> out list \<Rightarrow> lirc_data \<Rightarrow> hist \<Rightarrow> bool" where
  "step_ok os fd efd ld h xs ld' h' \<longleftrightarrow>
     ld_wf ld' \<and> config ld' = config ld \<and> (\<forall>m. lock_depth m h' = lock_depth m h) \<and> (\<exists>t. h' = t @ h) \<and>
     (roomy os ld \<longrightarrow> roomy os ld') \<and>
     key_events efd h' = key_events efd h @ (if efd \<noteq> -1 then events xs else []) \<and>
     (reliable os fd \<and> count_list (clients ld) fd = 1 \<longrightarrow>
        count_list (clients ld') fd = 1 \<and> sent fd h' = sent fd h @ lines xs)"

lemma step_ok_refl: "ld_wf ld \<Longrightarrow> step_ok os fd efd ld h [] ld h"
  by (simp add: step_ok_def)

lemma step_ok_trans:
  "step_ok os fd efd ld h xs ld1 h1 \<Longrightarrow> step_ok os fd efd ld1 h1 ys ld2 h2 \<Longrightarrow>
     step_ok os fd efd ld h (xs @ ys) ld2 h2"
  unfolding step_ok_def by fastforce

text \<open>Calls that write nothing and keep the locks.\<close>

lemma step_ok_silent:
  assumes "ld_wf ld" and "\<forall>m. lock_depth m (t @ h) = lock_depth m h"
    and "\<forall>e \<in> set t. no_write (fst e) \<and> no_event (fst e)"
  shows "step_ok os fd efd ld h [] ld (t @ h)"
  using assms by (simp add: step_ok_def sent_frame key_events_frame)

text \<open>The queue is not part of the table.\<close>

lemma step_ok_queue:
  "step_ok os fd efd (ld\<lparr>qu := q\<rparr>) h xs ld' h' \<longleftrightarrow> step_ok os fd efd ld h xs ld' h'"
  by (simp add: step_ok_def clients_def)

lemma broadcast_step:
  assumes "posix_write os" and "ld_wf ld" and "length (lirc_line c rep name) < 100"
  shows "wp (broadcastToLirc os ld name rep c)
     (\<lambda>ld' h'. step_ok os fd efd ld h [Line (lirc_line c rep name)] ld' h' \<and> qu ld' = qu ld)
     (\<lambda>e. e = Assertion \<and> \<not> roomy os ld) h"
proof (rule wp_mono [OF wp_calls [OF calls_broadcast broadcast_ok [OF assms, where fd = fd]]], goal_cases)
  case (1 ld' h')
  then have "ld' = ld\<lparr>clis := clis ld', clin := clin ld'\<rparr>" by blast
  then have "config ld' = config ld \<and> qu ld' = qu ld"
    by (metis lirc_data.ext_inject lirc_data.surjective lirc_data.update_convs(4,5))
  moreover have "key_events efd h' = key_events efd h" using 1 key_events_frame by blast
  ultimately show ?case using 1 by (simp add: step_ok_def)
qed simp

text \<open>An event after a line.\<close>

lemma send_event_step:
  assumes r: "0 \<le> i" "i < int ps3remote_num_keys" and st: "step_ok os fd efd ld h xs ld' h'"
  shows "wp (send_event os efd cfg i v)
     (\<lambda>_ h''. step_ok os fd efd ld h (xs @ event_for cfg i v) ld' h'') (\<lambda>_. False) h'"
  by (rule wp_mono [OF send_event_ok [OF r]]) (use st in \<open>auto simp: step_ok_def\<close>)

lemma keyDown_ok:
  assumes pw: "posix_write os" and wf: "ld_wf ld" and cfg: "config ld = Some cfg"
    and tr: "tracks er s ks" and val: "valid_remote s"
  shows "wp (DataInd_keyDown os efd ld (ucast (c :: byte)) ks)
     (\<lambda>(ld', ks') h'. step_ok os fd efd ld h (snd (press cfg s c)) ld' h' \<and> qu ld' = qu ld \<and>
        tracks er (fst (press cfg s c)) ks' \<and> valid_remote (fst (press cfg s c)) \<and> cl0 ks' = cl0 ks)
     (\<lambda>e. e = Assertion \<and> \<not> roomy os ld) h"
proof (cases "c = 0xFF")
  case True
  then show ?thesis
    using wf cfg tr val by (simp add: DataInd_keyDown_def wp_simps press_def step_ok_refl)
next
  case False
  then have nk: "ucast c \<noteq> (0xFF :: u32)" by (simp add: ucast_keyup)
  show ?thesis
  proof (cases c rule: find_key_cases)
    case unknown
    then show ?thesis
      using nk False wf cfg
      by (simp add: DataInd_keyDown_def wp_simps press_def step_ok_refl ps3remote_num_keys_def)
  next
    case (known i)
    then have r: "0 \<le> int i" "int i < int ps3remote_num_keys" by simp_all
    have len: "length (lirc_line (ucast c) 0 (shown_name cfg (int i))) < 100"
      using key_in_table(3) [OF r, of cfg] key_in_table(4) [OF r] known by (simp add: length_line_eq)
    show ?thesis
      using nk False known cfg key_in_table(1,2) [OF r]
      by (auto simp: DataInd_keyDown_def wp_simps press_def Let_def
          intro!: wp_mono [OF broadcast_step [OF pw wf len, where fd = fd and efd = efd]]
            wp_mono [OF send_event_step [OF r]])
  qed
qed

lemma keyUp_ok:
  assumes pw: "posix_write os" and wf: "ld_wf ld" and cfg: "config ld = Some cfg"
    and fits: "suffix_fits cfg" and tr: "tracks er s ks" and val: "valid_remote s"
  shows "wp (DataInd_keyUp os efd ld (ucast (c :: byte)) ks)
     (\<lambda>(ld', ks') h'. step_ok os fd efd ld h (snd (let_go cfg s c)) ld' h' \<and> qu ld' = qu ld \<and>
        tracks er (fst (let_go cfg s c)) ks' \<and> valid_remote (fst (let_go cfg s c)) \<and> cl0 ks' = cl0 ks)
     (\<lambda>e. e = Assertion \<and> \<not> roomy os ld) h"
proof (cases "c = 0xFF \<and> lastKey ks \<noteq> -1")
  case False
  then have "let_go cfg s c = (s, [])" using tr by (cases s) (auto simp: let_go_def)
  then show ?thesis
    using False wf cfg tr val
    by (auto simp: DataInd_keyUp_def wp_simps step_ok_refl ucast_keyup)
next
  case True
  let ?i = "lastKey ks"
  obtain n where s: "s = Down ?i n" and lk: "?i \<noteq> -1" using tr True by (cases s) auto
  then have r: "0 \<le> ?i" "?i < int ps3remote_num_keys" using val by (cases s; simp)+
  have nm: "length (shown_name cfg ?i) \<le> 16" by (rule key_in_table(3) [OF r])
  show ?thesis
  proof (cases "release cfg")
    case None
    then show ?thesis
      using True s lk cfg key_in_table(1,2) [OF r] wf
      by (auto simp: DataInd_keyUp_def wp_simps let_go_def
          intro!: wp_mono [OF send_event_step [OF r step_ok_refl]])
  next
    case (Some suffix)
    then have sf: "length suffix \<le> 61" using fits by (simp add: suffix_fits_def)
    have len: "length (lirc_line 0xFF 0 (shown_name cfg ?i @ suffix)) < 100"
      using nm sf by (simp add: length_line_eq)
    show ?thesis
      using True s lk cfg key_in_table(1,2) [OF r] Some nm sf
      by (auto simp: DataInd_keyUp_def wp_simps let_go_def
          intro!: wp_mono [OF broadcast_step [OF pw wf len, where fd = fd and efd = efd]]
            wp_mono [OF send_event_step [OF r]])
  qed
qed

text \<open>\<open>handleKey\<close> implements \<open>react\<close>.\<close>

lemma handleKey_ok:
  assumes "posix_write os" and "ld_wf ld" and "config ld = Some cfg" and "suffix_fits cfg"
    and "tracks er s ks" and "valid_remote s"
  shows "wp (handleKey os efd ld m (int (length m)) ks)
     (\<lambda>(ld', ks') h'. step_ok os fd efd ld h (snd (react cfg s m)) ld' h' \<and> qu ld' = qu ld \<and>
        tracks er (fst (react cfg s m)) ks' \<and> valid_remote (fst (react cfg s m)) \<and> cl0 ks' = cl0 ks)
     (\<lambda>e. e = Assertion \<and> \<not> roomy os ld) h"
proof -
  have magic: "magic0 ld = 0x15" using assms(2) by (simp add: ld_wf_def)
  consider (ignored) "length m \<noteq> 13 \<or> m ! 0 \<noteq> 0xa1 \<or> m ! 11 \<noteq> 1 \<and> m ! 11 \<noteq> 0"
    | (down) "length m = 13" "m ! 0 = 0xa1" "m ! 11 = 1"
    | (up) "length m = 13" "m ! 0 = 0xa1" "m ! 11 = 0" by blast
  then show ?thesis
  proof cases
    case ignored
    then have "react cfg s m = (s, [])" by (auto simp: react_def)
    then show ?thesis
      using ignored magic assms by (auto simp: handleKey_def wp_simps step_ok_refl)
  next
    case down
    then show ?thesis
      using magic keyDown_ok [OF assms(1,2,3,5,6), of efd "m ! 5" fd h]
      by (simp add: handleKey_def wp_simps react_def)
  next
    case up
    then show ?thesis
      using magic keyUp_ok [OF assms, of efd "m ! 5" fd h]
      by (simp add: handleKey_def wp_simps react_def)
  qed
qed

section \<open>Runs of the remote\<close>

text \<open>
  The packets \<open>ms\<close> handled one after the other from state \<open>s\<close> give the clients the lines
  and events \<open>ls\<close>. Every packet, even one that is ignored, starts the count of repeats again; between packets
  a key that is held can be repeated any number of times when the program was built to do so.
\<close>

fun rewind :: "remote \<Rightarrow> remote" where
  "rewind Up = Up"
| "rewind (Down i n) = Down i 0"

inductive remote_run ::
  "bool \<Rightarrow> configuration \<Rightarrow> remote \<Rightarrow> byte list list \<Rightarrow> out list \<Rightarrow> remote \<Rightarrow> bool"
  for er :: bool and cfg :: configuration and s0 :: remote where
  run_start: "remote_run er cfg s0 [] [] s0"
| run_packet: "remote_run er cfg s0 ms ls s \<Longrightarrow>
     remote_run er cfg s0 (ms @ [m]) (ls @ snd (react cfg s m)) (rewind (fst (react cfg s m)))"
| run_repeat: "remote_run er cfg s0 ms ls (Down i n) \<Longrightarrow> er \<Longrightarrow> 0 \<le> i \<Longrightarrow>
     remote_run er cfg s0 ms
       (ls @ Line (lirc_line (code (ps3remote_keys ! nat i)) n (shown_name cfg i)) # event_for cfg i 2)
       (Down i (n + 1))"

text \<open>
  The packets the thread is given: none is empty and, when keys are repeated, every key pressed is
  in the table.
\<close>

definition known_packet :: "byte list \<Rightarrow> bool" where
  "known_packet m \<longleftrightarrow>
     (length m = 13 \<and> m ! 0 = 0xa1 \<and> m ! 11 = 1 \<and> m ! 5 \<noteq> 0xFF \<longrightarrow> find_key (m ! 5) \<noteq> None)"

definition packet_ok :: "bool \<Rightarrow> byte list \<Rightarrow> bool" where
  "packet_ok er m \<longleftrightarrow> m \<noteq> [] \<and> (er \<longrightarrow> known_packet m)"

definition packets_ok :: "bool \<Rightarrow> os \<Rightarrow> bool" where
  "packets_ok er os \<longleftrightarrow> (\<forall>h. \<forall>m \<in> set (arrivals os h). packet_ok er m)"

lemma arrived_ok: "packets_ok er os \<Longrightarrow> arrived os ms \<Longrightarrow> \<forall>m \<in> set ms. packet_ok er m"
  by (auto simp: packets_ok_def arrived_def)

text \<open>The state of the thread: the key state is that of \<open>s\<close>, the queue holds the packets \<open>q\<close>.\<close>

definition held_known :: "bool \<Rightarrow> remote \<Rightarrow> bool" where
  "held_known er s \<longleftrightarrow> valid_remote s \<and> (\<forall>i n. er \<and> s = Down i n \<longrightarrow> 0 \<le> i \<and> 0 \<le> n \<and> c_int n)"

definition thr_ok ::
  "bool \<Rightarrow> configuration \<Rightarrow> remote \<Rightarrow> byte list list \<Rightarrow> lirc_data \<Rightarrow> keyState \<Rightarrow> bool" where
  "thr_ok er cfg s q ld ks \<longleftrightarrow>
     ld_wf ld \<and> config ld = Some cfg \<and> tracks er s ks \<and> held_known er s \<and>
     ring_list (qu ld) = map message q \<and> (\<forall>m \<in> set q. packet_ok er m)"

lemma held_known_react:
  assumes "held_known er s" and "packet_ok er m" and "valid_remote (fst (react cfg s m))"
  shows "held_known er (rewind (fst (react cfg s m)))"
proof -
  have v: "valid_remote (rewind s')" if "valid_remote s'" for s' using that by (cases s') auto
  have "0 \<le> i" if "er" and "fst (react cfg s m) = Down i n" for i n
  proof -
    have up: "fst (let_go cfg s c) = Up \<or> fst (let_go cfg s c) = s" for c
      by (auto simp: let_go_def split: remote.splits)
    have pr: "c \<noteq> 0xFF \<longrightarrow> find_key c \<noteq> None \<Longrightarrow>
        fst (press cfg s c) = s \<or> (\<exists>j. fst (press cfg s c) = Down (int j) 0)" for c
      by (auto simp: press_def)
    have "fst (react cfg s m) = s \<or> fst (react cfg s m) = Up \<or> (\<exists>j. fst (react cfg s m) = Down (int j) 0)"
      using up [of "m ! 5"] pr [of "m ! 5"] assms(2) that(1)
      by (auto simp: react_def packet_ok_def known_packet_def)
    then show ?thesis using that assms(1) by (auto simp: held_known_def)
  qed
  then show ?thesis
    using v [OF assms(3)] by (cases "fst (react cfg s m)") (auto simp: held_known_def c_int_def)
qed

lemma tracks_rewind:
  "tracks er s ks \<Longrightarrow> tracks er (rewind s) (ks\<lparr>cl0 := a, cl1 := b, elapsed := c, repeat_count := 0, done_waiting := 0\<rparr>)"
  by (cases s) auto

lemma tracks_norepeat: "tracks False s ks \<Longrightarrow> tracks False (rewind s) ks"
  by (cases s) auto

lemma wp_reset_repeat [wp_simps]:
  "wp (reset_repeat os ks) P E h =
     P (ks\<lparr>cl0 := clock os h, cl1 := clock os h, elapsed := 0, repeat_count := 0, done_waiting := 0\<rparr>)
       ((Gettimeofday, ret os h Gettimeofday) # h)"
  by (simp add: reset_repeat_def wp_simps)

lemma wp_hear [wp_simps]:
  "wp (hear os ld) P E h = P (ld\<lparr>qu := producer_ran (arrivals os h) (qu ld)\<rparr>) h"
  by (simp add: hear_def wp_simps)

section \<open>The thread implements the specification\<close>

text \<open>
  What the thread relies on: the documented behaviour of \<open>write\<close> and of the clock, packets that
  are not empty, and a release suffix that fits.
\<close>

definition thr_env :: "bool \<Rightarrow> configuration \<Rightarrow> os \<Rightarrow> bool" where
  "thr_env er cfg os \<longleftrightarrow> posix_write os \<and> posix_clock os \<and> packets_ok er os \<and> suffix_fits cfg"

text \<open>
  When keys are repeated the stop watch asserts that the clock has not run backwards. It has not when the
  seconds of later readings are never less.
\<close>

definition steady :: "os \<Rightarrow> bool" where
  "steady os \<longleftrightarrow> (\<forall>h t. tv_sec (clock os h) \<le> tv_sec (clock os (t @ h)))"

definition timely :: "bool \<Rightarrow> os \<Rightarrow> keyState \<Rightarrow> hist \<Rightarrow> bool" where
  "timely er os ks h \<longleftrightarrow> (er \<longrightarrow> steady os \<and> tv_sec (cl0 ks) \<le> tv_sec (clock os h))"

lemma timely_later:
  assumes "timely er os ks h" and "cl0 ks' = cl0 ks \<or> cl0 ks' = clock os h1" and "h' = t @ h" and "h' = u @ h1"
  shows "timely er os ks' h'"
proof -
  have "tv_sec (clock os h) \<le> tv_sec (clock os h')" "tv_sec (clock os h1) \<le> tv_sec (clock os h')" if er
    using assms(1) that unfolding timely_def steady_def by (simp add: assms(3), simp add: assms(4))
  then have "tv_sec (cl0 ks) \<le> tv_sec (clock os h')" "tv_sec (clock os h1) \<le> tv_sec (clock os h')" if er
    using assms(1) that unfolding timely_def by fastforce+
  then show ?thesis using assms(1,2) by (auto simp: timely_def)
qed

lemma timely_ext: "timely er os ks h \<Longrightarrow> cl0 ks' = cl0 ks \<Longrightarrow> timely er os ks' (t @ h)"
  using timely_later [of er os ks h ks' h "t @ h" t t] by simp

lemma timely_after:
  "timely er os ks h \<Longrightarrow> cl0 ks' = cl0 ks \<Longrightarrow> step_ok os fd efd ld h xs ld' h' \<Longrightarrow> timely er os ks' h'"
  unfolding step_ok_def using timely_ext by blast

text \<open>
  From state \<open>s\<close> with the packets \<open>q\<close> queued, a part of the thread ended with \<open>ld'\<close>,
  \<open>ks'\<close> and \<open>h'\<close>: the packets it took, and those that arrived meanwhile, are accounted for, and
  what came out is a run of the specification.
\<close>

definition thr_step ::
  "bool \<Rightarrow> configuration \<Rightarrow> os \<Rightarrow> int \<Rightarrow> int \<Rightarrow> remote \<Rightarrow> byte list list \<Rightarrow> lirc_data \<Rightarrow> keyState \<Rightarrow> hist \<Rightarrow>
     lirc_data \<Rightarrow> keyState \<Rightarrow> hist \<Rightarrow> bool" where
  "thr_step er cfg os fd efd s q ld ks h ld' ks' h' \<longleftrightarrow>
     (\<exists>new q' ms xs s'. arrived os new \<and> q @ new = ms @ q' \<and> thr_ok er cfg s' q' ld' ks' \<and>
        step_ok os fd efd ld h xs ld' h' \<and> (timely er os ks h \<longrightarrow> timely er os ks' h') \<and>
        (\<forall>s0 ms0 xs0. remote_run er cfg s0 ms0 xs0 s \<longrightarrow> remote_run er cfg s0 (ms0 @ ms) (xs0 @ xs) s'))"

lemma thr_step_refl: "thr_ok er cfg s q ld ks \<Longrightarrow> thr_step er cfg os fd efd s q ld ks h ld ks h"
  unfolding thr_step_def
  by (intro exI [of _ "[]"] exI [of _ q] exI [of _ s]) (auto simp: thr_ok_def step_ok_refl)

lemma thr_step_trans:
  assumes "thr_step er cfg os fd efd s q ld ks h ld1 ks1 h1"
    and "\<And>s1 q1. thr_ok er cfg s1 q1 ld1 ks1 \<Longrightarrow> thr_step er cfg os fd efd s1 q1 ld1 ks1 h1 ld2 ks2 h2"
  shows "thr_step er cfg os fd efd s q ld ks h ld2 ks2 h2"
proof -
  obtain n1 q1 m1 x1 s1 where 1: "arrived os n1" "q @ n1 = m1 @ q1" "thr_ok er cfg s1 q1 ld1 ks1"
    "step_ok os fd efd ld h x1 ld1 h1"
    "timely er os ks h \<longrightarrow> timely er os ks1 h1"
    "\<forall>s0 ms0 xs0. remote_run er cfg s0 ms0 xs0 s \<longrightarrow> remote_run er cfg s0 (ms0 @ m1) (xs0 @ x1) s1"
    using assms(1) unfolding thr_step_def by blast
  obtain n2 q2 m2 x2 s2 where 2: "arrived os n2" "q1 @ n2 = m2 @ q2" "thr_ok er cfg s2 q2 ld2 ks2"
    "step_ok os fd efd ld1 h1 x2 ld2 h2"
    "timely er os ks1 h1 \<longrightarrow> timely er os ks2 h2"
    "\<forall>s0 ms0 xs0. remote_run er cfg s0 ms0 xs0 s1 \<longrightarrow> remote_run er cfg s0 (ms0 @ m2) (xs0 @ x2) s2"
    using assms(2) [OF 1(3)] unfolding thr_step_def by blast
  have "q @ n1 @ n2 = (m1 @ m2) @ q2" using 1(2) 2(2) by (metis append.assoc)
  moreover have "remote_run er cfg s0 ms0 xs0 s \<longrightarrow> remote_run er cfg s0 (ms0 @ m1 @ m2) (xs0 @ x1 @ x2) s2"
    for s0 ms0 xs0
    using 1(6) 2(6) by (metis append.assoc)
  moreover have "step_ok os fd efd ld h (x1 @ x2) ld2 h2" using 1(4) 2(4) by (rule step_ok_trans)
  ultimately show ?thesis
    unfolding thr_step_def using 1(1,5) 2(1,3,5)
    by (intro exI [of _ "n1 @ n2"] exI [of _ q2] exI [of _ "m1 @ m2"] exI [of _ "x1 @ x2"] exI [of _ s2]) auto
qed

lemma thr_step_before:
  assumes st: "step_ok os fd efd ld h [] ld h1" and tm: "timely er os ks h \<longrightarrow> timely er os ks1 h1"
    and ts: "thr_step er cfg os fd efd s q ld ks1 h1 ld' ks' h'"
  shows "thr_step er cfg os fd efd s q ld ks h ld' ks' h'"
proof -
  have "step_ok os fd efd ld h1 xs l h' \<Longrightarrow> step_ok os fd efd ld h xs l h'" for xs l
    using step_ok_trans [OF st, of xs l h'] by simp
  with tm ts show ?thesis
    unfolding thr_step_def by (elim exE conjE) (intro exI conjI; blast)
qed

lemma queue_silent: "queue_call c \<Longrightarrow> no_write c \<and> no_event c"
  by (auto simp: queue_call_def no_write_def no_event_def)

text \<open>Taking a message off the queue, with what arrives before and during the call.\<close>

lemma take_packet:
  assumes env: "thr_env er cfg os" and ok: "thr_ok er cfg s q ld ks"
  shows "wp (queueRemNonBlock os fuel (producer_ran (arrivals os h) (qu ld)) blockInMs None)
     (\<lambda>(r, x, q') h'. \<exists>new q1. arrived os new \<and>
        (r = Q_OK \<and> (\<exists>m. x = Some (message m) \<and> q @ new = m # q1) \<or> r = Q_ERR \<and> q @ new = q1) \<and>
        ring_inv q' \<and> ring_list q' = map message q1 \<and>
        step_ok os fd efd ld h [] ld h')
     (\<lambda>e. e = Out_of_fuel \<and> \<not> prompt os fuel blockInMs) h"
proof -
  let ?q = "producer_ran (arrivals os h) (qu ld)"
  have wf: "ld_wf ld" and rl: "ring_list (qu ld) = map message q" using ok by (simp_all add: thr_ok_def)
  then have inv: "ring_inv (qu ld)" by (simp add: ld_wf_def)
  then have inv': "ring_inv ?q" by (rule producer_ran_inv)
  obtain k where k: "ring_list ?q = map message (q @ take k (arrivals os h))"
    using producer_ran_list [OF inv, of "arrivals os h"] rl by auto
  have clk: "posix_clock os" using env by (simp add: thr_env_def)
  have n: "0 \<le> blockInMs" "c_int (blockInMs * 1000000)" by (simp_all add: blockInMs_def c_int_def)
  have inj: "map message xs = map message ys \<Longrightarrow> xs = ys" for xs ys
    by (rule map_injective) (auto simp: inj_def message_def)
  have hd: "\<exists>m q1. x = message m \<and> xs = m # q1 \<and> r = map message q1" if "map message xs = x # r" for xs x r
    using that by (cases xs) auto
  have split: "\<exists>new q1. arrived os new \<and>
        (r = Q_OK \<and> (\<exists>m. x = Some (message m) \<and> q @ new = m # q1) \<or> r = Q_ERR \<and> q @ new = q1) \<and>
        ring_list q' = map message q1"
    if "arrived os ms" and "r = Q_OK \<and> x \<noteq> None \<and> ring_list ?q @ map message ms = the x # ring_list q' \<or>
              r = Q_ERR \<and> x = None \<and> ring_list q' = ring_list ?q @ map message ms" for ms r x q'
  proof -
    have new: "arrived os (take k (arrivals os h) @ ms)" using that(1) by (simp add: arrived_take)
    from that(2) show ?thesis
    proof
      assume a: "r = Q_OK \<and> x \<noteq> None \<and> ring_list ?q @ map message ms = the x # ring_list q'"
      then have "map message (q @ take k (arrivals os h) @ ms) = the x # ring_list q'" by (simp add: k)
      from hd [OF this] a new show ?thesis by fastforce
    next
      assume "r = Q_ERR \<and> x = None \<and> ring_list q' = ring_list ?q @ map message ms"
      then have "r = Q_ERR \<and> ring_list q' = map message (q @ take k (arrivals os h) @ ms)" by (simp add: k)
      with new show ?thesis by blast
    qed
  qed
  have silent: "step_ok os fd efd ld h [] ld h'"
    if "\<exists>t. h' = t @ h \<and> (\<forall>e \<in> set t. queue_call (fst e))" and "\<forall>m. lock_depth m h' = lock_depth m h" for h'
    using that step_ok_silent [OF wf] queue_silent by blast
  have "wp (queueRemNonBlock os fuel ?q blockInMs None)
     (\<lambda>(r, x, q') h'. \<exists>new q1. arrived os new \<and>
        (r = Q_OK \<and> (\<exists>m. x = Some (message m) \<and> q @ new = m # q1) \<or> r = Q_ERR \<and> q @ new = q1) \<and>
        ring_inv q' \<and> ring_list q' = map message q1 \<and> step_ok os fd efd ld h [] ld h')
     (\<lambda>e. e = Out_of_fuel \<and> empty ?q \<noteq> 0) h"
  proof (rule wp_mono [OF wp_calls [OF calls_queue_ops(2)
        queueRemNonBlock_ok [OF inv' n clk, of fuel h]]], goal_cases)
    case (1 res h')
    obtain r x q' where res: "res = (r, x, q')" by (cases res) auto
    with 1 obtain ms where "arrived os ms" and
      "r = Q_OK \<and> x \<noteq> None \<and> ring_list ?q @ map message ms = the x # ring_list q' \<or>
       r = Q_ERR \<and> x = None \<and> ring_list q' = ring_list ?q @ map message ms" by auto
    from split [OF this] silent [of h'] 1 res show ?case by fastforce
  qed simp
  then show ?thesis
    by (rule wp_stops) (use prompt_returns [OF _ inv'] in blast)
qed

definition thr_stop :: "bool \<Rightarrow> os \<Rightarrow> nat \<Rightarrow> lirc_data \<Rightarrow> keyState \<Rightarrow> hist \<Rightarrow> stop \<Rightarrow> bool" where
  "thr_stop er os fuel ld ks h e \<longleftrightarrow> e = Assertion \<and> \<not> (roomy os ld \<and> timely er os ks h) \<or>
     er \<and> e = Int_overflow \<and> 2 ^ 31 \<le> Suc (nat (repeat_count ks)) \<or> e = Out_of_fuel \<and> \<not> prompt os fuel blockInMs"

lemma deinit_message [simp]: "m \<noteq> [] \<Longrightarrow> queueDataDeInit (message m) = Inr ()"
  by (simp add: queueDataDeInit_def message_def)

lemma message_simps [simp]: "buffer (message m) = Some m" "size_of (message m) = int (length m)"
  by (simp_all add: message_def)

text \<open>Handling a packet and starting the stop watch again.\<close>

lemma time_silent: "ld_wf ld \<Longrightarrow> step_ok os fd efd ld h [] ld ((Gettimeofday, r) # h)"
  using step_ok_silent [of ld "[(Gettimeofday, r)]" h] by (simp add: no_write_def no_event_def)

lemma handle_ok:
  assumes env: "thr_env er cfg os" and tr: "tracks er s ks" and held: "held_known er s"
    and wf: "ld_wf ld" and cfg: "config ld = Some cfg" and m: "packet_ok er m"
  shows "wp (lirc_handle os er efd ld (message m) ks)
     (\<lambda>(ld', ks') h'. step_ok os fd efd ld h (snd (react cfg s m)) ld' h' \<and> qu ld' = qu ld \<and>
        tracks er (rewind (fst (react cfg s m))) ks' \<and> held_known er (rewind (fst (react cfg s m))) \<and>
        (timely er os ks h \<longrightarrow> timely er os ks' h'))
     (\<lambda>e. e = Assertion \<and> \<not> roomy os ld) h"
proof -
  have pw: "posix_write os" and fits: "suffix_fits cfg" using env by (simp_all add: thr_env_def)
  have val: "valid_remote s" using held by (simp add: held_known_def)
  have ne: "m \<noteq> []" using m by (simp add: packet_ok_def)
  let ?s = "rewind (fst (react cfg s m))"
  have "wp (bindio (handleKey os efd ld m (int (length m)) ks) (\<lambda>(ld, ks).
       seqio (liftio (queueDataDeInit (message m)))
         (if er then bindio (reset_repeat os ks) (\<lambda>ks. retio (ld, ks)) else retio (ld, ks))))
     (\<lambda>(ld', ks') h'. step_ok os fd efd ld h (snd (react cfg s m)) ld' h' \<and> qu ld' = qu ld \<and>
        tracks er ?s ks' \<and> held_known er ?s \<and> (timely er os ks h \<longrightarrow> timely er os ks' h')) (\<lambda>e. e = Assertion \<and> \<not> roomy os ld) h"
    unfolding wp_bindio
  proof (rule wp_mono [OF handleKey_ok [OF pw wf cfg fits tr val, where fd = fd]], goal_cases)
    case (1 res h2)
    obtain ld' ks' where res: "res = (ld', ks')" by (cases res) auto
    with 1 have hk: "step_ok os fd efd ld h (snd (react cfg s m)) ld' h2" "qu ld' = qu ld"
      "tracks er (fst (react cfg s m)) ks'" "valid_remote (fst (react cfg s m))" "cl0 ks' = cl0 ks" by auto
    then have wf': "ld_wf ld'" by (simp add: step_ok_def)
    have time: "step_ok os fd efd ld h (snd (react cfg s m)) ld' ((Gettimeofday, r) # h2)" for r
      using step_ok_trans [OF hk(1) time_silent [OF wf']] by simp
    obtain t where h2: "h2 = t @ h" using hk(1) by (auto simp: step_ok_def)
    have tm: "timely er os ks h \<longrightarrow> timely er os ks' h2"
        "timely er os ks h \<longrightarrow> timely er os (ks'\<lparr>cl0 := clock os h2, cl1 := a, elapsed := b, repeat_count := c, done_waiting := d\<rparr>) (x # h2)"
      for a b c d x
      using timely_ext [of er os ks h ks' t]
        timely_later [of er os ks h "ks'\<lparr>cl0 := clock os h2, cl1 := a, elapsed := b, repeat_count := c, done_waiting := d\<rparr>" h2 "x # h2" "x # t" "[x]"]
        hk(5) h2 by auto
    note kn = held_known_react [OF held m hk(4)]
    show ?case
      using res ne hk kn time tm tracks_rewind [OF hk(3)] tracks_norepeat by (auto simp: wp_simps)
  qed simp
  then show ?thesis by (simp add: lirc_handle_def wp_simps)
qed

lemma packet_step:
  assumes env: "thr_env er cfg os" and tr: "tracks er s ks" and held: "held_known er s"
    and wf: "ld_wf ld1" and cfg: "config ld1 = Some cfg" and m: "packet_ok er m"
    and q1: "ring_list (qu ld1) = map message q1" "\<forall>m \<in> set q1. packet_ok er m"
    and st: "step_ok os fd efd ld h [] ld1 h1" and new: "arrived os new" "q @ new = m # q1"
  shows "wp (lirc_handle os er efd ld1 (message m) ks)
     (\<lambda>(ld', ks') h'. thr_step er cfg os fd efd s q ld ks h ld' ks' h') (thr_stop er os fuel ld ks h) h1"
proof (rule wp_mono [OF handle_ok [OF env tr held wf cfg m, where fd = fd]], goal_cases)
  case (1 res h')
  let ?s = "rewind (fst (react cfg s m))"
  obtain ld' ks' where res: "res = (ld', ks')" by (cases res) auto
  with 1 have hk: "step_ok os fd efd ld1 h1 (snd (react cfg s m)) ld' h'" "qu ld' = qu ld1"
    "tracks er ?s ks'" "held_known er ?s" "timely er os ks h1 \<longrightarrow> timely er os ks' h'" by auto
  moreover have "timely er os ks h \<longrightarrow> timely er os ks h1" using timely_after [OF _ refl st] by blast
  ultimately have tm: "timely er os ks h \<longrightarrow> timely er os ks' h'" by blast
  have "step_ok os fd efd ld h (snd (react cfg s m)) ld' h'"
    using step_ok_trans [OF st hk(1)] by simp
  moreover have "thr_ok er cfg ?s q1 ld' ks'"
    using hk q1 cfg by (auto simp: thr_ok_def step_ok_def)
  moreover have "remote_run er cfg s0 (ms0 @ [m]) (xs0 @ snd (react cfg s m)) ?s"
    if "remote_run er cfg s0 ms0 xs0 s" for s0 ms0 xs0 using that by (rule run_packet)
  ultimately have "thr_step er cfg os fd efd s q ld ks h ld' ks' h'"
    unfolding thr_step_def using new tm
    by (intro exI [of _ new] exI [of _ q1] exI [of _ "[m]"] exI [of _ "snd (react cfg s m)"] exI [of _ ?s]) auto
  then show ?case by (simp add: res)
qed (use st in \<open>auto simp: thr_stop_def step_ok_def\<close>)

lemma receive_ok:
  assumes env: "thr_env er cfg os" and ok: "thr_ok er cfg s q ld ks"
  shows "wp (lirc_receive os fuel er efd ld ks)
     (\<lambda>(ld', ks') h'. thr_step er cfg os fd efd s q ld ks h ld' ks' h') (thr_stop er os fuel ld ks h) h"
proof -
  have tr: "tracks er s ks" and held: "held_known er s" and wf: "ld_wf ld" and cfg: "config ld = Some cfg"
    and qok: "\<forall>m \<in> set q. packet_ok er m" using ok by (simp_all add: thr_ok_def)
  have pk: "packets_ok er os" using env by (simp add: thr_env_def)
  have wf1: "ld_wf (ld\<lparr>qu := q'\<rparr>)" if "ring_inv q'" for q' using wf that by (simp add: ld_wf_def)
  show ?thesis
    unfolding lirc_receive_def wp_bindio wp_hear
  proof (simp, rule wp_mono [OF take_packet [OF env ok, where fd = fd and efd = efd]], goal_cases)
    case (1 res h1)
    obtain r x q' where res: "res = (r, x, q')" by (cases res) auto
    with 1 obtain new q1 where new: "arrived os new"
      and cs: "r = Q_OK \<and> (\<exists>m. x = Some (message m) \<and> q @ new = m # q1) \<or> r = Q_ERR \<and> q @ new = q1"
      and inv: "ring_inv q'" and rl: "ring_list q' = map message q1"
      and st: "step_ok os fd efd ld h [] ld h1" by auto
    have all: "\<forall>m \<in> set (q @ new). packet_ok er m" using qok arrived_ok [OF pk new] by auto
    have st1: "step_ok os fd efd ld h [] (ld\<lparr>qu := q'\<rparr>) h1"
      using st wf1 [OF inv] by (simp add: step_ok_def clients_def)
    from cs show ?case
    proof
      assume "r = Q_OK \<and> (\<exists>m. x = Some (message m) \<and> q @ new = m # q1)"
      then obtain m where r: "r = Q_OK" and x: "x = Some (message m)" and m: "q @ new = m # q1" by blast
      have "packet_ok er m" "\<forall>m \<in> set q1. packet_ok er m" using all unfolding m by auto
      from packet_step [OF env tr held wf1 [OF inv] _ this(1) _ this(2) st1 new m, of fuel] cfg rl r x res
      show ?thesis by (simp add: wp_simps)
    next
      assume r: "r = Q_ERR \<and> q @ new = q1"
      then have "thr_ok er cfg s q1 (ld\<lparr>qu := q'\<rparr>) ks"
        using wf1 [OF inv] cfg tr held rl all by (simp add: thr_ok_def)
      then have "thr_step er cfg os fd efd s q ld ks h (ld\<lparr>qu := q'\<rparr>) ks h1"
        unfolding thr_step_def using new r st1 timely_after [OF _ refl st1]
        by (intro exI [of _ new] exI [of _ q1] exI [of _ "[]"] exI [of _ s]) auto
      with r res show ?thesis by (simp add: wp_simps Q_OK_def Q_ERR_def)
    qed
  qed (simp add: thr_stop_def)
qed

text \<open>The repeat part.\<close>

lemma repeat_ok:
  assumes env: "thr_env True cfg os" and ok: "thr_ok True cfg s q ld ks" and down: "keyDown ks = 1"
  shows "wp (lirc_repeat os efd ld ks)
     (\<lambda>(ld', ks') h'. thr_step True cfg os fd efd s q ld ks h ld' ks' h')
     (\<lambda>e. e = Assertion \<and> \<not> (roomy os ld \<and> timely True os ks h) \<or> e = Int_overflow \<and> \<not> c_int (repeat_count ks + 1)) h"
proof -
  have pw: "posix_write os" using env by (simp add: thr_env_def)
  have tr: "tracks True s ks" and held: "held_known True s" and wf: "ld_wf ld"
    and cfg: "config ld = Some cfg" using ok by (simp_all add: thr_ok_def)
  obtain i n where s: "s = Down i n" using tr down by (cases s) auto
  then have lk: "lastKey ks = i" and rc: "repeat_count ks = n" using tr by auto
  have r: "0 \<le> i" "i < int ps3remote_num_keys" and n: "0 \<le> n" "c_int n"
    using held s by (auto simp: held_known_def)
  let ?line = "lirc_line (code (ps3remote_keys ! nat i)) n (shown_name cfg i)"
  have len: "length ?line < 100"
    using length_line [OF key_in_table(4) [OF r] n(1), of 10 "shown_name cfg i"] n(2)
      key_in_table(3) [OF r, of cfg] by (simp add: c_int_def)
  let ?h1 = "(Gettimeofday, ret os h Gettimeofday) # h"
  have t1: "step_ok os fd efd ld h [] ld ?h1" by (rule time_silent [OF wf])
  have later: "timely True os ks h \<longrightarrow> timely True os ks' h'"
    if "cl0 ks' = clock os h" and "step_ok os fd efd ld h xs ld' h'" for ks' xs ld' h'
    using that timely_later [of True os ks h ks' h h'] by (auto simp: step_ok_def)
  have idle: "thr_step True cfg os fd efd s q ld ks h ld ks' ?h1"
    if "tracks True s ks'" and "cl0 ks' = clock os h" for ks'
    unfolding thr_step_def using ok t1 that(1) later [OF that(2) t1]
    by (intro exI [of _ "[]"] exI [of _ q] exI [of _ s]) (auto simp: thr_ok_def)
  have sent: "thr_step True cfg os fd efd s q ld ks h ld' ks' h'"
    if "step_ok os fd efd ld ?h1 (Line ?line # event_for cfg i 2) ld' h'" and "qu ld' = qu ld"
      and "tracks True (Down i (n + 1)) ks'" and "c_int (n + 1)" and "cl0 ks' = clock os h" for ld' ks' h'
  proof -
    have "thr_ok True cfg (Down i (n + 1)) q ld' ks'"
      using that ok r n by (auto simp: thr_ok_def step_ok_def held_known_def)
    moreover have st: "step_ok os fd efd ld h (Line ?line # event_for cfg i 2) ld' h'"
      using step_ok_trans [OF t1 that(1)] by simp
    moreover have "timely True os ks h \<longrightarrow> timely True os ks' h'" by (rule later [OF that(5) st])
    moreover have "remote_run True cfg s0 ms0 (xs0 @ Line ?line # event_for cfg i 2) (Down i (n + 1))"
      if "remote_run True cfg s0 ms0 xs0 s" for s0 ms0 xs0
      using run_repeat [of True cfg s0 ms0 xs0 i n] that r s by simp
    ultimately show ?thesis
      unfolding thr_step_def
      by (intro exI [of _ "[]"] exI [of _ q] exI [of _ "Line ?line # event_for cfg i 2"]
          exI [of _ "Down i (n + 1)"]) auto
  qed
  have clk: "tv_sec (cl0 ks) \<le> tv_sec (clock os h)" if "timely True os ks h" using that by (simp add: timely_def)
  show ?thesis
    unfolding lirc_repeat_def
    by (auto dest: clk simp: cfg lk rc key_in_table(1,2) [OF r] down wp_simps Let_def s
        intro!: idle [unfolded s] sent [unfolded s] wp_mono [OF broadcast_step [OF pw wf len, where fd = fd and efd = efd]]
          wp_mono [OF send_event_step [OF r]])
qed

text \<open>
  The count of repeats: a message sets it to 0, and a pass adds at most one.
\<close>

lemma receive_count:
  "wp (lirc_receive os fuel True efd ld ks)
     (\<lambda>(ld', ks') h'. repeat_count ks' = repeat_count ks \<or> repeat_count ks' = 0) (\<lambda>_. True) h"
  unfolding lirc_receive_def lirc_handle_def
  by (auto simp: wp_simps Let_def intro!: wp_mono [OF wp_any] split: prod.splits option.splits sum.splits)

lemma receive_less:
  "wp (lirc_receive os fuel er efd ld ks)
     (\<lambda>(ld', ks') h'. er \<longrightarrow> nat (repeat_count ks') \<le> nat (repeat_count ks)) (\<lambda>_. True) h"
proof (cases er)
  case True
  then show ?thesis by simp (rule wp_mono [OF receive_count], auto)
next
  case False
  then show ?thesis by (intro wp_mono [OF wp_any]) auto
qed

lemma repeat_adds_one:
  "wp (lirc_repeat os efd ld ks)
     (\<lambda>(ld', ks') h'. repeat_count ks' = repeat_count ks \<or> repeat_count ks' = repeat_count ks + 1) (\<lambda>_. True) h"
  unfolding lirc_repeat_def
  by (auto simp: wp_simps Let_def intro!: wp_mono [OF wp_any] split: sum.splits)

lemma pass_count:
  "wp (lirc_pass os fuel er efd ld ks)
     (\<lambda>(ld', ks') h'. er \<longrightarrow> nat (repeat_count ks') \<le> Suc (nat (repeat_count ks))) (\<lambda>_. True) h"
  unfolding lirc_pass_def wp_bindio
proof (rule wp_mono [OF receive_less], goal_cases)
  case (1 res h1)
  obtain ld1 ks1 where "res = (ld1, ks1)" by (cases res) auto
  with 1 show ?case
    by (auto simp: wp_retio intro!: wp_mono [OF repeat_adds_one])
qed

lemma thr_stop_step:
  "thr_step er cfg os fd efd s q ld ks h ld1 ks1 h1 \<Longrightarrow> (er \<longrightarrow> nat (repeat_count ks1) \<le> nat (repeat_count ks)) \<Longrightarrow>
     thr_stop er os fuel ld1 ks1 h1 e \<Longrightarrow> thr_stop er os fuel ld ks h e"
  by (auto simp: thr_step_def thr_stop_def step_ok_def)

lemma pass_ok:
  assumes env: "thr_env er cfg os" and ok: "thr_ok er cfg s q ld ks"
  shows "wp (lirc_pass os fuel er efd ld ks)
     (\<lambda>(ld', ks') h'. thr_step er cfg os fd efd s q ld ks h ld' ks' h') (thr_stop er os fuel ld ks h) h"
  unfolding lirc_pass_def wp_bindio
proof (rule wp_mono [OF wp_both [OF receive_ok [OF env ok, where fd = fd] receive_less]], goal_cases)
  case (1 res h1)
  obtain ld1 ks1 where res: "res = (ld1, ks1)" by (cases res) auto
  with 1 have st: "thr_step er cfg os fd efd s q ld ks h ld1 ks1 h1"
    and cnt: "er \<longrightarrow> nat (repeat_count ks1) \<le> nat (repeat_count ks)" by auto
  show ?case
  proof (cases "er \<and> keyDown ks1 = 1")
    case True
    obtain s1 q1 where ok1: "thr_ok er cfg s1 q1 ld1 ks1" using st unfolding thr_step_def by blast
    have all: "wp (lirc_repeat os efd ld1 ks1)
       (\<lambda>(ld', ks') h'. thr_step er cfg os fd efd s1 q1 ld1 ks1 h1 ld' ks' h') (thr_stop er os fuel ld1 ks1 h1) h1"
      if ok1: "thr_ok er cfg s1 q1 ld1 ks1" for s1 q1
    proof -
      have "0 \<le> repeat_count ks1" if "er"
        using ok1 True that by (cases s1) (auto simp: thr_ok_def held_known_def)
      with that env True show ?thesis
        by (intro wp_mono [OF repeat_ok [of cfg os s1 q1 ld1 ks1 efd fd h1]]) (auto simp: thr_stop_def c_int_def)
    qed
    have "wp (lirc_repeat os efd ld1 ks1)
       (\<lambda>(ld', ks') h'. \<forall>s1 q1. thr_ok er cfg s1 q1 ld1 ks1 \<longrightarrow>
          thr_step er cfg os fd efd s1 q1 ld1 ks1 h1 ld' ks' h') (thr_stop er os fuel ld1 ks1 h1) h1"
      using all ok1 unfolding wp_def by (auto split: sum.splits) 
    then have "wp (lirc_repeat os efd ld1 ks1)
       (\<lambda>(ld', ks') h'. thr_step er cfg os fd efd s q ld ks h ld' ks' h') (thr_stop er os fuel ld ks h) h1"
      by (rule wp_mono) (auto intro: thr_step_trans [OF st] thr_stop_step [OF st cnt])
    then show ?thesis using res True by simp
  next
    case False
    with res st show ?thesis by (auto simp: wp_simps)
  qed
qed

lemma wp_all:
  "(\<And>x y. A x y \<Longrightarrow> wp m (P x y) E h) \<Longrightarrow> A x0 y0 \<Longrightarrow>
     wp m (\<lambda>a h'. \<forall>x y. A x y \<longrightarrow> P x y a h') E h"
  by (auto simp: wp_def split: sum.splits)

definition loop_stop :: "bool \<Rightarrow> os \<Rightarrow> nat \<Rightarrow> nat \<Rightarrow> nat \<Rightarrow> lirc_data \<Rightarrow> keyState \<Rightarrow> hist \<Rightarrow> stop \<Rightarrow> bool" where
  "loop_stop er os fuel N k ld ks h e \<longleftrightarrow> e = Assertion \<and> \<not> (roomy os ld \<and> timely er os ks h) \<or>
     er \<and> e = Int_overflow \<and> 2 ^ 31 \<le> nat (repeat_count ks) + k \<or>
     e = Out_of_fuel \<and> \<not> (prompt os fuel blockInMs \<and> cancels_after os N \<and> 0 < k \<and> N < length h + k)"

lemma calls_pass: "extends (lirc_pass os fuel er efd ld ks)"
proof -
  have b: "extends (broadcastToLirc os ld name rep c)" for ld name rep c
    using calls_broadcast by (rule calls_extends)
  have e: "extends (send_event os efd cfg i v)" for cfg i v
    unfolding send_event_def event_out_send_def by (auto intro!: ext_intros)
  have q: "extends (queueRemNonBlock os fuel q n x)" for q n x
    using calls_queue_ops(2) by (rule calls_extends)
  show ?thesis
    unfolding lirc_pass_def lirc_receive_def lirc_handle_def lirc_repeat_def handleKey_def DataInd_keyDown_def
      DataInd_keyUp_def hear_def reset_repeat_def
    by (auto intro!: ext_intros b e q split: prod.splits)
qed

lemma loop_ok:
  assumes env: "thr_env er cfg os"
  shows "thr_ok er cfg s q ld ks \<Longrightarrow>
     wp (lirc_loop os fuel k er efd ld ks)
       (\<lambda>(ld', ks') h'. thr_step er cfg os fd efd s q ld ks h ld' ks' h') (loop_stop er os fuel N k ld ks h) h"
proof (induction k arbitrary: s q ld ks h)
  case 0
  then show ?case by (simp add: wp_simps loop_stop_def)
next
  case (Suc k)
  let ?h1 = "(Get_canceled, ret os h Get_canceled) # h"
  have wf: "ld_wf ld" using Suc.prems by (simp add: thr_ok_def)
  have poll: "step_ok os fd efd ld h [] ld ?h1"
    using step_ok_silent [OF wf, of "[(Get_canceled, ret os h Get_canceled)]" h]
    by (simp add: no_write_def no_event_def)
  have tm: "timely er os ks h \<longrightarrow> timely er os ks ?h1" using timely_after [OF _ refl poll] by blast
  show ?case
  proof (cases "ret os h Get_canceled = 0")
    case False
    with thr_step_before [OF poll tm thr_step_refl [OF Suc.prems]] show ?thesis by (simp add: wp_simps)
  next
    case True
    have "wp (lirc_pass os fuel er efd ld ks)
       (\<lambda>(ld1, ks1) h1. wp (lirc_loop os fuel k er efd ld1 ks1)
          (\<lambda>(ld', ks') h'. thr_step er cfg os fd efd s q ld ks h ld' ks' h') (loop_stop er os fuel N (Suc k) ld ks h) h1)
       (loop_stop er os fuel N (Suc k) ld ks h) ?h1"
    proof (rule wp_mono [OF wp_both [OF wp_calls [OF calls_pass pass_ok [OF env Suc.prems, where fd = fd]] pass_count]],
        goal_cases)
      case (1 res h1)
      obtain ld1 ks1 where res: "res = (ld1, ks1)" by (cases res) auto
      with 1 have st: "thr_step er cfg os fd efd s q ld ks ?h1 ld1 ks1 h1"
        and len: "Suc (length h) \<le> length h1"
        and cnt: "er \<longrightarrow> nat (repeat_count ks1) \<le> Suc (nat (repeat_count ks))" by auto
      then obtain s1 q1 where ok1: "thr_ok er cfg s1 q1 ld1 ks1" unfolding thr_step_def by blast
      have fuel: "loop_stop er os fuel N (Suc k) ld ks h e" if "loop_stop er os fuel N k ld1 ks1 h1 e" for e
      proof -
        have "cancels_after os N \<Longrightarrow> length h < N"
          using True by (meson cancels_after_def not_le)
        moreover have "roomy os ld \<longrightarrow> roomy os ld1" and "timely er os ks h \<longrightarrow> timely er os ks1 h1"
          using st tm by (auto simp: thr_step_def step_ok_def)
        ultimately show ?thesis using that len cnt unfolding loop_stop_def by auto
      qed
      have "wp (lirc_loop os fuel k er efd ld1 ks1)
         (\<lambda>a h'. case a of (ld', ks') \<Rightarrow> thr_step er cfg os fd efd s1 q1 ld1 ks1 h1 ld' ks' h')
         (loop_stop er os fuel N k ld1 ks1 h1) h1" if "thr_ok er cfg s1 q1 ld1 ks1" for s1 q1
        by (rule wp_mono [OF Suc.IH [OF that]]) auto
      from this ok1 have "wp (lirc_loop os fuel k er efd ld1 ks1)
         (\<lambda>a h'. \<forall>s1 q1. thr_ok er cfg s1 q1 ld1 ks1 \<longrightarrow>
            (case a of (ld', ks') \<Rightarrow> thr_step er cfg os fd efd s1 q1 ld1 ks1 h1 ld' ks' h'))
         (loop_stop er os fuel N k ld1 ks1 h1) h1"
        by (rule wp_all)
      then show ?case
        unfolding res prod.case
        by (rule wp_mono) (auto intro: fuel thr_step_trans [OF thr_step_before [OF poll tm st]])
    next
      case (2 e)
      then show ?case using tm by (auto simp: thr_stop_def loop_stop_def)
    qed
    then have "wp (lirc_pass os fuel er efd ld ks)
       (\<lambda>a h1. wp (case a of (ld1, ks1) \<Rightarrow> lirc_loop os fuel k er efd ld1 ks1)
          (\<lambda>(ld', ks') h'. thr_step er cfg os fd efd s q ld ks h ld' ks' h') (loop_stop er os fuel N (Suc k) ld ks h) h1)
       (loop_stop er os fuel N (Suc k) ld ks h) ?h1"
      by (rule wp_mono) auto
    with True show ?thesis by (simp add: wp_bindio wp_sys)
  qed
qed

section \<open>Properties\<close>

text \<open>
  C38: The release name is checked against the wrong bound. With a suffix that makes the name of the
  released key between 78 and 99 characters long, which \<open>DataInd_keyUp\<close> accepts, releasing the key
  writes past the end of the array \<open>msg\<close>.
\<close>

theorem long_suffix_overflows:
  assumes "config ld = Some cfg" and "release cfg = Some sfx"
    and i: "0 \<le> lastKey ks" "lastKey ks < int ps3remote_num_keys"
    and "78 \<le> length (shown_name cfg (lastKey ks)) + length sfx"
    and "length (shown_name cfg (lastKey ks)) + length sfx < 100"
  shows "DataInd_keyUp os efd ld 0xFF ks h = Inl Out_of_bounds"
proof -
  have "length (lirc_line 0xFF 0 (shown_name cfg (lastKey ks) @ sfx)) \<ge> 100"
    using assms(5) by (simp add: length_line_eq)
  then have "wp (DataInd_keyUp os efd ld 0xFF ks) (\<lambda>_ _. False) (\<lambda>e. e = Out_of_bounds) h"
    using assms key_in_table(1,2) [OF i]
    by (simp add: DataInd_keyUp_def wp_simps broadcastToLirc_def Let_def)
  then show ?thesis by (simp add: wp_def split: sum.splits prod.splits)
qed

definition idle_keys :: keyState where
  "idle_keys = \<lparr>keyDown = 0, lastKey = -1, cl0 = Timeval 0 0, cl1 = Timeval 0 0, elapsed = 0,
     repeat_count = 0, done_waiting = 0\<rparr>"

theorem long_suffix_overflows_witness:
  "DataInd_keyUp quiet_os (-1)
     (fresh_ld\<lparr>config := Some (full_config\<lparr>release := Some (replicate 90 CHR ''x'')\<rparr>)\<rparr>) 0xFF
     (idle_keys\<lparr>keyDown := 1, lastKey := 0\<rparr>) [] = Inl Out_of_bounds"
  by (rule long_suffix_overflows [OF _ _ _ _])
     (auto simp: fresh_ld_def idle_keys_def ps3remote_num_keys_def shown_name_def full_config_def
       cfg_defs ps3remote_keys_def key_def)

text \<open>
  C16: \<open>handleKey\<close> implements the remote of the specification, when the \<open>-R\<close> suffix has at most 61 characters (the
  longest name of a key then fits; longer suffixes can overflow the line, see \<open>long_suffix_overflows\<close>) and
  \<open>write\<close> accepts no more than it is given. From a key state that is none or an entry of the table or unknown, on
  any packet that was received whole, it goes to the state \<open>react\<close> gives, hands a reliable client the lines and the input device
  the events \<open>react\<close> gives, keeps the invariant and leaves the mutexes free. It stops only at the
  assertion of \<open>broadcastToLirc\<close>, and never while the table has room and nobody joins.
\<close>

theorem handleKey_refines:
  assumes "posix_write os" and "ld_wf ld" and "config ld = Some cfg" and "suffix_fits cfg"
    and "tracks er s ks" and "valid_remote s"
  shows "wp (handleKey os efd ld m (int (length m)) ks)
     (\<lambda>(ld', ks') h'. ld_wf ld' \<and> tracks er (fst (react cfg s m)) ks' \<and> valid_remote (fst (react cfg s m)) \<and>
        (\<forall>mx. lock_depth mx h' = lock_depth mx h) \<and>
        key_events efd h' = key_events efd h @ (if efd \<noteq> -1 then events (snd (react cfg s m)) else []) \<and>
        (reliable os fd \<and> count_list (clients ld) fd = 1 \<longrightarrow>
           sent fd h' = sent fd h @ lines (snd (react cfg s m))))
     (\<lambda>e. e = Assertion \<and> \<not> roomy os ld) h"
  by (rule wp_mono [OF handleKey_ok [OF assms, where fd = fd]]) (auto simp: step_ok_def)

definition up_packet :: "byte \<Rightarrow> byte \<Rightarrow> byte list" where
  "up_packet c st = [0xa1, 1, 0, 0, 0, c, 0xff, 0xff, 0xff, 0xff, 0xff, st, 5]"

lemma reliable_quiet: "reliable quiet_os fd"
  by (simp add: reliable_def)

theorem handleKey_refines_witness:
  "wp (handleKey quiet_os (-1) (fresh_ld\<lparr>clis := 4 # replicate 15 0, clin := 1\<rparr>) (up_packet 0x54 1) 13 idle_keys)
     (\<lambda>(ld', ks') h'. sent 4 h' = ''0054 00 up SonyBDRemote'' @ nl \<and> lastKey ks' = 6) (\<lambda>_. False) []"
proof -
  let ?ld = "fresh_ld\<lparr>clis := 4 # replicate 15 0, clin := 1\<rparr>"
  let ?cfg = "full_config\<lparr>release := Some ''_UP''\<rparr>"
  have c: "config ?ld = Some ?cfg" and ns: "lirc_namespace ?cfg = 0" "event_out ?cfg = 0"
    by (simp_all add: fresh_ld_def full_config_def cfg_defs)
  have "find_key 0x54 = Some 6"
    by (simp add: find_key_def ps3remote_keys_def key_def upt_rec)
  moreover have "replicate 2 (CHR ''0'') = ''00''" by (simp add: numeral_2_eq_2)
  ultimately have r: "react ?cfg Up (up_packet 0x54 1) = (Down 6 0, [Line (''0054 00 up SonyBDRemote'' @ nl)])"
    using ns by (simp add: react_def up_packet_def press_def shown_name_def event_for_def ps3remote_keys_def
        key_def lirc_line_def fmt_hex_def fmt_dec_def pad0_def base_digits_small base_digits_big digit_char_def)
  have wf: "ld_wf ?ld" by (rule fresh_table_wf) simp_all
  have fits: "suffix_fits ?cfg" and tr: "tracks True Up idle_keys" and val: "valid_remote Up"
    by (simp_all add: suffix_fits_def idle_keys_def)
  have once: "count_list (clients ?ld) 4 = 1" and len: "int (length (up_packet 0x54 1)) = 13"
    by (simp_all add: clients_def up_packet_def)
  show ?thesis
    using handleKey_refines [OF posix_quiet(1) wf c fits tr val, of "-1" "up_packet 0x54 1" "[]" 4]
    unfolding r len
    by (rule wp_mono) (use once reliable_quiet in \<open>simp_all add: roomy_def MAX_CLIENTS_def split: prod.splits\<close>)
qed

text \<open>The thread from its start.\<close>

lemma lircThread_ok:
  assumes env: "thr_env er cfg os" and wf: "ld_wf ld" and cfg: "config ld = Some cfg"
    and q: "ring_list (qu ld) = map message q" "\<forall>m \<in> set q. packet_ok er m"
  shows "wp (lircThread os fuel k er efd ks0 ld)
     (\<lambda>(ld', ks') h'. \<exists>ks1 h1. step_ok os fd efd ld h [] ld h1 \<and> thr_step er cfg os fd efd Up q ld ks1 h1 ld' ks' h')
     (\<lambda>e. e = Assertion \<and> \<not> (roomy os ld \<and> (er \<longrightarrow> steady os)) \<or> er \<and> e = Int_overflow \<and> 2 ^ 31 \<le> k \<or>
        e = Out_of_fuel \<and> \<not> (prompt os fuel blockInMs \<and> cancels_after os N \<and> 0 < k \<and> N < length h + k)) h"
proof -
  let ?h1 = "(Gettimeofday, ret os h Gettimeofday) # h"
  let ?ks = "ks0\<lparr>keyDown := 0, lastKey := ps3remote_undef\<rparr>"
  let ?ks1 = "?ks\<lparr>cl0 := clock os h, cl1 := clock os h, elapsed := 0, repeat_count := 0, done_waiting := 0\<rparr>"
  have ok: "thr_ok er cfg Up q ld ?ks" "thr_ok er cfg Up q ld ?ks1"
    using wf cfg q by (simp_all add: thr_ok_def held_known_def)
  have st: "step_ok os fd efd ld h [] ld ?h1" by (rule time_silent [OF wf])
  have later: "steady os \<Longrightarrow> tv_sec (clock os h) \<le> tv_sec (clock os (x # h))" for x
    unfolding steady_def by (metis append_Cons append_Nil)
  show ?thesis
  proof (cases er)
    case True
    have "wp (lirc_loop os fuel k er efd ld ?ks1)
       (\<lambda>(ld', ks') h'. thr_step er cfg os fd efd Up q ld ?ks1 ?h1 ld' ks' h') (loop_stop er os fuel N k ld ?ks1 ?h1) ?h1"
      by (rule loop_ok [OF env ok(2)])
    then have "wp (lirc_loop os fuel k er efd ld ?ks1)
       (\<lambda>(ld', ks') h'. \<exists>ks1 h1. step_ok os fd efd ld h [] ld h1 \<and> thr_step er cfg os fd efd Up q ld ks1 h1 ld' ks' h')
       (\<lambda>e. e = Assertion \<and> \<not> (roomy os ld \<and> (er \<longrightarrow> steady os)) \<or> er \<and> e = Int_overflow \<and> 2 ^ 31 \<le> k \<or>
          e = Out_of_fuel \<and> \<not> (prompt os fuel blockInMs \<and> cancels_after os N \<and> 0 < k \<and> N < length h + k)) ?h1"
      by (rule wp_mono) (use True st later in \<open>auto simp: loop_stop_def timely_def\<close>)
    then show ?thesis using True cfg by (simp add: lircThread_def wp_simps Let_def)
  next
    case False
    have "wp (lirc_loop os fuel k er efd ld ?ks)
       (\<lambda>(ld', ks') h'. \<exists>ks1 h1. step_ok os fd efd ld h [] ld h1 \<and> thr_step er cfg os fd efd Up q ld ks1 h1 ld' ks' h')
       (\<lambda>e. e = Assertion \<and> \<not> (roomy os ld \<and> (er \<longrightarrow> steady os)) \<or> er \<and> e = Int_overflow \<and> 2 ^ 31 \<le> k \<or>
          e = Out_of_fuel \<and> \<not> (prompt os fuel blockInMs \<and> cancels_after os N \<and> 0 < k \<and> N < length h + k)) h"
      by (rule wp_mono [OF loop_ok [OF env ok(1), where fd = fd and N = N]])
         (use False in \<open>auto simp: loop_stop_def timely_def intro!: exI [of _ h] step_ok_refl [OF wf]\<close>)
    then show ?thesis using False cfg by (simp add: lircThread_def wp_simps Let_def)
  qed
qed

text \<open>
  C1: The LIRC thread implements the remote of the specification, end to end. Given packets that are
  not empty, pressed keys that are in the table when keys are repeated, a release suffix of at most 61 characters, and the
  documented \<open>write\<close> and clock: when it returns, the packets \<open>ms\<close> that it took are the first of
  those queued before and those that arrived meanwhile, in order, and the rest is still queued. What
  it sent to a client that takes everything, and wrote to the input device, is what a run of the
  specification over \<open>ms\<close> gives. The invariant holds and the mutexes are free. An assertion can fail only
  when clients join or the table was full, or, with repeats built in, when the clock runs backwards; the count of
  repeats can overflow only when they are built in and the loop makes \<open>2 ^ 31\<close> passes or more (each sends at
  most one repeat). There is no other stop: when the polls of the queue come back and
  the flag is set after \<open>N\<close> calls, the thread returns, given more than \<open>N\<close> passes.
\<close>

theorem lircThread_refines:
  assumes "thr_env er cfg os" and "ld_wf ld" and "config ld = Some cfg"
    and "ring_list (qu ld) = map message q" and "\<forall>m \<in> set q. packet_ok er m"
  shows "wp (lircThread os fuel k er efd ks0 ld)
     (\<lambda>(ld', ks') h'. \<exists>new q' ms xs s. arrived os new \<and> q @ new = ms @ q' \<and>
        ring_list (qu ld') = map message q' \<and> remote_run er cfg Up ms xs s \<and> tracks er s ks' \<and>
        ld_wf ld' \<and> (\<forall>m. lock_depth m h' = lock_depth m h) \<and>
        key_events efd h' = key_events efd h @ (if efd \<noteq> -1 then events xs else []) \<and>
        (reliable os fd \<and> count_list (clients ld) fd = 1 \<longrightarrow> sent fd h' = sent fd h @ lines xs))
     (\<lambda>e. e = Assertion \<and> \<not> (roomy os ld \<and> (er \<longrightarrow> steady os)) \<or> er \<and> e = Int_overflow \<and> 2 ^ 31 \<le> k \<or>
        e = Out_of_fuel \<and> \<not> (prompt os fuel blockInMs \<and> cancels_after os N \<and> 0 < k \<and> N < length h + k)) h"
proof (rule wp_mono [OF lircThread_ok [OF assms, where fd = fd and N = N]], goal_cases)
  case (1 res h')
  obtain ld' ks' where res: "res = (ld', ks')" by (cases res) auto
  with 1 obtain new q' ms xs s h1 where "arrived os new" "q @ new = ms @ q'" "thr_ok er cfg s q' ld' ks'"
    "step_ok os fd efd ld h [] ld h1" "step_ok os fd efd ld h1 xs ld' h'" "remote_run er cfg Up ms xs s"
    unfolding thr_step_def using run_start [of er cfg Up] by fastforce
  moreover have "step_ok os fd efd ld h xs ld' h'" using step_ok_trans [OF calculation(4,5)] by simp
  ultimately show ?case
    unfolding res prod.case
    by - (rule exI [of _ new], rule exI [of _ q'], rule exI [of _ ms], rule exI [of _ xs],
        rule exI [of _ s], simp add: thr_ok_def step_ok_def)
qed auto

text \<open>A system that sets the flag after five calls, and a queue with the release of no key.\<close>

definition five_calls_os :: os where
  "five_calls_os = quiet_os\<lparr>ret := (\<lambda>h c. if c = Get_canceled then (if length h < 5 then 0 else 1)
     else ret quiet_os h c)\<rparr>"

lemma five_calls_env: "thr_env True full_config five_calls_os" "cancels_after five_calls_os 5"
  "prompt five_calls_os 1 blockInMs"
proof -
  show "thr_env True full_config five_calls_os"
    by (simp add: thr_env_def posix_write_def posix_clock_def packets_ok_def five_calls_os_def suffix_fits_def
        full_config_def cfg_defs)
  show "cancels_after five_calls_os 5" by (simp add: cancels_after_def five_calls_os_def)
  show "prompt five_calls_os 1 blockInMs"
    using prompt_timeout [of blockInMs five_calls_os 0]
    by (simp add: c_int_def blockInMs_def five_calls_os_def)
qed

lemma five_calls_calm: "roomy five_calls_os (fresh_ld\<lparr>qu := q\<rparr>)" "steady five_calls_os"
  by (simp_all add: roomy_def steady_def five_calls_os_def fresh_ld_def MAX_CLIENTS_def)

theorem lircThread_refines_witness:
  "wp (lircThread five_calls_os 1 9 True (-1) idle_keys
        (fresh_ld\<lparr>qu := queueAdd_ring (message (up_packet 0xFF 0)) empty_queue\<rparr>))
     (\<lambda>(ld', ks') h'. ld_wf ld' \<and> (\<exists>ms xs s. remote_run True full_config Up ms xs s \<and> tracks True s ks'))
     (\<lambda>_. False) []"
proof -
  let ?q = "queueAdd_ring (message (up_packet 0xFF 0)) empty_queue"
  have q: "ring_list (qu (fresh_ld\<lparr>qu := ?q\<rparr>)) = map message [up_packet 0xFF 0]"
    by (simp add: ring_list_add)
  have wf: "ld_wf (fresh_ld\<lparr>qu := ?q\<rparr>)" and cfg: "config (fresh_ld\<lparr>qu := ?q\<rparr>) = Some full_config"
    using fresh_ld_wf(1) by (simp_all add: ld_wf_def fresh_ld_def ring_inv_add)
  have p: "\<forall>m \<in> set [up_packet 0xFF 0]. packet_ok True m"
    by (simp add: packet_ok_def known_packet_def up_packet_def)
  show ?thesis
    by (rule wp_mono [OF lircThread_refines [OF five_calls_env(1) wf cfg q p, where N = 5]])
       (use five_calls_env five_calls_calm in auto)
qed

end
