(* ===== verification/Remote_Events.thy ===== *)
theory Remote_Events
  imports Remote
begin

text \<open>
  What follows from the abstract machine of \<open>Remote\<close> for the LIRC thread: the order of the key events
  it writes, what happens to keys that are pressed together or are not in the table, and the time
  before a key is repeated.
\<close>

section \<open>The order of the events\<close>

text \<open>
  A sequence of key events as an input device expects it, \<open>k\<close> being the key that is down: a repeat
  (2) or a release (0) concerns the key pressed last.
\<close>

fun events_ok :: "int option \<Rightarrow> (int \<times> int) list \<Rightarrow> bool" where
  "events_ok k [] = True"
| "events_ok k ((c, v) # es) =
     (if v = 1 then events_ok (Some c) es
      else if v = 2 then k = Some c \<and> events_ok k es
      else v = 0 \<and> k = Some c \<and> events_ok None es)"

fun events_end :: "int option \<Rightarrow> (int \<times> int) list \<Rightarrow> int option" where
  "events_end k [] = k"
| "events_end k ((c, v) # es) = events_end (if v = 0 then None else Some c) es"

lemma events_end_append [simp]: "events_end k (es @ fs) = events_end (events_end k es) fs"
  by (induction k es rule: events_end.induct) simp_all

lemma events_ok_append [simp]:
  "events_ok k (es @ fs) \<longleftrightarrow> events_ok k es \<and> events_ok (events_end k es) fs"
  by (induction k es rule: events_ok.induct) auto

definition event_number :: "int \<Rightarrow> int" where
  "event_number i = uint (ucast (event_code (ps3remote_keys ! nat i)) :: u16)"

lemma events_event_for: "events (event_for cfg i v) = (if event_out cfg \<noteq> 0 then [(event_number i, v)] else [])"
  by (simp add: event_for_def event_number_def)

text \<open>With events turned on, the key that is down for the device is the key that is held.\<close>

fun down_key :: "remote \<Rightarrow> int option" where
  "down_key Up = None"
| "down_key (Down i n) = (if i = -1 then None else Some (event_number i))"

lemma rewind_down_key [simp]: "down_key (rewind s) = down_key s"
  by (cases s) auto

text \<open>A key that is not in the table makes the thread forget the key that is down.\<close>

definition agrees :: "remote \<Rightarrow> int option \<Rightarrow> bool" where
  "agrees s k \<longleftrightarrow> (case down_key s of None \<Rightarrow> True | Some c \<Rightarrow> k = Some c)"

lemma react_events:
  assumes "agrees s k" and "valid_remote s" and "event_out cfg \<noteq> 0"
  shows "events_ok k (events (snd (react cfg s m))) \<and> valid_remote (fst (react cfg s m)) \<and>
     agrees (rewind (fst (react cfg s m))) (events_end k (events (snd (react cfg s m))))"
proof -
  have up: "events_ok k (events (snd (let_go cfg s c))) \<and> valid_remote (fst (let_go cfg s c)) \<and>
     agrees (rewind (fst (let_go cfg s c))) (events_end k (events (snd (let_go cfg s c))))" for c
    using assms by (cases s) (auto simp: let_go_def events_event_for agrees_def split: option.splits)
  have down: "events_ok k (events (snd (press cfg s c))) \<and> valid_remote (fst (press cfg s c)) \<and>
     agrees (rewind (fst (press cfg s c))) (events_end k (events (snd (press cfg s c))))" for c
  proof (cases "c = 0xFF")
    case True
    then have "press cfg s c = (s, [])" by (simp add: press_def)
    then show ?thesis using assms by (simp add: agrees_def)
  next
    case False
    then show ?thesis
      using assms by (cases c rule: find_key_cases)
        (auto simp: press_def events_event_for agrees_def ps3remote_num_keys_def)
  qed
  consider "react cfg s m = (s, [])" | "react cfg s m = press cfg s (m ! 5)"
    | "react cfg s m = let_go cfg s (m ! 5)" unfolding react_def by metis
  then show ?thesis
  proof cases
    case 1
    then show ?thesis using assms by (simp add: agrees_def)
  qed (simp_all only: up down)
qed

lemma run_events:
  assumes "remote_run er cfg Up ms xs s" and "event_out cfg \<noteq> 0"
  shows "events_ok None (events xs) \<and> valid_remote s \<and> agrees s (events_end None (events xs))"
  using assms
proof (induction rule: remote_run.induct)
  case run_start
  then show ?case by (simp add: agrees_def)
next
  case (run_packet ms ls s m)
  have v: "valid_remote s' \<Longrightarrow> valid_remote (rewind s')" for s' by (cases s') auto
  from run_packet react_events [of s "events_end None (events ls)" cfg m] v show ?case by auto
next
  case (run_repeat ms ls i n)
  then show ?case by (auto simp: events_event_for agrees_def)
qed

text \<open>
  Key events are in order. Whatever packets arrive and however long keys are held, in what the LIRC
  thread writes to the input device every repeat and every release is of the key whose press was
  written last, and no key is released twice.
\<close>

lemma key_events_in_order:
  assumes "thr_env er cfg os" and "ld_wf ld" and "config ld = Some cfg" and "event_out cfg \<noteq> 0"
    and "ring_list (qu ld) = map message q" and "\<forall>m \<in> set q. packet_ok er m"
  shows "wp (lircThread os fuel k er efd ks0 ld)
     (\<lambda>_ h'. \<exists>es. key_events efd h' = key_events efd h @ es \<and> events_ok None es)
     (\<lambda>e. e \<in> {Assertion, Int_overflow, Out_of_fuel}) h"
proof (rule wp_mono [OF lircThread_ok [OF assms(1-3,5,6), where fd = 0 and N = 0]], goal_cases)
  case (1 res h')
  obtain ld' ks' where res: "res = (ld', ks')" by (cases res) auto
  with 1 obtain ms xs s h1 where "step_ok os 0 efd ld h [] ld h1" "step_ok os 0 efd ld h1 xs ld' h'"
    and run: "remote_run er cfg Up ms xs s"
    unfolding thr_step_def using run_start [of er cfg Up] by fastforce
  then have st: "step_ok os 0 efd ld h xs ld' h'" using step_ok_trans [of os 0 efd ld h "[]" ld h1 xs] by simp
  from run_events [OF run assms(4)] st show ?case
    by (cases "efd = -1") (auto simp: step_ok_def)
qed auto

lemma key_events_in_order_witness:
  "wp (lircThread five_calls_os 1 9 False 7 idle_keys
        (fresh_ld\<lparr>config := Some (full_config\<lparr>event_out := 1\<rparr>)\<rparr>))
     (\<lambda>_ h'. \<exists>es. key_events 7 h' = es \<and> events_ok None es)
     (\<lambda>e. e \<in> {Assertion, Int_overflow, Out_of_fuel}) []"
proof -
  have env: "thr_env False (full_config\<lparr>event_out := 1\<rparr>) five_calls_os"
    using five_calls_env(1) by (simp add: thr_env_def packets_ok_def five_calls_os_def suffix_fits_def)
  have wf: "ld_wf (fresh_ld\<lparr>config := Some (full_config\<lparr>event_out := 1\<rparr>)\<rparr>)"
    using fresh_ld_wf(1) by (simp add: ld_wf_def)
  show ?thesis
    by (rule wp_mono [OF key_events_in_order [OF env wf, where q = "[]"]]) (simp_all add: fresh_ld_def)
qed

text \<open>
  A second key that is pressed while the first is held leaves the first one down. After pressing
  one key, then another, then letting go, the device has seen both presses but only the release of the
  second: no release of the first key is ever written.
\<close>

lemma second_press_sticks:
  assumes env: "posix_write os" "ld_wf ld" "config ld = Some cfg" "suffix_fits cfg"
    and on: "event_out cfg \<noteq> 0" "efd \<noteq> -1"
    and up: "keyDown ks = 0" "lastKey ks = ps3remote_undef"
    and keys: "find_key a = Some i" "find_key b = Some j" "a \<noteq> 0xFF" "b \<noteq> 0xFF"
  shows "wp (bindio (handleKey os efd ld (up_packet a 1) 13 ks) (\<lambda>(ld, ks).
       bindio (handleKey os efd ld (up_packet b 1) 13 ks) (\<lambda>(ld, ks).
       handleKey os efd ld (up_packet 0xFF 0) 13 ks)))
     (\<lambda>_ h'. key_events efd h' = key_events efd h @
        [(event_number (int i), 1), (event_number (int j), 1), (event_number (int j), 0)])
     (\<lambda>e. e = Assertion) h"
proof -
  have l: "int (length (up_packet c st)) = 13" for c st by (simp add: up_packet_def)
  have p: "react cfg s (up_packet c 1) = press cfg s c" "react cfg s (up_packet c 0) = let_go cfg s c" for s c
    by (simp_all add: react_def up_packet_def)
  have r1: "fst (press cfg Up a) = Down (int i) 0"
      "events (snd (press cfg Up a)) = [(event_number (int i), 1)]"
    and r2: "fst (press cfg (Down (int i) 0) b) = Down (int j) 0"
      "events (snd (press cfg (Down (int i) 0) b)) = [(event_number (int j), 1)]"
    and r3: "events (snd (let_go cfg (Down (int j) 0) 0xFF)) = [(event_number (int j), 0)]"
    using keys on by (simp_all add: press_def let_go_def events_event_for split: option.splits)
  note hk = handleKey_ok [OF env(1) _ _ env(4), where er = True and fd = 0 and efd = efd]
  have "tracks True Up ks" "valid_remote Up" using up by simp_all
  note h1 = hk [OF env(2,3) this, where m = "up_packet a 1", unfolded p l]
  show ?thesis
    unfolding wp_bindio
  proof (rule wp_mono [OF h1], goal_cases)
    case (1 res1 h1)
    obtain ld1 ks1 where res1: "res1 = (ld1, ks1)" by (cases res1) auto
    with 1 have st1: "step_ok os 0 efd ld h (snd (press cfg Up a)) ld1 h1" "tracks True (Down (int i) 0) ks1"
        "valid_remote (Down (int i) 0)" using r1(1) by auto
    then have ld1: "ld_wf ld1" "config ld1 = Some cfg" using env(3) by (simp_all add: step_ok_def)
    show ?case
      unfolding res1 prod.case wp_bindio
    proof (rule wp_mono [OF hk [OF ld1 st1(2,3), where m = "up_packet b 1", unfolded p l]], goal_cases)
      case (1 res2 h2)
      obtain ld2 ks2 where res2: "res2 = (ld2, ks2)" by (cases res2) auto
      with 1 have st2: "step_ok os 0 efd ld1 h1 (snd (press cfg (Down (int i) 0) b)) ld2 h2"
          "tracks True (Down (int j) 0) ks2" "valid_remote (Down (int j) 0)" using r2(1) by auto
      then have ld2: "ld_wf ld2" "config ld2 = Some cfg" using ld1(2) by (simp_all add: step_ok_def)
      show ?case
        unfolding res2 prod.case
        by (rule wp_mono [OF hk [OF ld2 st2(2,3), where m = "up_packet 0xFF 0", unfolded p l]])
           (use st1(1) st2(1) r1(2) r2(2) r3 on(2) in \<open>auto simp: step_ok_def\<close>)
    qed simp
  qed simp
qed

lemma second_press_sticks_witness:
  "wp (bindio (handleKey quiet_os 7 (fresh_ld\<lparr>config := Some (full_config\<lparr>event_out := 1\<rparr>)\<rparr>) (up_packet 0 1) 13 idle_keys)
       (\<lambda>(ld, ks). bindio (handleKey quiet_os 7 ld (up_packet 1 1) 13 ks) (\<lambda>(ld, ks).
       handleKey quiet_os 7 ld (up_packet 0xFF 0) 13 ks)))
     (\<lambda>_ h'. key_events 7 h' = [(2, 1), (3, 1), (3, 0)]) (\<lambda>e. e = Assertion) []"
proof -
  let ?cfg = "full_config\<lparr>event_out := 1\<rparr>"
  have wf: "ld_wf (fresh_ld\<lparr>config := Some ?cfg\<rparr>)" "config (fresh_ld\<lparr>config := Some ?cfg\<rparr>) = Some ?cfg"
    using fresh_ld_wf(1) by (simp_all add: ld_wf_def)
  have fits: "suffix_fits ?cfg" by (simp add: suffix_fits_def full_config_def cfg_defs)
  have k: "find_key 0 = Some 18" "find_key 1 = Some 19"
    by (simp_all add: find_key_def ps3remote_keys_def key_def upt_rec)
  have n: "event_number 18 = 2" "event_number 19 = 3"
    by (simp_all add: event_number_def ps3remote_keys_def key_def)
  show ?thesis
    using second_press_sticks [OF posix_quiet(1) wf fits _ _ _ _ k, of 7 idle_keys "[]"]
    by (simp add: idle_keys_def n)
qed

section \<open>Keys that are not in the table, and time\<close>

text \<open>
  C39: Holding a key that is not in the table reads the table out of bounds. Its press is taken as the key
  -1 being held, without a line or an event; once the initial delay is over, the first repeat reads
  \<open>ps3remote_keys[-1]\<close>.
\<close>

theorem unknown_key_repeats:
  assumes "ld_wf ld" and "config ld = Some cfg" and "c \<noteq> 0xFF" and "find_key c = None"
  shows "wp (handleKey os efd ld (up_packet c 1) 13 ks)
       (\<lambda>(ld', ks') h'. ld' = ld \<and> h' = h \<and> keyDown ks' = 1 \<and> lastKey ks' = -1)
       (\<lambda>_. False) h \<and>
     wp (lirc_repeat os efd ld (ks\<lparr>keyDown := 1, lastKey := -1, done_waiting := 1, elapsed := send_after_ms cfg,
          cl0 := clock os h, cl1 := clock os h\<rparr>))
       (\<lambda>_ _. False) (\<lambda>e. e = Out_of_bounds) h"
proof -
  have u: "codeToIndex (ucast c) = -1" using assms(4) by (cases c rule: find_key_cases) auto
  have k: "key_at (-1) = Inl Out_of_bounds" by (simp add: key_at_def)
  have z: "counted_ms t t = 0" for t by (simp add: counted_ms_def)
  have "ucast c \<noteq> (0xFF :: u32)" using assms(3) by (simp add: ucast_keyup)
  then show ?thesis
    using assms(1,2) u k z
    by (simp add: handleKey_def DataInd_keyDown_def up_packet_def lirc_repeat_def wp_simps key_name_def
        ld_wf_def Let_def)
qed

theorem unknown_key_repeats_witness:
  "wp (lirc_repeat quiet_os (-1) fresh_ld (idle_keys\<lparr>keyDown := 1, lastKey := -1, done_waiting := 1,
       elapsed := send_after_ms full_config, cl0 := Timeval 0 0, cl1 := Timeval 0 0\<rparr>))
     (\<lambda>_ _. False) (\<lambda>e. e = Out_of_bounds) []"
proof -
  have "find_key 0x44 = None" by (simp add: find_key_def ps3remote_keys_def key_def upt_rec)
  then show ?thesis
    using unknown_key_repeats [OF fresh_ld_wf(1), of full_config "0x44" quiet_os "-1" idle_keys "[]"]
    by (simp add: fresh_ld_def)
qed

text \<open>
  What the stop watch knows of a key pressed at \<open>t0\<close>: it has not counted more than has passed, and
  it is done waiting only after the initial delay.
\<close>

definition held_since :: "configuration \<Rightarrow> timeval \<Rightarrow> keyState \<Rightarrow> bool" where
  "held_since cfg t0 ks \<longleftrightarrow> normal_time (cl0 ks) \<and>
     (if done_waiting ks = 0 then uint (elapsed ks) * 1000 \<le> usec_between t0 (cl0 ks)
      else (uint (rate_delay cfg) + uint (elapsed ks)) * 1000 \<le> usec_between t0 (cl0 ks))"

lemma uint_plus_le: "0 \<le> c \<Longrightarrow> uint ((x :: u64) + word_of_int c) \<le> uint x + c"
proof -
  assume c: "0 \<le> c"
  have "uint (x + word_of_int c) = (uint x + c) mod 2 ^ 64"
    by (simp add: uint_word_ariths(1) uint_word_of_int mod_add_right_eq)
  also have "\<dots> \<le> uint x + c" using c by (intro zmod_le_nonneg_dividend) simp
  finally show ?thesis .
qed

text \<open>
  Once repeats have begun the stop watch counts from the last one, sent when the clock read \<open>t1\<close>.
\<close>

definition repeating_since :: "timeval \<Rightarrow> keyState \<Rightarrow> bool" where
  "repeating_since t1 ks \<longleftrightarrow> normal_time (cl0 ks) \<and> done_waiting ks \<noteq> 0 \<and>
     uint (elapsed ks) * 1000 \<le> usec_between t1 (cl0 ks)"

text \<open>What the state is when a pass has sent a repeat.\<close>

lemma lirc_repeat_sent:
  fixes os :: os and h :: hist and ks :: keyState
  defines "e \<equiv> elapsed ks + word_of_int (counted_ms (cl0 ks) (clock os h))"
  assumes "config ld = Some cfg" and "done_waiting ks \<noteq> 0" and "send_after_ms cfg \<le> e"
    and "normal_time (clock os h)"
  shows "wp (lirc_repeat os efd ld ks) (\<lambda>(ld', ks') h'. repeating_since (clock os h) ks') (\<lambda>_. True) h"
proof -
  have after: "wp (bindio m (\<lambda>ld'. seqio ev (seqio (guardio ok Int_overflow) (retio (ld', ks')))))
      (\<lambda>(ld', ks'') h'. repeating_since t ks'') (\<lambda>_. True) h1"
    if "repeating_since t ks'" for t ok ks' and m :: "lirc_data io" and ev :: "unit io" and h1
    using that by (auto simp: wp_simps intro!: wp_mono [OF wp_any])
  have now: "repeating_since (clock os h) (ks\<lparr>cl1 := clock os h, cl0 := clock os h, elapsed := 0,
      repeat_count := repeat_count ks + 1\<rparr>)"
    using assms(3,5) by (simp add: repeating_since_def usec_between_def)
  show ?thesis
    using assms(2-4) after [OF now] unfolding lirc_repeat_def
    by (simp add: wp_bindio [of "liftio _"] wp_bindio [of "updateTime _ _"] wp_liftio wp_updateTime wp_if
        split: sum.split flip: e_def)
qed

text \<open>
  C27: A key is never repeated too early or too often. Counting from the reading \<open>t0\<close> of the clock that
  \<open>reset_repeat\<close> makes after every packet, the stop watch never gets ahead of a clock that does not run
  backwards: a pass of the repeat part either sends nothing and only reads the clock, or at least the
  initial delay plus one interval has really passed since \<open>t0\<close>. From then on a pass that sends a repeat does so at
  least one interval after the reading \<open>t1\<close> of the clock with which the last repeat was sent.
\<close>

theorem repeats_not_early:
  assumes cfg: "config ld = Some cfg" and mono: "cl0 ks \<le> clock os h" "normal_time (clock os h)"
  shows "(held_since cfg t0 ks \<longrightarrow>
       wp (lirc_repeat os efd ld ks)
         (\<lambda>(ld', ks') h'.
            held_since cfg t0 ks' \<and> ld' = ld \<and> h' = (Gettimeofday, ret os h Gettimeofday) # h \<or>
            (uint (rate_delay cfg) + uint (send_after_ms cfg)) * 1000 \<le> usec_between t0 (clock os h) \<and>
              repeating_since (clock os h) ks')
         (\<lambda>_. True) h) \<and>
     (repeating_since t1 ks \<longrightarrow>
       wp (lirc_repeat os efd ld ks)
         (\<lambda>(ld', ks') h'.
            repeating_since t1 ks' \<and> ld' = ld \<and> h' = (Gettimeofday, ret os h Gettimeofday) # h \<or>
            uint (send_after_ms cfg) * 1000 \<le> usec_between t1 (clock os h) \<and> repeating_since (clock os h) ks')
         (\<lambda>_. True) h) \<and>
     wp (reset_repeat os ks) (\<lambda>ks' h'. held_since cfg (clock os h) ks') (\<lambda>_. False) h"
proof -
  let ?c = "counted_ms (cl0 ks) (clock os h)"
  let ?e = "elapsed ks + word_of_int ?c"
  let ?sent = "done_waiting ks \<noteq> 0 \<and> send_after_ms cfg \<le> ?e"
  have c: "0 \<le> ?c" "?c * 1000 \<le> usec_between (cl0 ks) (clock os h)" if "normal_time (cl0 ks)"
    using counted_ms_bounds [OF mono(1) that mono(2)] by simp_all
  have e: "uint ?e \<le> uint (elapsed ks) + ?c" if "normal_time (cl0 ks)" by (rule uint_plus_le [OF c(1) [OF that]])
  have add: "usec_between t (clock os h) = usec_between t (cl0 ks) + usec_between (cl0 ks) (clock os h)" for t
    by (simp add: usec_between_def algebra_simps)
  have held: "held_since cfg t0 (ks\<lparr>cl1 := clock os h, elapsed := ?e, cl0 := clock os h\<rparr>)"
    "done_waiting ks = 0 \<Longrightarrow> rate_delay cfg \<le> ?e \<Longrightarrow>
      held_since cfg t0 (ks\<lparr>cl1 := clock os h, cl0 := clock os h, done_waiting := 1, elapsed := 0\<rparr>)"
    "?sent \<Longrightarrow> (uint (rate_delay cfg) + uint (send_after_ms cfg)) * 1000 \<le> usec_between t0 (clock os h)"
    if "held_since cfg t0 ks"
    using that c e add [of t0] mono(2) by (auto simp: held_since_def word_le_def split: if_splits)
  have repeating: "repeating_since t1 (ks\<lparr>cl1 := clock os h, elapsed := ?e, cl0 := clock os h\<rparr>)"
    "?sent \<Longrightarrow> uint (send_after_ms cfg) * 1000 \<le> usec_between t1 (clock os h)" if "repeating_since t1 ks"
    using that c e add [of t1] mono(2) by (auto simp: repeating_since_def word_le_def)
  have sent: "wp (lirc_repeat os efd ld ks) (\<lambda>(ld', ks') h'. repeating_since (clock os h) ks') (\<lambda>_. True) h" if ?sent
    using lirc_repeat_sent [OF cfg] that mono(2) by blast
  have quiet: "wp (lirc_repeat os efd ld ks) P (\<lambda>_. True) h =
      (let ks1 = ks\<lparr>cl1 := clock os h, elapsed := ?e, cl0 := clock os h\<rparr>; h1 = (Gettimeofday, ret os h Gettimeofday) # h
       in P (ld, if done_waiting ks = 0 \<and> rate_delay cfg \<le> ?e then ks1\<lparr>done_waiting := 1, elapsed := 0\<rparr> else ks1) h1)"
    if "\<not> ?sent" for P
    using cfg that timeval_le_sec [OF mono(1)] by (auto simp: lirc_repeat_def wp_simps Let_def)
  have "wp (reset_repeat os ks) (\<lambda>ks' h'. held_since cfg (clock os h) ks') (\<lambda>_. False) h"
    using mono(2) by (simp add: wp_simps held_since_def usec_between_def)
  moreover have "wp (lirc_repeat os efd ld ks) (\<lambda>(ld', ks') h'.
        held_since cfg t0 ks' \<and> ld' = ld \<and> h' = (Gettimeofday, ret os h Gettimeofday) # h \<or>
        (uint (rate_delay cfg) + uint (send_after_ms cfg)) * 1000 \<le> usec_between t0 (clock os h) \<and>
          repeating_since (clock os h) ks') (\<lambda>_. True) h" if h0: "held_since cfg t0 ks"
  proof (cases ?sent)
    case True
    show ?thesis by (rule wp_mono [OF sent [OF True]]) (use held(3) [OF h0 True] in auto)
  next
    case False
    then show ?thesis using held(1,2) [OF h0] by (simp add: quiet Let_def)
  qed
  moreover have "wp (lirc_repeat os efd ld ks) (\<lambda>(ld', ks') h'.
        repeating_since t1 ks' \<and> ld' = ld \<and> h' = (Gettimeofday, ret os h Gettimeofday) # h \<or>
        uint (send_after_ms cfg) * 1000 \<le> usec_between t1 (clock os h) \<and> repeating_since (clock os h) ks')
      (\<lambda>_. True) h" if r0: "repeating_since t1 ks"
  proof (cases ?sent)
    case True
    show ?thesis by (rule wp_mono [OF sent [OF True]]) (use repeating(2) [OF r0 True] in auto)
  next
    case False
    then show ?thesis using repeating(1) [OF r0] r0 by (simp add: quiet Let_def repeating_since_def)
  qed
  ultimately show ?thesis by blast
qed

theorem repeats_not_early_witness:
  "wp (lirc_repeat (quiet_os\<lparr>clock := (\<lambda>h. Timeval 0 150000)\<rparr>) (-1) fresh_ld (idle_keys\<lparr>keyDown := 1, lastKey := 0\<rparr>))
     (\<lambda>(ld', ks') h'. h' = [(Gettimeofday, 0)]) (\<lambda>_. True) []"
proof -
  let ?os = "quiet_os\<lparr>clock := (\<lambda>h. Timeval 0 150000)\<rparr>"
  let ?ks = "idle_keys\<lparr>keyDown := 1, lastKey := 0\<rparr>"
  have h: "held_since full_config (Timeval 0 0) ?ks" "config fresh_ld = Some full_config"
    by (simp_all add: held_since_def idle_keys_def normal_time_def usec_between_def fresh_ld_def)
  have r: "rate_delay full_config = 200" "send_after_ms full_config = 100"
    by (simp_all add: rate_delay_def send_after_ms_def full_config_def cfg_defs)
  have t: "cl0 ?ks \<le> clock ?os []" "normal_time (clock ?os [])"
    by (simp_all add: idle_keys_def less_eq_timeval_def normal_time_def)
  note pass = mp [OF conjunct1 [OF repeats_not_early [OF h(2) t]] h(1)]
  show ?thesis
    by (rule wp_mono [OF pass]) (use r in \<open>auto simp: usec_between_def\<close>)
qed

end
