(* ===== verification/Captureif.thy ===== *)
theory Captureif
  imports Queue Bdrcfg
begin

text \<open>
  The data of the capture interface and its life cycle: \<^verbatim>\<open>src/captureif.h\<close> and
  \<^verbatim>\<open>src/captureif.c\<close>. The context pointer \<open>p\<close> of the struct is passed on to the callbacks; here
  only whether it is set, the data it points to are an argument of the functions that use them.
\<close>

record captureData =
  cd_magic0 :: int
  cd_config :: "configuration option"
  cd_p_set :: bool
  bt_dev_address :: "string option"
  dest_address :: "string option"
  timeout :: int
  sockets :: "int list"

text \<open>
  \<open>memset\<close> clears two bytes: the low half of the first socket number.
\<close>

definition clear_two_bytes :: "int list \<Rightarrow> int list" where
  "clear_two_bytes xs = xs[0 := xs ! 0 - xs ! 0 mod 65536]"

definition check :: "bool \<Rightarrow> stop + unit" where
  "check b = (if b then Inr () else Inl Assertion)"

definition bindr :: "stop + 'a \<Rightarrow> ('a \<Rightarrow> stop + 'b) \<Rightarrow> stop + 'b" where
  "bindr x f = (case x of Inl e \<Rightarrow> Inl e | Inr a \<Rightarrow> f a)"

lemma bindr_simps [simp]: "bindr (Inl e) f = Inl e" "bindr (Inr a) f = f a"
  by (simp_all add: bindr_def)

text \<open>\<open>_p\<close> is the address of the shared data, which is never null.\<close>

definition InitCaptureData :: "captureData \<Rightarrow> configuration \<Rightarrow> stop + captureData" where
  "InitCaptureData cd cfg =
     (let cd = cd\<lparr>cd_magic0 := 127\<rparr> in
      bindr (check (remote_addr cfg \<noteq> None)) (\<lambda>_.
      bindr (check (disconnect_timeout cfg > 0)) (\<lambda>_.
      bindr (check (cd_config cd = None)) (\<lambda>_.
      let cd = cd\<lparr>cd_config := Some cfg, cd_p_set := True,
            bt_dev_address := FREEVAL (bt_dev_address cd)\<rparr> in
      bindr (if interface_addr_set cfg \<noteq> 0
             then bindr (deref (interface_addr cfg)) (\<lambda>a.
               Inr (cd\<lparr>bt_dev_address := SETVAL (bt_dev_address cd) a\<rparr>))
             else Inr cd) (\<lambda>cd.
      let cd = cd\<lparr>dest_address := FREEVAL (dest_address cd)\<rparr> in
      bindr (deref (remote_addr cfg)) (\<lambda>a.
      let cd = cd\<lparr>dest_address := SETVAL (dest_address cd) a\<rparr> in
      Inr (cd\<lparr>timeout := disconnect_timeout cfg, sockets := clear_two_bytes (sockets cd)\<rparr>)))))))"

definition DestroyCaptureData :: "captureData \<Rightarrow> captureData" where
  "DestroyCaptureData cd = cd\<lparr>cd_p_set := False, bt_dev_address := None, dest_address := None\<rparr>"

text \<open>The struct after \<open>memset\<close> in \<open>main\<close>.\<close>

definition zero_capture :: captureData where
  "zero_capture = \<lparr>cd_magic0 = 0, cd_config = None, cd_p_set = False, bt_dev_address = None,
     dest_address = None, timeout = 0, sockets = [0, 0, 0]\<rparr>"

text \<open>What the capture loop relies on.\<close>

definition cd_ok :: "captureData \<Rightarrow> bool" where
  "cd_ok cd \<longleftrightarrow> cd_magic0 cd = 127 \<and> cd_config cd \<noteq> None \<and> cd_p_set cd \<and> dest_address cd \<noteq> None \<and>
     0 < timeout cd \<and> length (sockets cd) = 3"

lemma InitCaptureData_ok:
  assumes "cfg_wf cfg"
  shows "(case InitCaptureData zero_capture cfg of
       Inl e \<Rightarrow> e = Assertion \<and> (remote_addr cfg = None \<or> disconnect_timeout cfg \<le> 0)
     | Inr cd \<Rightarrow> cd_ok cd \<and> remote_addr cfg \<noteq> None \<and> 0 < disconnect_timeout cfg \<and>
         cd_config cd = Some cfg \<and> timeout cd = disconnect_timeout cfg \<and> dest_address cd = remote_addr cfg \<and>
         bt_dev_address cd = interface_addr cfg \<and> sockets cd = [0, 0, 0] \<and>
         bt_dev_address (DestroyCaptureData cd) = None \<and> dest_address (DestroyCaptureData cd) = None)"
  using assms
  by (auto simp: InitCaptureData_def Let_def zero_capture_def check_def cd_ok_def cfg_wf_def FREEVAL_def
      SETVAL_def clear_two_bytes_def DestroyCaptureData_def)

text \<open>
  Initialising the capture data succeeds exactly for a remote address and a positive timeout. On data
  cleared by \<open>main\<close> it then copies the addresses (that of the interface only when it was given) and
  the timeout, and establishes what the capture loop relies on; with \<open>-t 0\<close>, a negative or an unreadable
  timeout, which the option parser accepts, an assertion fails. Destroying the data afterwards releases
  both addresses.
\<close>

lemma InitCaptureData_spec:
  assumes "cfg_wf cfg"
  shows "(case InitCaptureData zero_capture cfg of
       Inl e \<Rightarrow> e = Assertion \<and> (remote_addr cfg = None \<or> disconnect_timeout cfg \<le> 0)
     | Inr cd \<Rightarrow> cd_ok cd \<and> remote_addr cfg \<noteq> None \<and> 0 < disconnect_timeout cfg \<and>
         cd_config cd = Some cfg \<and> timeout cd = disconnect_timeout cfg \<and> dest_address cd = remote_addr cfg \<and>
         bt_dev_address cd = interface_addr cfg \<and> sockets cd = [0, 0, 0] \<and>
         bt_dev_address (DestroyCaptureData cd) = None \<and> dest_address (DestroyCaptureData cd) = None)"
  by (rule InitCaptureData_ok [OF assms])

lemma InitCaptureData_spec_witness:
  "\<exists>cd. InitCaptureData zero_capture full_config = Inr cd \<and> cd_ok cd"
  using InitCaptureData_spec [OF cfg_wf_full]
  by (cases "InitCaptureData zero_capture full_config")
     (auto simp: full_config_def cfg_defs)

section \<open>The callbacks\<close>

text \<open>
  The functions the capture loop calls when something happens at the remote; each gets the context
  pointer \<open>p\<close>, here the state of type \<open>'p\<close> it points to, and returns that state changed.
\<close>

record 'p callbacks =
  cb_connected :: "'p \<Rightarrow> 'p io"
  cb_data :: "'p \<Rightarrow> byte list \<Rightarrow> int \<Rightarrow> 'p io"
  cb_charge :: "'p \<Rightarrow> int \<Rightarrow> 'p io"
  cb_disconnected :: "'p \<Rightarrow> 'p io"

text \<open>The calls a callback may make: on the queue, and to run a script.\<close>

definition client_call :: "syscall \<Rightarrow> bool" where
  "client_call c \<longleftrightarrow> queue_call c \<or> (\<exists>s. c = Proc (Access s) \<or> c = Proc (System s))"

text \<open>
  What a packet says about the battery: byte 12, when there is one and it is at most 5, in steps of
  20 percent.
\<close>

definition charge_of :: "byte list \<Rightarrow> int option" where
  "charge_of dat = (if 12 < length dat \<and> uint (dat ! 12) \<le> 5 then Some (uint (dat ! 12) * 20) else None)"

definition next_level :: "int option \<Rightarrow> byte list \<Rightarrow> int option" where
  "next_level l dat = (case charge_of dat of None \<Rightarrow> l | Some v \<Rightarrow> Some v)"

text \<open>
  A channel after messages were put on it while the other side took at most \<open>k\<close> off its front.
\<close>

definition fed :: "nat \<Rightarrow> 'm list \<Rightarrow> 'm list \<Rightarrow> 'm list \<Rightarrow> bool" where
  "fed k c ms c' \<longleftrightarrow> (\<exists>n \<le> k. c' = drop n (c @ ms))"

lemma fed_refl [simp]: "fed k c [] c"
  by (auto simp: fed_def intro: exI [of _ 0])

lemma drop_le: "\<exists>k \<le> length xs. k \<le> n \<and> drop n xs = drop k xs"
  by (cases "n \<le> length xs") (auto intro: exI [of _ "length xs"])

lemma fed_trans:
  assumes "fed a c ms c1" and "fed b c1 ns c2"
  shows "fed (a + b) c (ms @ ns) c2"
proof -
  obtain n m where n: "n \<le> a" "c1 = drop n (c @ ms)" and m: "m \<le> b" "c2 = drop m (c1 @ ns)"
    using assms by (auto simp: fed_def)
  obtain k where k: "k \<le> length (c @ ms)" "k \<le> n" and c1: "c1 = drop k (c @ ms)"
    using n drop_le [of "c @ ms" n] by auto
  then have "c1 @ ns = drop k ((c @ ms) @ ns)" by (simp only: drop_append) simp
  then have "c2 = drop (m + k) (c @ (ms @ ns))" by (simp add: m del: drop_append)
  then show ?thesis using n(1) m(1) k(2) unfolding fed_def by (intro exI [of _ "m + k"]) simp
qed

lemma fed_snoc: "c' = drop n c @ [x] \<Longrightarrow> fed n c [x] c'"
proof -
  assume c': "c' = drop n c @ [x]"
  obtain k where "k \<le> length c" "k \<le> n" and "drop n c = drop k c" using drop_le [of c n] by auto
  then have "c' = drop k (c @ [x])" using c' by simp
  then show ?thesis using \<open>k \<le> n\<close> unfolding fed_def by blast
qed

text \<open>
  The contract between the capture loop and the callbacks. A client keeps an invariant under every
  callback; it has a channel, on which \<open>cb_data\<close> puts the packet, and a charge, which
  \<open>cb_charge\<close> sets. Only the other side of the channel takes messages off it: \<open>took\<close> counts them. It makes only the calls allowed to it, and it returns, unless it is
  \<open>stuck\<close> because nobody empties its channel.
\<close>

locale capture_client =
  fixes cb :: "'p callbacks"
    and inv :: "'p \<Rightarrow> bool"
    and chan :: "'p \<Rightarrow> queueData list"
    and level :: "'p \<Rightarrow> int option"
    and took :: "hist \<Rightarrow> nat"
    and stuck :: bool
  assumes took_mono: "took h \<le> took (e # h)"
    and connected: "inv p \<Longrightarrow>
      wp (cb_connected cb p) (\<lambda>p' h'. inv p' \<and> chan p' = chan p \<and> level p' = level p \<and> grows client_call h h')
        (\<lambda>_. False) h"
    and disconnected: "inv p \<Longrightarrow>
      wp (cb_disconnected cb p) (\<lambda>p' h'. inv p' \<and> chan p' = chan p \<and> level p' = level p \<and> grows client_call h h')
        (\<lambda>_. False) h"
    and charged: "inv p \<Longrightarrow>
      wp (cb_charge cb p v) (\<lambda>p' h'. inv p' \<and> chan p' = chan p \<and> level p' = Some v \<and> grows client_call h h')
        (\<lambda>_. False) h"
    and data: "inv p \<Longrightarrow> 0 < len \<Longrightarrow> length dat = nat len \<Longrightarrow>
      wp (cb_data cb p dat len)
        (\<lambda>p' h'. inv p' \<and> (\<exists>n. took h' = took h + n \<and> fed n (chan p) [message dat] (chan p')) \<and>
           level p' = level p \<and> grows client_call h h')
        (\<lambda>e. e = Out_of_fuel \<and> stuck) h"
begin

lemma took_Cons [simp]: "k \<le> took h \<Longrightarrow> k \<le> took (e # h)"
  using took_mono by (rule order_trans [rotated])

lemma took_grows: "grows S h h' \<Longrightarrow> took h \<le> took h'"
proof -
  have "took h \<le> took (t @ h)" for t
    by (induction t) simp_all
  then show "grows S h h' \<Longrightarrow> took h \<le> took h'" by (auto simp: grows_def)
qed

end

end
