(* ===== verification/Lirc_Callback.thy ===== *)
theory Lirc_Callback
  imports Lirc_Srv Captureif
begin

text \<open>
  The callbacks of the capture interface, \<^verbatim>\<open>src/lirc_callback.c\<close>: a packet goes on the queue to
  the LIRC thread, a change of the battery charge runs the user's script. \<open>RemoteConnected\<close> and
  \<open>RemoteDisconnected\<close> only log. They run in the bluetooth thread; the LIRC thread takes messages off
  the queue meanwhile.
\<close>

definition RemoteConnected :: "lirc_data \<Rightarrow> lirc_data io" where
  "RemoteConnected lc = seqio (liftio (deref (config lc))) (retio lc)"

definition RemoteDisconnected :: "lirc_data \<Rightarrow> lirc_data io" where
  "RemoteDisconnected lc = seqio (liftio (deref (config lc))) (retio lc)"

text \<open>The messages the LIRC thread took off the queue since this thread last looked.\<close>

definition drained :: "os \<Rightarrow> lirc_data \<Rightarrow> lirc_data io" where
  "drained os lc = bindio (asksio (departures os)) (\<lambda>n. retio (lc\<lparr>qu := consumer_ran n (qu lc)\<rparr>))"

definition DataInd :: "os \<Rightarrow> nat \<Rightarrow> lirc_data \<Rightarrow> byte list \<Rightarrow> int \<Rightarrow> lirc_data io" where
  "DataInd os fuel lc dat len =
     seqio (assertio (magic0 lc = 0x15))
     (bindio (liftio (queueDataInit dat len)) (\<lambda>qd.
      bindio (drained os lc) (\<lambda>lc.
      bindio (queueAdd os fuel (qu lc) qd) (\<lambda>q. retio (lc\<lparr>qu := q\<rparr>)))))"

section \<open>The battery\<close>

definition cmd_len :: nat where
  "cmd_len = 512"

definition quoted :: "int \<Rightarrow> string" where
  "quoted i = [CHR 0x27] @ fmt_dec 0 i @ [CHR 0x27]"

definition script_command :: "string \<Rightarrow> int \<Rightarrow> int \<Rightarrow> string" where
  "script_command script prev cur = script @ '' '' @ quoted prev @ '' '' @ quoted cur @ '' &''"

text \<open>
  \<open>snprintf\<close> into an array of \<open>n\<close> bytes: the length of the whole text, or -1 when that is no
  \<open>int\<close>, and what the array holds up to the null.
\<close>

definition snprintf :: "nat \<Rightarrow> string \<Rightarrow> int \<times> string" where
  "snprintf n s = (if c_int (int (length s)) then int (length s) else -1, take (n - 1) s)"

definition CallBatteryChargeScript :: "os \<Rightarrow> configuration \<Rightarrow> int \<Rightarrow> int \<Rightarrow> unit io" where
  "CallBatteryChargeScript os cfg prev cur =
     (if battery_script_set cfg = 0 then retio ()
      else bindio (liftio (deref (battery_script cfg))) (\<lambda>script.
        bindio (sys os (Proc (Access script))) (\<lambda>result.
        if result \<noteq> 0 then retio ()
        else let (result, cmd) = snprintf cmd_len (script_command script prev cur) in
          if result \<le> 0 then retio ()
          else seqio (sys os (Proc (System cmd))) (retio ()))))"

definition RemoteBatteryCharge :: "os \<Rightarrow> lirc_data \<Rightarrow> int \<Rightarrow> lirc_data io" where
  "RemoteBatteryCharge os lc v =
     (if charge_percent_set lc \<noteq> 0
      then if charge_percent lc \<noteq> v
        then bindio (liftio (deref (config lc))) (\<lambda>cfg.
          seqio (CallBatteryChargeScript os cfg (charge_percent lc) v)
            (retio (lc\<lparr>charge_percent := v\<rparr>)))
        else retio lc
      else let lc = lc\<lparr>charge_percent := v, charge_percent_set := 1\<rparr> in
        bindio (liftio (deref (config lc))) (\<lambda>cfg.
        seqio (CallBatteryChargeScript os cfg v v) (retio lc)))"

section \<open>What the capture interface relies on\<close>

text \<open>
  The data stay valid under every callback, and the configuration is well formed: a script that is
  set is there.
\<close>

definition lc_ok :: "lirc_data \<Rightarrow> bool" where
  "lc_ok lc \<longleftrightarrow> ld_wf lc \<and> (\<exists>cfg. config lc = Some cfg \<and> cfg_wf cfg)"

lemma lc_ok_wf: "lc_ok lc \<Longrightarrow> ld_wf lc"
  by (simp add: lc_ok_def)

definition script_call :: "syscall \<Rightarrow> bool" where
  "script_call c \<longleftrightarrow> (\<exists>s. c = Proc (Access s) \<or> c = Proc (System s))"

lemma calls_script: "calls script_call (CallBatteryChargeScript os cfg prev cur)"
  unfolding CallBatteryChargeScript_def by (auto simp: script_call_def intro!: ext_intros)

lemma script_ok:
  "cfg_wf cfg \<Longrightarrow> wp (CallBatteryChargeScript os cfg prev cur) (\<lambda>_ _. True) (\<lambda>_. False) h"
  by (auto simp: CallBatteryChargeScript_def wp_simps cfg_wf_def)

lemma charge_ok:
  assumes "lc_ok lc"
  shows "wp (RemoteBatteryCharge os lc v)
     (\<lambda>lc' h'. lc_ok lc' \<and> charge_percent lc' = v \<and> charge_percent_set lc' \<noteq> 0 \<and>
        lc' = lc\<lparr>charge_percent := charge_percent lc', charge_percent_set := charge_percent_set lc'\<rparr> \<and>
        (\<exists>t. h' = t @ h \<and> (\<forall>e \<in> set t. script_call (fst e))))
     (\<lambda>_. False) h"
proof -
  obtain cfg where cfg: "config lc = Some cfg" "cfg_wf cfg" and wf: "ld_wf lc"
    using assms by (auto simp: lc_ok_def)
  have keep: "lc_ok (lc\<lparr>charge_percent := a\<rparr>)" "lc_ok (lc\<lparr>charge_percent := a, charge_percent_set := b\<rparr>)"
    for a b using wf cfg by (simp_all add: lc_ok_def ld_wf_def)
  note run = wp_mono [OF wp_calls [OF calls_script script_ok [OF cfg(2)]]]
  show ?thesis
    using cfg(1) keep assms
    by (auto simp: RemoteBatteryCharge_def wp_simps Let_def intro!: run)
qed

lemma data_ok:
  assumes ok: "lc_ok lc" and len: "0 \<le> len" "nat len \<le> length dat"
  shows "wp (DataInd os fuel lc dat len)
     (\<lambda>lc' h'. lc_ok lc' \<and> lc' = lc\<lparr>qu := qu lc'\<rparr> \<and>
        (\<exists>n. departed looks os h' = departed looks os h + n \<and>
           ring_list (qu lc') = drop n (ring_list (qu lc)) @ [message (take (nat len) dat)]) \<and>
        (departures os h = 0 \<and> full (qu lc) = 0 \<longrightarrow>
           ring_list (qu lc') = ring_list (qu lc) @ [message (take (nat len) dat)]) \<and>
        (\<forall>m. lock_depth m h' = lock_depth m h) \<and>
        (\<exists>t. h' = t @ h \<and> (\<forall>e \<in> set t. queue_call (fst e))))
     (\<lambda>e. e = Out_of_fuel \<and> \<not> drains os fuel) h"
proof -
  have wf: "ld_wf lc" and magic: "magic0 lc = 0x15" and inv: "ring_inv (qu lc)"
    using ok by (simp_all add: lc_ok_def ld_wf_def)
  let ?q = "consumer_ran (departures os h) (qu lc)" and ?m = "message (take (nat len) dat)"
  have inv': "ring_inv ?q" and rl: "ring_list ?q = drop (departures os h) (ring_list (qu lc))"
    using inv by (simp_all add: consumer_ran_inv)
  have same: "consumer_ran 0 q = q" for q by (simp add: consumer_ran_def)
  have init: "queueDataInit dat len = Inr ?m"
    using len by (simp add: queueDataInit_def message_def)
  have keep: "lc_ok (lc\<lparr>qu := q\<rparr>)" if "ring_inv q" for q
    using ok that by (simp add: lc_ok_def ld_wf_def)
  have "wp (queueAdd os fuel ?q ?m)
     (\<lambda>q' h'. ring_inv q' \<and>
        (\<exists>n. departed looks os h' = departed looks os h + n \<and> ring_list q' = drop n (ring_list (qu lc)) @ [?m]) \<and>
        (departures os h = 0 \<and> full (qu lc) = 0 \<longrightarrow> ring_list q' = ring_list (qu lc) @ [?m]) \<and>
        (\<forall>m. lock_depth m h' = lock_depth m h) \<and> (\<exists>t. h' = t @ h \<and> (\<forall>e \<in> set t. queue_call (fst e))))
     (\<lambda>e. e = Out_of_fuel \<and> \<not> drains os fuel) h"
    by (rule wp_stops [OF wp_mono [OF wp_calls [OF calls_queue_ops(1) queueAdd_ok [OF inv']],
            where F = "\<lambda>e. e = Out_of_fuel"]])
       (auto simp: rl drop_drop same add.commute dest: drains_returns [OF _ inv'])
  then show ?thesis
    using magic init keep
    by (auto simp: DataInd_def drained_def wp_simps elim!: wp_mono)
qed

lemma fresh_lc: "lc_ok fresh_ld"
  using fresh_ld_wf cfg_wf_full by (simp add: lc_ok_def fresh_ld_def)

section \<open>The contract of the capture loop\<close>

definition lirc_callbacks :: "os \<Rightarrow> nat \<Rightarrow> lirc_data callbacks" where
  "lirc_callbacks os fuel = \<lparr>cb_connected = RemoteConnected, cb_data = DataInd os fuel,
     cb_charge = RemoteBatteryCharge os, cb_disconnected = RemoteDisconnected\<rparr>"

definition known_charge :: "lirc_data \<Rightarrow> int option" where
  "known_charge lc = (if charge_percent_set lc \<noteq> 0 then Some (charge_percent lc) else None)"

lemma wp_connected:
  "lc_ok lc \<Longrightarrow> wp (RemoteConnected lc) P E h = P lc h"
  "lc_ok lc \<Longrightarrow> wp (RemoteDisconnected lc) P E h = P lc h"
  by (auto simp: RemoteConnected_def RemoteDisconnected_def wp_simps lc_ok_def)

interpretation lirc_client:
  capture_client "lirc_callbacks os fuel" lc_ok "\<lambda>lc. ring_list (qu lc)" known_charge
    "departed looks os" "\<not> drains os fuel"
proof (unfold_locales, goal_cases)
  case (1 h e)
  show ?case by (rule departed_mono)
next
  case (2 p h)
  then show ?case by (simp add: lirc_callbacks_def wp_connected)
next
  case (3 p h)
  then show ?case by (simp add: lirc_callbacks_def wp_connected)
next
  case (4 p v h)
  have script: "client_call c" if "script_call c" for c
    using that by (auto simp: client_call_def script_call_def)
  have "wp (RemoteBatteryCharge os p v) (\<lambda>p' h'. lc_ok p' \<and> ring_list (qu p') = ring_list (qu p) \<and>
      known_charge p' = Some v \<and> grows client_call h h') (\<lambda>_. False) h"
  proof (rule wp_mono [OF charge_ok [OF 4]], goal_cases)
    case (1 p' h')
    then have "p' = p\<lparr>charge_percent := charge_percent p', charge_percent_set := charge_percent_set p'\<rparr>"
      by (elim conjE)
    from arg_cong [OF this, of qu] have "qu p' = qu p" by simp
    with 1 script show ?case by (auto simp: known_charge_def grows_def)
  qed
  then show ?case by (simp add: lirc_callbacks_def)
next
  case (5 p len dat h)
  have dat: "0 \<le> len" "nat len \<le> length dat" "take (nat len) dat = dat" using 5 by simp_all
  have queue: "client_call c" if "queue_call c" for c using that by (simp add: client_call_def)
  have "wp (DataInd os fuel p dat len) (\<lambda>p' h'. lc_ok p' \<and>
      (\<exists>n. departed looks os h' = departed looks os h + n \<and>
         fed n (ring_list (qu p)) [message dat] (ring_list (qu p'))) \<and> known_charge p' = known_charge p \<and>
      grows client_call h h') (\<lambda>e. e = Out_of_fuel \<and> \<not> drains os fuel) h"
  proof (rule wp_mono [OF data_ok [OF 5(1) dat(1,2)]], goal_cases)
    case (1 p' h')
    then have "p' = p\<lparr>qu := qu p'\<rparr>" by (elim conjE)
    from arg_cong [OF this, of charge_percent] arg_cong [OF this, of charge_percent_set]
    have "charge_percent p' = charge_percent p" "charge_percent_set p' = charge_percent_set p" by simp_all
    with 1 queue show ?case by (auto simp: known_charge_def grows_def dat(3) intro!: fed_snoc)
  qed
  then show ?case by (simp add: lirc_callbacks_def)
qed

section \<open>Properties\<close>

text \<open>
  C29: A packet goes on the queue whole and last. \<open>DataInd\<close> copies exactly the bytes it is given, puts
  them behind what the LIRC thread left on the queue, which is all that was there but the \<open>n\<close> oldest messages
  when that thread took \<open>n\<close> meanwhile, keeps the shared data valid and gives the
  mutex back; it returns when the LIRC thread takes messages off a full queue in time. It touches no
  descriptor.
\<close>

theorem DataInd_spec:
  assumes "lc_ok lc" and "length dat = nat len" and "0 \<le> len"
  shows "wp (DataInd os fuel lc dat len)
     (\<lambda>lc' h'. lc_ok lc' \<and> lc' = lc\<lparr>qu := qu lc'\<rparr> \<and>
        (\<exists>n. departed looks os h' = departed looks os h + n \<and>
           ring_list (qu lc') = drop n (ring_list (qu lc)) @ [message dat]) \<and>
        (\<forall>m. lock_depth m h' = lock_depth m h) \<and>
        (\<exists>t. h' = t @ h \<and> (\<forall>e \<in> set t. queue_call (fst e))))
     (\<lambda>e. e = Out_of_fuel \<and> \<not> drains os fuel) h"
  by (rule wp_mono [OF data_ok [OF assms(1,3), of dat os fuel h]]) (use assms(2) in auto)

theorem DataInd_spec_witness:
  "wp (DataInd taking_os (Suc 0) fresh_ld [0xa1, 7] 2)
     (\<lambda>lc' h'. ring_list (qu lc') = [message [0xa1, 7]]) (\<lambda>_. False) []"
  by (rule wp_mono [OF DataInd_spec [OF fresh_lc]]) (auto simp: fresh_ld_def drains_taking)

text \<open>
  C30: The script runs once per change of the charge. The first report, and every report that differs
  from the last, is stored; when a script is set and can be executed it is run with the previous and the
  new charge, the first time with the same value twice. A command line that does not fit the
  array of 512 bytes is not refused: its first 511 characters are run.
\<close>

theorem RemoteBatteryCharge_spec:
  fixes os :: os and h :: hist
  assumes ok: "lc_ok lc" and cfg: "config lc = Some cfg"
    and fits: "\<forall>s. battery_script cfg = Some s \<longrightarrow> c_int (int (length (script_command s (charge_percent lc) v))) \<and>
      c_int (int (length (script_command s v v)))"
  defines "prev \<equiv> (if charge_percent_set lc \<noteq> 0 then charge_percent lc else v)"
  shows "wp (RemoteBatteryCharge os lc v)
     (\<lambda>lc' h'. charge_percent lc' = v \<and> charge_percent_set lc' \<noteq> 0 \<and>
        lc' = lc\<lparr>charge_percent := charge_percent lc', charge_percent_set := charge_percent_set lc'\<rparr> \<and>
        (if battery_script_set cfg = 0 \<or> charge_percent_set lc \<noteq> 0 \<and> charge_percent lc = v then h' = h
         else \<exists>s e. battery_script cfg = Some s \<and>
           (if ret os h (Proc (Access s)) = 0
            then h' = (Proc (System (take 511 (script_command s prev v))), e) # (Proc (Access s), 0) # h
            else h' = (Proc (Access s), ret os h (Proc (Access s))) # h)))
     (\<lambda>_. False) h"
proof -
  have set: "battery_script_set cfg \<noteq> 0 \<Longrightarrow> \<exists>s. battery_script cfg = Some s"
    using ok cfg by (auto simp: lc_ok_def cfg_wf_def)
  have pos: "0 < length (script_command s a b)" for s a b by (simp add: script_command_def)
  have call: "wp (CallBatteryChargeScript os cfg a b) P (\<lambda>_. False) h =
      (if battery_script_set cfg = 0 then P () h
       else let s = the (battery_script cfg); r = ret os h (Proc (Access s)); h1 = (Proc (Access s), r) # h;
                c = Proc (System (take 511 (script_command s a b)))
            in if r \<noteq> 0 then P () h1 else P () ((c, ret os h1 c) # h1))"
    if "\<And>s. battery_script cfg = Some s \<Longrightarrow> c_int (int (length (script_command s a b)))" for P a b
    using that set pos
    by (auto simp: CallBatteryChargeScript_def wp_simps Let_def snprintf_def cmd_len_def split: prod.splits)
  show ?thesis
  proof (cases "charge_percent_set lc \<noteq> 0")
    case True
    then show ?thesis
      using cfg set fits by (cases lc) (auto simp: RemoteBatteryCharge_def wp_simps call prev_def Let_def)
  next
    case False
    then show ?thesis
      using cfg set fits by (cases lc) (auto simp: RemoteBatteryCharge_def wp_simps call prev_def Let_def)
  qed
qed

theorem RemoteBatteryCharge_spec_witness:
  "wp (RemoteBatteryCharge quiet_os fresh_ld 80)
     (\<lambda>lc' h'. charge_percent lc' = 80) (\<lambda>_. False) []"
proof -
  have cfg: "config fresh_ld = Some full_config" by (simp add: fresh_ld_def)
  have d: "base_digits 10 80 = ''80''" "base_digits 10 100 = ''100''"
    by (simp_all add: base_digits_small base_digits_big digit_char_def)
  have len: "c_int (int (length (script_command ''/bin/true'' a 80)))" if "a = 80 \<or> a = 100" for a
    using that d by (auto simp: script_command_def quoted_def fmt_dec_def pad0_def c_int_def)
  have s: "battery_script full_config = Some ''/bin/true''" by (simp add: full_config_def cfg_defs)
  have p: "charge_percent fresh_ld = 100" by (simp add: fresh_ld_def)
  show ?thesis
    by (rule wp_mono [OF RemoteBatteryCharge_spec [OF fresh_lc cfg]]) (use len s p in auto)
qed

end
