(* ===== verification/Pipeline.thy ===== *)
theory Pipeline
  imports Remote_Events Lirc_Callback
begin

text \<open>
  From the remote to the clients: the bluetooth thread with its callbacks (\<^verbatim>\<open>src/lirc_callback.c\<close>) and the
  LIRC thread (\<^verbatim>\<open>src/lirc_thr.c\<close>) over the same data. One step is a whole callback, or a whole pass
  of the loop of the LIRC thread; that the threads exclude each other in the queue is shown in theory
  \<open>Queue_Conc\<close>. The functions that run in a step are those of the other theories, and because the other
  thread moves in steps of its own, the answers of the system tell of none of its moves.
\<close>

section \<open>Steps\<close>

text \<open>
  \<open>received\<close> records the packets the remote sent; each thread has its own history of calls.
\<close>

record psys =
  pld :: lirc_data
  pks :: keyState
  bt_hist :: hist
  lirc_hist :: hist
  received :: "byte list list"

definition alone :: "os \<Rightarrow> bool" where
  "alone os \<longleftrightarrow> (\<forall>h. departures os h = 0 \<and> arrivals os h = [])"

text \<open>
  The bluetooth thread: \<open>DataInd\<close> with a packet while the queue is not full, and
  \<open>RemoteBatteryCharge\<close>. On a full queue it has to wait, so the step comes later.
\<close>

inductive bt_step :: "bool \<Rightarrow> psys \<Rightarrow> psys \<Rightarrow> bool" for er :: bool where
  b_packet: "alone os \<Longrightarrow> packet_ok er m \<Longrightarrow> full (qu (pld s)) = 0 \<Longrightarrow>
     DataInd os fuel (pld s) m (int (length m)) (bt_hist s) = Inr (ld', h') \<Longrightarrow>
     bt_step er s (s\<lparr>pld := ld', bt_hist := h', received := received s @ [m]\<rparr>)"
| b_charge: "RemoteBatteryCharge os (pld s) v (bt_hist s) = Inr (ld', h') \<Longrightarrow>
     bt_step er s (s\<lparr>pld := ld', bt_hist := h'\<rparr>)"

inductive lirc_step :: "os \<Rightarrow> bool \<Rightarrow> int \<Rightarrow> psys \<Rightarrow> psys \<Rightarrow> bool" for os :: os and er :: bool and efd :: int where
  l_pass: "lirc_pass os fuel er efd (pld s) (pks s) (lirc_hist s) = Inr ((ld', ks'), h') \<Longrightarrow>
     lirc_step os er efd s (s\<lparr>pld := ld', pks := ks', lirc_hist := h'\<rparr>)"

definition pstep :: "os \<Rightarrow> bool \<Rightarrow> int \<Rightarrow> psys \<Rightarrow> psys \<Rightarrow> bool" where
  "pstep os er efd s t \<longleftrightarrow> bt_step er s t \<or> lirc_step os er efd s t"

text \<open>
  The start: valid data, an empty queue, every key up; the client \<open>fd\<close> is connected and takes
  everything.
\<close>

definition pinit :: "os \<Rightarrow> bool \<Rightarrow> configuration \<Rightarrow> int \<Rightarrow> int \<Rightarrow> psys \<Rightarrow> bool" where
  "pinit os er cfg fd efd s \<longleftrightarrow>
     alone os \<and> thr_env er cfg os \<and> cfg_wf cfg \<and> ld_wf (pld s) \<and> config (pld s) = Some cfg \<and>
     ring_list (qu (pld s)) = [] \<and> tracks er Up (pks s) \<and> received s = [] \<and>
     reliable os fd \<and> count_list (clients (pld s)) fd = 1 \<and>
     sent fd (lirc_hist s) = [] \<and> key_events efd (lirc_hist s) = []"

section \<open>The invariant\<close>

definition pinv :: "os \<Rightarrow> bool \<Rightarrow> configuration \<Rightarrow> int \<Rightarrow> int \<Rightarrow> psys \<Rightarrow> bool" where
  "pinv os er cfg fd efd s \<longleftrightarrow>
     alone os \<and> thr_env er cfg os \<and> cfg_wf cfg \<and> reliable os fd \<and> count_list (clients (pld s)) fd = 1 \<and>
     (\<exists>ms q xs r. received s = ms @ q \<and> thr_ok er cfg r q (pld s) (pks s) \<and> remote_run er cfg Up ms xs r \<and>
        sent fd (lirc_hist s) = lines xs \<and> key_events efd (lirc_hist s) = (if efd \<noteq> -1 then events xs else []))"

lemma pinv_data: "pinv os er cfg fd efd s \<Longrightarrow> lc_ok (pld s)"
  by (auto simp: pinv_def thr_ok_def lc_ok_def)

lemma pinit_inv: "pinit os er cfg fd efd s \<Longrightarrow> pinv os er cfg fd efd s"
  unfolding pinv_def
  by (intro conjI exI [of _ "[]"] exI [of _ Up])
    (auto simp: pinit_def thr_ok_def held_known_def intro: run_start)

lemma bt_step_inv:
  assumes "bt_step er s t" and inv: "pinv os er cfg fd efd s"
  shows "pinv os er cfg fd efd t"
  using assms(1)
proof (cases rule: bt_step.cases)
  case (b_packet os' m fuel ld' h')
  have "wp (DataInd os' fuel (pld s) m (int (length m)))
      (\<lambda>ld' h'. lc_ok ld' \<and> ld' = (pld s)\<lparr>qu := qu ld'\<rparr> \<and>
         ring_list (qu ld') = ring_list (qu (pld s)) @ [message m]) (\<lambda>_. True) (bt_hist s)"
    by (rule wp_mono [OF data_ok [OF pinv_data [OF inv]]]) (use b_packet in \<open>auto simp: alone_def\<close>)
  with b_packet(5) have ld': "lc_ok ld'" "ld' = (pld s)\<lparr>qu := qu ld'\<rparr>"
      "ring_list (qu ld') = ring_list (qu (pld s)) @ [message m]" by (simp_all add: wp_def)
  from arg_cong [OF ld'(2), of config] arg_cong [OF ld'(2), of clients]
  have same: "config ld' = config (pld s)" "clients ld' = clients (pld s)" by (simp_all add: clients_def)
  obtain ms q xs r where old: "received s = ms @ q" "thr_ok er cfg r q (pld s) (pks s)" "remote_run er cfg Up ms xs r"
      "sent fd (lirc_hist s) = lines xs" "key_events efd (lirc_hist s) = (if efd \<noteq> -1 then events xs else [])"
    using inv by (auto simp: pinv_def)
  have "thr_ok er cfg r (q @ [m]) ld' (pks s)"
    using old(2) ld' same b_packet(3) by (simp add: thr_ok_def lc_ok_def)
  with old inv same b_packet(1) show ?thesis
    unfolding pinv_def by (intro conjI exI [of _ ms] exI [of _ "q @ [m]"] exI [of _ xs] exI [of _ r]) simp_all
next
  case (b_charge os' v ld' h')
  have "wp (RemoteBatteryCharge os' (pld s) v)
      (\<lambda>ld' h'. lc_ok ld' \<and> ld' = (pld s)\<lparr>charge_percent := charge_percent ld', charge_percent_set := charge_percent_set ld'\<rparr>)
      (\<lambda>_. False) (bt_hist s)"
    by (rule wp_mono [OF charge_ok [OF pinv_data [OF inv]]]) auto
  with b_charge(2) have ld': "lc_ok ld'"
      "ld' = (pld s)\<lparr>charge_percent := charge_percent ld', charge_percent_set := charge_percent_set ld'\<rparr>"
    by (simp_all add: wp_def)
  from arg_cong [OF ld'(2), of config] arg_cong [OF ld'(2), of clients] arg_cong [OF ld'(2), of qu]
  have same: "config ld' = config (pld s)" "clients ld' = clients (pld s)" "qu ld' = qu (pld s)"
    by (simp_all add: clients_def)
  have "thr_ok er cfg r q (pld s) (pks s) \<Longrightarrow> thr_ok er cfg r q ld' (pks s)" for r q
    using same ld'(1) by (simp add: thr_ok_def lc_ok_def)
  with inv same b_charge(1) show ?thesis unfolding pinv_def by fastforce
qed

lemma lirc_step_inv:
  assumes "lirc_step os er efd s t" and inv: "pinv os er cfg fd efd s"
  shows "pinv os er cfg fd efd t"
  using assms(1)
proof (cases rule: lirc_step.cases)
  case (l_pass fuel ld' ks' h')
  have env: "thr_env er cfg os" and none: "\<And>new. arrived os new \<Longrightarrow> new = []"
    using inv by (auto simp: pinv_def alone_def arrived_def)
  obtain ms q xs r where old: "received s = ms @ q" "thr_ok er cfg r q (pld s) (pks s)" "remote_run er cfg Up ms xs r"
      "sent fd (lirc_hist s) = lines xs" "key_events efd (lirc_hist s) = (if efd \<noteq> -1 then events xs else [])"
    using inv by (auto simp: pinv_def)
  have "thr_step er cfg os fd efd r q (pld s) (pks s) (lirc_hist s) ld' ks' h'"
    using pass_ok [OF env old(2), of fuel efd fd "lirc_hist s"] l_pass(2) by (simp add: wp_def)
  then obtain q' ms' xs' r' where new: "q = ms' @ q'" "thr_ok er cfg r' q' ld' ks'"
      "step_ok os fd efd (pld s) (lirc_hist s) xs' ld' h'" "remote_run er cfg Up (ms @ ms') (xs @ xs') r'"
    using old(3) none unfolding thr_step_def by (metis append_Nil2)
  show ?thesis
    using inv old new l_pass(1) unfolding pinv_def
    by (intro conjI exI [of _ "ms @ ms'"] exI [of _ q'] exI [of _ "xs @ xs'"] exI [of _ r'])
       (simp_all add: step_ok_def)
qed

interpretation pipe: invariant_system "pinit os er cfg fd efd" "pstep os er efd" "pinv os er cfg fd efd"
  by unfold_locales (auto simp: pstep_def intro: pinit_inv bt_step_inv lirc_step_inv)

section \<open>Properties\<close>

text \<open>
  What the remote sends is what the clients see. However the bluetooth thread and the LIRC thread are interleaved,
  at any moment the packets received so far are those handled and those still queued, in order; and all that a
  client that takes everything was sent, and all that was written to the input device, is what the specified
  remote gives for the packets handled, whose state the LIRC thread is in.
\<close>

lemma remote_to_clients:
  assumes "reach (pinit os er cfg fd efd) (pstep os er efd) s"
  shows "\<exists>ms q xs r. received s = ms @ q \<and> ring_list (qu (pld s)) = map message q \<and>
     remote_run er cfg Up ms xs r \<and> tracks er r (pks s) \<and> ld_wf (pld s) \<and> sent fd (lirc_hist s) = lines xs \<and>
     key_events efd (lirc_hist s) = (if efd \<noteq> -1 then events xs else [])"
  using pipe.reach_inv [OF assms] unfolding pinv_def thr_ok_def by blast

definition psys0 :: psys where
  "psys0 = \<lparr>pld = fresh_ld\<lparr>clis := 7 # replicate 15 0, clin := 1\<rparr>, pks = idle_keys, bt_hist = [], lirc_hist = [],
     received = []\<rparr>"

lemma pinit_psys0: "pinit quiet_os True full_config 7 (-1) psys0"
proof -
  have env: "thr_env True full_config quiet_os"
    by (simp add: thr_env_def posix_write_def posix_clock_def packets_ok_def quiet_os_def suffix_fits_def
        full_config_def cfg_defs)
  show ?thesis
    using env cfg_wf_full
    by (simp add: pinit_def psys0_def alone_def quiet_os_def reliable_def clients_def ld_wf_def fresh_ld_def
        idle_keys_def MAX_CLIENTS_def)
qed

lemma queued_packet:
  "\<exists>ld' h'. DataInd quiet_os 3 (pld psys0) (up_packet 0x54 1) 13 [] = Inr (ld', h')"
proof -
  have "sync empty_queue" using empty_queue_inv(1) unfolding ring_inv_def by (rule conjunct1)
  then have "wp (DataInd quiet_os 3 (pld psys0) (up_packet 0x54 1) 13) (\<lambda>_ _. True) (\<lambda>_. False) []"
    by (simp add: psys0_def fresh_ld_def DataInd_def drained_def consumer_ran_def wp_simps queueAdd_def queueDataInit_def
        up_packet_def lock_queue_def unlock_and_signal_def Let_def queueAdd_wait.simps)
  then show ?thesis by (auto simp: wp_def split: sum.splits)
qed

lemma remote_to_clients_witness:
  "\<exists>s :: psys. received s = [up_packet 0x54 1] \<and> (\<exists>ms q xs r. received s = ms @ q \<and>
     ring_list (qu (pld s)) = map message q \<and> remote_run True full_config Up ms xs r)"
proof -
  let ?init = "pinit quiet_os True full_config 7 (-1)" and ?step = "pstep quiet_os True (-1)"
  obtain ld' h' where "DataInd quiet_os 3 (pld psys0) (up_packet 0x54 1) 13 [] = Inr (ld', h')"
    using queued_packet by blast
  moreover have "find_key 0x54 = Some 6"
    by (simp add: find_key_def ps3remote_keys_def key_def upt_rec)
  ultimately have "?step psys0 (psys0\<lparr>pld := ld', bt_hist := h', received := [up_packet 0x54 1]\<rparr>)"
    using b_packet [of quiet_os True "up_packet 0x54 1" psys0 3 ld' h']
    by (simp add: pstep_def psys0_def alone_def packet_ok_def known_packet_def up_packet_def fresh_ld_def)
  with pinit_psys0 have r: "reach ?init ?step (psys0\<lparr>pld := ld', bt_hist := h', received := [up_packet 0x54 1]\<rparr>)"
    by (blast intro: reach.intros)
  show ?thesis
    by (rule exI [of _ "psys0\<lparr>pld := ld', bt_hist := h', received := [up_packet 0x54 1]\<rparr>"])
      (use remote_to_clients [OF r] in \<open>auto\<close>)
qed

end
