(* ===== verification/Pipeline_Fine.thy ===== *)
theory Pipeline_Fine
  imports Queue_Conc Pipeline
begin

text \<open>
  The way of a packet at the grain of the queue's mutex. The bluetooth thread is somewhere in \<open>queueAdd\<close>, called by
  \<open>DataInd\<close> (\<^verbatim>\<open>src/lirc_callback.c\<close>), while the LIRC thread is somewhere in \<open>queueRemNonBlock\<close>, in the handling of
  a message, or in the repeat part of its loop (\<^verbatim>\<open>src/lirc_thr.c\<close>). The steps in the queue are those of theory
  \<open>Queue_Conc\<close>, those outside run the functions of theory \<open>Lirc_Thr\<close>.
\<close>

section \<open>Steps\<close>

datatype lirc_at = In_queue | Handling queueData | Repeating

text \<open>The field \<open>qu\<close> of \<open>fld\<close> is not used: the queue is \<open>fq\<close>.\<close>

record fsys =
  fq :: "queueData qsys"
  fpc :: lirc_at
  fld :: lirc_data
  fks :: keyState
  fhist :: hist

inductive fine_bt_step :: "bool \<Rightarrow> fsys \<Rightarrow> fsys \<Rightarrow> bool" for er :: bool where
  f_packet: "packet_ok er m \<Longrightarrow> add_step (fq s) q \<Longrightarrow> apc (fq s) = A_idle \<Longrightarrow> apc q = A_lock (message m) \<Longrightarrow>
     fine_bt_step er s (s\<lparr>fq := q\<rparr>)"
| f_add: "add_step (fq s) q \<Longrightarrow> apc (fq s) \<noteq> A_idle \<Longrightarrow> fine_bt_step er s (s\<lparr>fq := q\<rparr>)"
| f_wake: "env_step (fq s) q \<Longrightarrow> fine_bt_step er s (s\<lparr>fq := q\<rparr>)"

inductive fine_lirc_step :: "os \<Rightarrow> bool \<Rightarrow> int \<Rightarrow> fsys \<Rightarrow> fsys \<Rightarrow> bool" for os :: os and er :: bool and efd :: int where
  f_rem: "fpc s = In_queue \<Longrightarrow> rem_step (fq s) q \<Longrightarrow>
     fine_lirc_step os er efd s (s\<lparr>fq := q, fpc := (if rpc q \<noteq> R_idle then In_queue
       else if rpc (fq s) = R_fail then Repeating else Handling (last (taken q)))\<rparr>)"
| f_handle: "fpc s = Handling qd \<Longrightarrow> lirc_handle os er efd (fld s) qd (fks s) (fhist s) = Inr ((ld', ks'), h') \<Longrightarrow>
     fine_lirc_step os er efd s (s\<lparr>fpc := Repeating, fld := ld', fks := ks', fhist := h'\<rparr>)"
| f_repeat: "fpc s = Repeating \<Longrightarrow> er \<Longrightarrow> keyDown (fks s) = 1 \<Longrightarrow>
     lirc_repeat os efd (fld s) (fks s) (fhist s) = Inr ((ld', ks'), h') \<Longrightarrow>
     fine_lirc_step os er efd s (s\<lparr>fpc := In_queue, fld := ld', fks := ks', fhist := h'\<rparr>)"
| f_no_repeat: "fpc s = Repeating \<Longrightarrow> \<not> (er \<and> keyDown (fks s) = 1) \<Longrightarrow>
     fine_lirc_step os er efd s (s\<lparr>fpc := In_queue\<rparr>)"

definition fine_step :: "os \<Rightarrow> bool \<Rightarrow> int \<Rightarrow> fsys \<Rightarrow> fsys \<Rightarrow> bool" where
  "fine_step os er efd s t \<longleftrightarrow> fine_bt_step er s t \<or> fine_lirc_step os er efd s t"

definition fine_init :: "os \<Rightarrow> bool \<Rightarrow> configuration \<Rightarrow> int \<Rightarrow> int \<Rightarrow> fsys \<Rightarrow> bool" where
  "fine_init os er cfg fd efd s \<longleftrightarrow>
     alone os \<and> thr_env er cfg os \<and> ld_wf (fld s) \<and> config (fld s) = Some cfg \<and> ring_list (qu (fld s)) = [] \<and>
     tracks er Up (fks s) \<and> qinit (fq s) \<and> fpc s = In_queue \<and>
     reliable os fd \<and> count_list (clients (fld s)) fd = 1 \<and> sent fd (fhist s) = [] \<and> key_events efd (fhist s) = []"

section \<open>The invariant\<close>

text \<open>The packet the bluetooth thread has in its hand is one the remote sent.\<close>

definition pending_ok :: "bool \<Rightarrow> queueData add_pc \<Rightarrow> bool" where
  "pending_ok er pc = (case pc of A_lock x \<Rightarrow> \<exists>m. x = message m \<and> packet_ok er m
     | A_test x \<Rightarrow> \<exists>m. x = message m \<and> packet_ok er m | A_wait x \<Rightarrow> \<exists>m. x = message m \<and> packet_ok er m
     | A_woken x \<Rightarrow> \<exists>m. x = message m \<and> packet_ok er m | _ \<Rightarrow> True)"

text \<open>A message taken off the ring and not yet handled.\<close>

definition in_hand_of :: "lirc_at \<Rightarrow> queueData qsys \<Rightarrow> queueData list" where
  "in_hand_of pc q = (case pc of In_queue \<Rightarrow> if rpc q = R_unlock \<or> rpc q = R_signal then [last (taken q)] else []
     | Handling qd \<Rightarrow> [qd] | Repeating \<Rightarrow> [])"

definition sent_packets :: "bool \<Rightarrow> queueData list \<Rightarrow> bool" where
  "sent_packets er xs \<longleftrightarrow> (\<exists>ps. xs = map message ps \<and> (\<forall>m \<in> set ps. packet_ok er m))"

definition fine_queue :: "bool \<Rightarrow> byte list list \<Rightarrow> lirc_at \<Rightarrow> queueData qsys \<Rightarrow> bool" where
  "fine_queue er ms pc q \<longleftrightarrow> qsys_inv q \<and> pending_ok er (apc q) \<and> (pc \<noteq> In_queue \<longrightarrow> rpc q = R_idle) \<and>
     taken q = map message ms @ in_hand_of pc q \<and> sent_packets er (added q)"

definition fine_out :: "bool \<Rightarrow> configuration \<Rightarrow> int \<Rightarrow> int \<Rightarrow> byte list list \<Rightarrow> lirc_data \<Rightarrow> keyState \<Rightarrow> hist \<Rightarrow> bool" where
  "fine_out er cfg fd efd ms ld ks h \<longleftrightarrow> count_list (clients ld) fd = 1 \<and>
     (\<exists>xs r. thr_ok er cfg r [] ld ks \<and> remote_run er cfg Up ms xs r \<and> sent fd h = lines xs \<and>
        key_events efd h = (if efd \<noteq> -1 then events xs else []))"

definition fine_inv :: "os \<Rightarrow> bool \<Rightarrow> configuration \<Rightarrow> int \<Rightarrow> int \<Rightarrow> fsys \<Rightarrow> bool" where
  "fine_inv os er cfg fd efd s \<longleftrightarrow> alone os \<and> thr_env er cfg os \<and> reliable os fd \<and>
     (\<exists>ms. fine_queue er ms (fpc s) (fq s) \<and> fine_out er cfg fd efd ms (fld s) (fks s) (fhist s))"

lemma sent_packets_snoc:
  "sent_packets er xs \<Longrightarrow> x = message m \<Longrightarrow> packet_ok er m \<Longrightarrow> sent_packets er (xs @ [x])"
  unfolding sent_packets_def by (elim exE, rule exI [where x = "_ @ [m]"]) auto

lemma in_hand_same:
  "taken q' = taken q \<Longrightarrow> (rpc q' = R_unlock \<longleftrightarrow> rpc q = R_unlock) \<Longrightarrow> (rpc q' = R_signal \<longleftrightarrow> rpc q = R_signal) \<Longrightarrow>
     in_hand_of pc q' = in_hand_of pc q"
  by (simp add: in_hand_of_def split: lirc_at.split)

lemma fine_queue_same:
  assumes "fine_queue er ms pc q" and "qsys_inv q'" and "pending_ok er (apc q')" and "sent_packets er (added q')"
    and "taken q' = taken q" "rpc q' = R_idle \<longleftrightarrow> rpc q = R_idle" "rpc q' = R_unlock \<longleftrightarrow> rpc q = R_unlock"
      "rpc q' = R_signal \<longleftrightarrow> rpc q = R_signal"
  shows "fine_queue er ms pc q'"
  using assms(1-4,6) in_hand_same [OF assms(5,7,8), of pc] assms(5) by (simp add: fine_queue_def)

lemma fine_queue_add:
  assumes st: "add_step q q'" and act: "apc q \<noteq> A_idle" and inv: "fine_queue er ms pc q"
  shows "fine_queue er ms pc q'"
proof -
  have qi: "qsys_inv q'" using add_step_inv [OF st] inv by (simp add: fine_queue_def)
  have "taken q' = taken q \<and> (rpc q' = R_idle \<longleftrightarrow> rpc q = R_idle) \<and> (rpc q' = R_unlock \<longleftrightarrow> rpc q = R_unlock) \<and>
      (rpc q' = R_signal \<longleftrightarrow> rpc q = R_signal) \<and> pending_ok er (apc q') \<and> sent_packets er (added q')"
    using st
  proof (cases rule: add_step.cases)
    case (a_put x)
    then obtain m where "x = message m" "packet_ok er m" using inv by (auto simp: fine_queue_def pending_ok_def)
    then have "sent_packets er (added q @ [x])" using inv by (auto simp: fine_queue_def intro: sent_packets_snoc)
    with a_put show ?thesis by (simp add: pending_ok_def)
  qed (use inv act in \<open>auto simp: fine_queue_def pending_ok_def wake_remover_def\<close>)
  with fine_queue_same [OF inv qi] show ?thesis by blast
qed

lemma fine_queue_call:
  assumes st: "add_step q q'" and idle: "apc q = A_idle" and pc: "apc q' = A_lock (message m)" and m: "packet_ok er m"
    and inv: "fine_queue er ms pc q"
  shows "fine_queue er ms pc q'"
proof -
  have qi: "qsys_inv q'" using add_step_inv [OF st] inv by (simp add: fine_queue_def)
  from st have "taken q' = taken q \<and> rpc q' = rpc q \<and> added q' = added q"
    by (cases rule: add_step.cases) (use idle in simp_all)
  moreover have "pending_ok er (apc q')" using m by (auto simp: pc pending_ok_def)
  ultimately show ?thesis using fine_queue_same [OF inv qi] inv by (simp add: fine_queue_def)
qed

lemma fine_queue_env:
  assumes st: "env_step q q'" and inv: "fine_queue er ms pc q"
  shows "fine_queue er ms pc q'"
proof -
  have qi: "qsys_inv q'" using env_step_inv [OF st] inv by (simp add: fine_queue_def)
  from st have "taken q' = taken q \<and> added q' = added q \<and> (rpc q' = R_idle \<longleftrightarrow> rpc q = R_idle) \<and>
      (rpc q' = R_unlock \<longleftrightarrow> rpc q = R_unlock) \<and> (rpc q' = R_signal \<longleftrightarrow> rpc q = R_signal) \<and> pending_ok er (apc q')"
    by (cases rule: env_step.cases) (use inv in \<open>simp_all add: fine_queue_def pending_ok_def\<close>)
  with fine_queue_same [OF inv qi] inv show ?thesis by (simp add: fine_queue_def)
qed

text \<open>A step in \<open>queueRemNonBlock\<close>: the message taken is in hand until the call returns it.\<close>

lemma fine_queue_rem:
  assumes st: "rem_step q q'" and inv: "fine_queue er ms In_queue q"
  shows "fine_queue er ms (if rpc q' \<noteq> R_idle then In_queue else if rpc q = R_fail then Repeating
    else Handling (last (taken q'))) q'"
proof -
  have qi: "qsys_inv q'" using rem_step_inv [OF st] inv by (simp add: fine_queue_def)
  have pend: "pending_ok er (wake_adder pc)" if "pending_ok er pc" for pc
    using that by (auto simp: pending_ok_def wake_adder_def split: add_pc.splits)
  from st show ?thesis
    by (cases rule: rem_step.cases) (use qi inv pend in \<open>auto simp: fine_queue_def in_hand_of_def\<close>)
qed

lemma message_eq: "message m = message m' \<longleftrightarrow> m = m'"
  by (auto simp: message_def)

lemma fine_queue_handle:
  assumes inv: "fine_queue er ms (Handling qd) q"
  shows "\<exists>m. qd = message m \<and> packet_ok er m \<and> fine_queue er (ms @ [m]) Repeating q"
proof -
  have tk: "taken q = map message ms @ [qd]" using inv by (simp add: fine_queue_def in_hand_of_def)
  have "added q = taken q @ ring_list (ring q)" using inv by (simp add: fine_queue_def qsys_inv_def)
  then have "qd \<in> set (added q)" using tk by simp
  moreover have "sent_packets er (added q)" using inv by (simp add: fine_queue_def)
  ultimately obtain m where "qd = message m" "packet_ok er m" by (auto simp: sent_packets_def)
  with inv tk show ?thesis by (auto simp: fine_queue_def in_hand_of_def)
qed

lemma fine_out_handle:
  assumes env: "thr_env er cfg os" and rel: "reliable os fd" and m: "packet_ok er m"
    and out: "fine_out er cfg fd efd ms ld ks h"
    and run: "lirc_handle os er efd ld (message m) ks h = Inr ((ld', ks'), h')"
  shows "fine_out er cfg fd efd (ms @ [m]) ld' ks' h'"
proof -
  obtain xs r where old: "thr_ok er cfg r [] ld ks" "remote_run er cfg Up ms xs r" "sent fd h = lines xs"
    "key_events efd h = (if efd \<noteq> -1 then events xs else [])" and one: "count_list (clients ld) fd = 1"
    using out by (auto simp: fine_out_def)
  let ?r = "rewind (fst (react cfg r m))" and ?x = "snd (react cfg r m)"
  have st: "step_ok os fd efd ld h ?x ld' h'" "qu ld' = qu ld" "tracks er ?r ks'" "held_known er ?r"
    using handle_ok [OF env _ _ _ _ m, where s = r and ks = ks and ld = ld and fd = fd and efd = efd and h = h] old(1) run
    by (simp_all add: wp_def thr_ok_def)
  then have "thr_ok er cfg ?r [] ld' ks'" using old(1) by (auto simp: thr_ok_def step_ok_def)
  moreover have "remote_run er cfg Up (ms @ [m]) (xs @ ?x) ?r" using old(2) by (rule run_packet)
  ultimately show ?thesis
    unfolding fine_out_def using st(1) rel one old
    by (intro conjI exI [of _ "xs @ ?x"] exI [of _ ?r]) (simp_all add: step_ok_def)
qed

lemma fine_out_repeat:
  assumes env: "thr_env True cfg os" and rel: "reliable os fd" and al: "alone os" and down: "keyDown ks = 1"
    and out: "fine_out True cfg fd efd ms ld ks h"
    and run: "lirc_repeat os efd ld ks h = Inr ((ld', ks'), h')"
  shows "fine_out True cfg fd efd ms ld' ks' h'"
proof -
  have none: "\<And>new. arrived os new \<Longrightarrow> new = []" using al by (auto simp: alone_def arrived_def)
  obtain xs r where old: "thr_ok True cfg r [] ld ks" "remote_run True cfg Up ms xs r" "sent fd h = lines xs"
    "key_events efd h = (if efd \<noteq> -1 then events xs else [])" and one: "count_list (clients ld) fd = 1"
    using out by (auto simp: fine_out_def)
  have "thr_step True cfg os fd efd r [] ld ks h ld' ks' h'"
    using repeat_ok [OF env old(1) down, of efd fd h] run by (simp add: wp_def)
  then obtain new q' ms' xs' r' where new: "arrived os new" "[] @ new = ms' @ q'" "thr_ok True cfg r' q' ld' ks'"
      "step_ok os fd efd ld h xs' ld' h'" "remote_run True cfg Up (ms @ ms') (xs @ xs') r'"
    using old(2) unfolding thr_step_def by blast
  then have "q' = []" "ms' = []" using none by auto
  with new rel one old show ?thesis
    unfolding fine_out_def by (intro conjI exI [of _ "xs @ xs'"] exI [of _ r']) (simp_all add: step_ok_def)
qed

section \<open>Every step keeps it\<close>

lemma fine_init_inv: "fine_init os er cfg fd efd s \<Longrightarrow> fine_inv os er cfg fd efd s"
  using run_start [of er cfg Up] qinit_inv [of "fq s"]
  by (auto simp: fine_init_def fine_inv_def fine_queue_def fine_out_def thr_ok_def held_known_def in_hand_of_def qinit_def
      pending_ok_def sent_packets_def intro!: exI [of _ "[]"] exI [of _ Up])

lemma fine_step_inv:
  assumes "fine_step os er efd s t" and inv: "fine_inv os er cfg fd efd s"
  shows "fine_inv os er cfg fd efd t"
proof -
  obtain ms where q: "fine_queue er ms (fpc s) (fq s)" and out: "fine_out er cfg fd efd ms (fld s) (fks s) (fhist s)"
    and os: "alone os" "thr_env er cfg os" "reliable os fd" using inv by (auto simp: fine_inv_def)
  consider "fine_bt_step er s t" | "fine_lirc_step os er efd s t" using assms(1) by (auto simp: fine_step_def)
  then show ?thesis
  proof cases
    case 1
    then obtain q' where "t = s\<lparr>fq := q'\<rparr>" "fine_queue er ms (fpc s) q'"
      by (cases rule: fine_bt_step.cases) (use q fine_queue_call fine_queue_add fine_queue_env in blast)+
    with out os show ?thesis by (auto simp: fine_inv_def)
  next
    case 2
    then show ?thesis
    proof (cases rule: fine_lirc_step.cases)
      case (f_rem q')
      then show ?thesis using fine_queue_rem [OF f_rem(3), of er ms] q out os by (auto simp: fine_inv_def)
    next
      case (f_handle qd ld' ks' h')
      then obtain m where m: "qd = message m" "packet_ok er m" "fine_queue er (ms @ [m]) Repeating (fq s)"
        using fine_queue_handle [of er ms qd "fq s"] q by auto
      then show ?thesis
        using f_handle fine_out_handle [OF os(2,3) m(2) out] os by (auto simp: fine_inv_def)
    next
      case (f_repeat ld' ks' h')
      then have "fine_out er cfg fd efd ms ld' ks' h'" using fine_out_repeat [of cfg os fd] os out by auto
      moreover have "fine_queue er ms In_queue (fq s)" using q f_repeat by (simp add: fine_queue_def in_hand_of_def)
      ultimately show ?thesis using f_repeat os by (auto simp: fine_inv_def)
    next
      case f_no_repeat
      moreover have "fine_queue er ms In_queue (fq s)" using q f_no_repeat by (simp add: fine_queue_def in_hand_of_def)
      ultimately show ?thesis using out os by (auto simp: fine_inv_def)
    qed
  qed
qed

interpretation fine: invariant_system "fine_init os er cfg fd efd" "fine_step os er efd" "fine_inv os er cfg fd efd"
  by unfold_locales (auto intro: fine_init_inv fine_step_inv)

section \<open>Properties\<close>

text \<open>
  C4: What the remote sends is what the clients see, at the grain of the queue's mutex, under these conditions: no packet
  is empty, and where repeats are built in (\<open>er\<close>) every key that is pressed is in the key table (\<open>packet_ok\<close>); the suffix
  for releases, if any, has at most 61 characters (\<open>suffix_fits\<close>: with a longer one \<open>handleKey\<close> can overflow its message or
  leave out the line); \<open>write\<close> and the clock behave as documented; the client \<open>fd\<close> is in the table once from the
  beginning, takes every line whole, and the server thread only adds other clients (\<open>reliable\<close>); the queue and the
  keys are fresh. Then, however the steps of the two threads are interleaved, spurious wake-ups, refused deadlines
  and timeouts included, the packets put on the queue are those handled, then at most one in the hand of the LIRC thread,
  then those on the ring, in order; and what the client was sent, and what was written to the input device, is what the
  specified remote gives for the packets handled. This is about what has been done at any moment; that the thread goes
  on is another matter (C5, C1).
\<close>

theorem remote_to_clients_locked:
  assumes "reach (fine_init os er cfg fd efd) (fine_step os er efd) s"
  shows "\<exists>ms hand q xs r. added (fq s) = map message (ms @ hand @ q) \<and> taken (fq s) = map message (ms @ hand) \<and>
     ring_list (ring (fq s)) = map message q \<and> length hand \<le> 1 \<and> remote_run er cfg Up ms xs r \<and> tracks er r (fks s) \<and>
     sent fd (fhist s) = lines xs \<and> key_events efd (fhist s) = (if efd \<noteq> -1 then events xs else [])"
proof -
  have inv: "fine_inv os er cfg fd efd s" using assms by (rule fine.reach_inv)
  then obtain ms where q: "fine_queue er ms (fpc s) (fq s)" and out: "fine_out er cfg fd efd ms (fld s) (fks s) (fhist s)"
    by (auto simp: fine_inv_def)
  obtain ps where ps: "added (fq s) = map message ps" using q by (auto simp: fine_queue_def sent_packets_def)
  let ?hand = "in_hand_of (fpc s) (fq s)"
  have "map message ps = map message ms @ ?hand @ ring_list (ring (fq s))"
    using q ps by (simp add: fine_queue_def qsys_inv_def)
  then obtain ps1 ps2 where one: "ps = ps1 @ ps2" "map message ms = map message ps1"
      "?hand @ ring_list (ring (fq s)) = map message ps2"
    unfolding map_eq_append_conv by blast
  from one(3) [symmetric] obtain hand rest where "ps2 = hand @ rest" "?hand = map message hand"
      "ring_list (ring (fq s)) = map message rest"
    unfolding map_eq_append_conv by blast
  with one have split: "ps = ps1 @ hand @ rest" "map message ps1 = map message ms" "map message hand = ?hand"
      "map message rest = ring_list (ring (fq s))" by simp_all
  have "ps1 = ms" using split(2) by (rule map_injective) (simp add: inj_def message_eq)
  moreover have "length hand \<le> 1" using arg_cong [OF split(3), of length]
    by (simp add: in_hand_of_def split: lirc_at.splits if_splits)
  moreover obtain xs r where o: "remote_run er cfg Up ms xs r" "tracks er r (fks s)" "sent fd (fhist s) = lines xs"
      "key_events efd (fhist s) = (if efd \<noteq> -1 then events xs else [])"
    using out by (auto simp: fine_out_def thr_ok_def)
  moreover have "taken (fq s) = map message (ms @ hand)" using q split(3) by (simp add: fine_queue_def)
  ultimately show ?thesis
    using ps split(1,4)
    by (intro exI [of _ ms] exI [of _ hand] exI [of _ rest] exI [of _ xs] exI [of _ r] conjI) simp_all
qed

definition fsys0 :: fsys where
  "fsys0 = \<lparr>fq = \<lparr>ring = empty_queue, owner = None, apc = A_idle, rpc = R_idle, added = [], taken = []\<rparr>, fpc = In_queue,
     fld = fresh_ld\<lparr>clis := 7 # replicate 15 0, clin := 1\<rparr>, fks = idle_keys, fhist = []\<rparr>"

lemma fine_init_fsys0: "fine_init quiet_os True full_config 7 (-1) fsys0"
proof -
  have "qinit (fq fsys0)"
    unfolding qinit_def fsys0_def empty_queue_def
    by (auto intro!: exI [of _ "\<lparr>buf = replicate QUEUESIZE None, head = 7, tail = 9, full = 1, empty = 0, sync = False\<rparr>"])
  then show ?thesis
    using pinit_psys0 by (simp add: fine_init_def pinit_def psys0_def fsys0_def)
qed

abbreviation freach :: "fsys \<Rightarrow> bool" where
  "freach \<equiv> reach (fine_init quiet_os True full_config 7 (-1)) (fine_step quiet_os True (-1))"

lemma freach_add: "freach s \<Longrightarrow> add_step (fq s) q \<Longrightarrow> apc (fq s) \<noteq> A_idle \<Longrightarrow> freach (s\<lparr>fq := q\<rparr>)"
  by (erule reach_step) (simp add: fine_step_def f_add)

lemma freach_rem: "freach s \<Longrightarrow> rem_step (fq s) q \<Longrightarrow> fpc s = In_queue \<Longrightarrow> rpc q \<noteq> R_idle \<Longrightarrow> freach (s\<lparr>fq := q\<rparr>)"
  using f_rem [of s q quiet_os True "-1"] by (erule_tac reach_step) (cases s, simp add: fine_step_def)

theorem remote_to_clients_locked_witness:
  "\<exists>(s :: fsys) ms hand q xs r. added (fq s) = [message (up_packet 0x54 1)] \<and> added (fq s) = map message (ms @ hand @ q) \<and>
     taken (fq s) = added (fq s) \<and> remote_run True full_config Up ms xs r"
proof -
  let ?x = "message (up_packet 0x54 1)" and ?q = "fq fsys0"
  have q: "full (ring ?q) = 0" "apc ?q = A_idle" "rpc ?q = R_idle" "owner ?q = None" "taken ?q = []" "added ?q = []"
      "ring ?q = empty_queue" "fpc fsys0 = In_queue" by (simp_all add: fsys0_def)
  have ok: "packet_ok True (up_packet 0x54 1)"
    by (simp add: packet_ok_def known_packet_def up_packet_def find_key_def ps3remote_keys_def key_def upt_rec)
  have r0: "freach fsys0" using fine_init_fsys0 by (rule reach_init)
  have r1: "freach (fsys0\<lparr>fq := ?q\<lparr>apc := A_lock ?x\<rparr>\<rparr>)"
    by (rule reach_step [OF r0]) (use f_packet [OF ok a_call [OF q(2)] q(2)] in \<open>simp add: fine_step_def\<close>)
  from freach_add [OF this a_lock [where x = ?x]] q
  have "freach (fsys0\<lparr>fq := ?q\<lparr>owner := Some Bt, apc := A_test ?x\<rparr>\<rparr>)" by simp
  from freach_add [OF this a_put [where x = ?x]] q
  have "freach (fsys0\<lparr>fq := ?q\<lparr>owner := Some Bt, ring := queueAdd_ring ?x empty_queue, added := [?x], apc := A_unlock\<rparr>\<rparr>)" by simp
  from freach_add [OF this a_unlock] q
  have "freach (fsys0\<lparr>fq := ?q\<lparr>ring := queueAdd_ring ?x empty_queue, added := [?x], owner := None, apc := A_signal\<rparr>\<rparr>)" by simp
  from freach_rem [OF this r_call] q
  have "freach (fsys0\<lparr>fq := ?q\<lparr>ring := queueAdd_ring ?x empty_queue, added := [?x], owner := None, apc := A_signal,
    rpc := R_lock\<rparr>\<rparr>)" by simp
  from freach_rem [OF this r_lock] q
  have "freach (fsys0\<lparr>fq := ?q\<lparr>ring := queueAdd_ring ?x empty_queue, added := [?x], apc := A_signal, owner := Some Lirc,
    rpc := R_test\<rparr>\<rparr>)" by simp
  from freach_rem [OF this r_take] q
  have r: "freach (fsys0\<lparr>fq := ?q\<lparr>added := [?x], apc := A_signal, owner := Some Lirc,
      ring := snd (queueRem_ring (queueAdd_ring ?x empty_queue)),
      taken := [the (fst (queueRem_ring (queueAdd_ring ?x empty_queue)))], rpc := R_unlock\<rparr>\<rparr>)" (is "freach ?s")
    by (simp add: queueAdd_ring_simps)
  have x: "fst (queueRem_ring (queueAdd_ring ?x empty_queue)) = Some ?x"
    using ring_list_rem [of "queueAdd_ring ?x empty_queue"] by (simp add: ring_inv_add ring_list_add queueAdd_ring_simps)
  from remote_to_clients_locked [OF r] x show ?thesis by (intro exI [of _ ?s]) auto
qed

end
