(* ===== verification/Pipeline_Live.thy ===== *)
theory Pipeline_Live
  imports Pipeline_Fine
begin

text \<open>
  Every packet gets through: once nothing new arrives, the steps of the two threads of theory \<open>Pipeline_Fine\<close> bring every
  message that is on its way to the clients, in a bounded number of steps. What the steps call are the functions of
  \<^verbatim>\<open>src/q.c\<close>, \<^verbatim>\<open>src/lirc_callback.c\<close> and \<^verbatim>\<open>src/lirc_thr.c\<close>.
\<close>

section \<open>Steps while nothing new arrives\<close>

text \<open>
  The bluetooth thread finishes the call of \<open>queueAdd\<close> it is in and starts none; no wait runs into its time limit or
  ends without a signal, and no round of \<open>queueRemNonBlock\<close> is wasted on a refused deadline.
\<close>

inductive drain_step :: "os \<Rightarrow> bool \<Rightarrow> int \<Rightarrow> fsys \<Rightarrow> fsys \<Rightarrow> bool" for os :: os and er :: bool and efd :: int where
  d_add: "add_step (fq s) q \<Longrightarrow> apc (fq s) \<noteq> A_idle \<Longrightarrow> drain_step os er efd s (s\<lparr>fq := q\<rparr>)"
| d_lirc: "fine_lirc_step os er efd s t \<Longrightarrow> t \<noteq> s \<Longrightarrow> drain_step os er efd s t"

lemma drain_is_fine: "drain_step os er efd s t \<Longrightarrow> fine_step os er efd s t"
  by (auto simp: fine_step_def fine_bt_step.simps elim: drain_step.cases)

lemma drain_inv: "drain_step os er efd s t \<Longrightarrow> fine_inv os er cfg fd efd s \<Longrightarrow> fine_inv os er cfg fd efd t"
  using drain_is_fine fine_step_inv by blast

text \<open>The message the bluetooth thread has not put on the ring yet.\<close>

definition to_put :: "'a add_pc \<Rightarrow> 'a list" where
  "to_put pc = (case pc of A_lock x \<Rightarrow> [x] | A_test x \<Rightarrow> [x] | A_wait x \<Rightarrow> [x] | A_woken x \<Rightarrow> [x] | _ \<Rightarrow> [])"

lemma to_put_wake [simp]: "to_put (wake_adder pc) = to_put pc"
  by (simp add: to_put_def wake_adder_def split: add_pc.split)

lemma drain_added:
  assumes "drain_step os er efd s t"
  shows "added (fq t) @ to_put (apc (fq t)) = added (fq s) @ to_put (apc (fq s))"
  using assms
proof cases
  case (d_add q)
  from d_add(2) show ?thesis by (cases rule: add_step.cases) (use d_add(1,3) in \<open>simp_all add: to_put_def\<close>)
next
  case d_lirc
  from d_lirc(1) show ?thesis
  proof (cases rule: fine_lirc_step.cases)
    case (f_rem q)
    from f_rem(3) show ?thesis by (cases rule: rem_step.cases) (use f_rem(1) in simp_all)
  qed simp_all
qed

section \<open>The work left\<close>

fun adder_work :: "'a add_pc \<Rightarrow> nat" where
  "adder_work A_idle = 0"
| "adder_work (A_wait x) = 0"
| "adder_work A_signal = 3"
| "adder_work A_unlock = 4"
| "adder_work (A_test x) = 5"
| "adder_work (A_woken x) = 6"
| "adder_work (A_lock x) = 6"

fun lirc_work :: "lirc_at \<Rightarrow> rem_pc \<Rightarrow> nat" where
  "lirc_work Repeating pc = 4"
| "lirc_work (Handling qd) pc = 5"
| "lirc_work In_queue R_wait = 0"
| "lirc_work In_queue R_test = 1"
| "lirc_work In_queue R_lock = 2"
| "lirc_work In_queue (R_woken t) = (if t then 6 else 2)"
| "lirc_work In_queue R_idle = 3"
| "lirc_work In_queue R_fail = 5"
| "lirc_work In_queue R_signal = 12"
| "lirc_work In_queue R_unlock = 13"

definition messages_left :: "fsys \<Rightarrow> nat" where
  "messages_left s = length (ring_list (ring (fq s))) + length (to_put (apc (fq s)))"

definition pipe_work :: "fsys \<Rightarrow> nat" where
  "pipe_work s = 20 * messages_left s + adder_work (apc (fq s)) + lirc_work (fpc s) (rpc (fq s))"

lemma pipe_work_le: "pipe_work s \<le> 20 * messages_left s + 19"
proof -
  have "adder_work a \<le> 6" for a :: "queueData add_pc" by (cases a) simp_all
  moreover have "lirc_work p r \<le> 13" for p r by (cases p; cases r) simp_all
  ultimately have "adder_work (apc (fq s)) + lirc_work (fpc s) (rpc (fq s)) \<le> 6 + 13" by (rule add_mono)
  then show ?thesis by (simp add: pipe_work_def)
qed

lemma wake_remover_work: "lirc_work p (wake_remover r) \<le> lirc_work p r + 2"
  by (cases p; cases r) (simp_all add: wake_remover_def)

lemma wake_adder_work: "adder_work (wake_adder a) \<le> adder_work a + 6"
  by (cases a) (simp_all add: wake_adder_def)

lemma drain_work:
  assumes st: "drain_step os er efd s t" and inv: "fine_inv os er cfg fd efd s"
  shows "pipe_work t < pipe_work s"
proof -
  have ring: "ring_inv (ring (fq s))" and idle: "fpc s \<noteq> In_queue \<longrightarrow> rpc (fq s) = R_idle"
    using inv by (auto simp: fine_inv_def fine_queue_def qsys_inv_def)
  from st show ?thesis
  proof cases
    case (d_add q)
    from d_add(2) show ?thesis
    proof (cases rule: add_step.cases)
      case (a_put x)
      then show ?thesis
        using d_add(1) ring by (simp add: pipe_work_def messages_left_def to_put_def ring_list_add)
    next
      case a_signal
      then show ?thesis
        using d_add(1) wake_remover_work [of "fpc s" "rpc (fq s)"]
        by (simp add: pipe_work_def messages_left_def to_put_def)
    qed (use d_add(1,3) in \<open>simp_all add: pipe_work_def messages_left_def to_put_def\<close>)
  next
    case d_lirc
    from d_lirc(1) show ?thesis
    proof (cases rule: fine_lirc_step.cases)
      case (f_rem q)
      from f_rem(3) show ?thesis
      proof (cases rule: rem_step.cases)
        case r_take
        then have "ring_list (ring (fq s)) \<noteq> []" using ring_empty_iff [OF ring] by auto
        then obtain x xs where "ring_list (ring (fq s)) = x # xs" by (cases "ring_list (ring (fq s))") auto
        with r_take show ?thesis
          using f_rem(1,2) ring_list_rem [OF ring] by (simp add: pipe_work_def messages_left_def)
      next
        case r_signal
        then show ?thesis
          using f_rem(1,2) wake_adder_work [of "apc (fq s)"] by (simp add: pipe_work_def messages_left_def)
      next
        case r_refused
        then show ?thesis using f_rem(1,2) d_lirc(2) by simp
      qed (use f_rem(1,2) in \<open>simp_all add: pipe_work_def messages_left_def\<close>)
    qed (use idle in \<open>simp_all add: pipe_work_def messages_left_def\<close>)
  qed
qed

section \<open>Nothing stands in the way\<close>

text \<open>
  There is room in the table, the clock has not run backwards, and the next repeat can be counted.
\<close>

definition live_ok :: "os \<Rightarrow> bool \<Rightarrow> fsys \<Rightarrow> bool" where
  "live_ok os er s \<longleftrightarrow> roomy os (fld s) \<and> timely er os (fks s) (fhist s) \<and>
     (er \<and> (fpc s = Repeating \<or> rpc (fq s) = R_fail \<or> rpc (fq s) = R_woken True) \<and> keyDown (fks s) = 1 \<longrightarrow>
        c_int (repeat_count (fks s) + 1))"

text \<open>Handling a message and repeating a key, as the LIRC thread does them while it is so.\<close>

lemma live_handle:
  assumes inv: "fine_inv os er cfg fd efd s" and live: "live_ok os er s" and pc: "fpc s = Handling qd"
  obtains ld' ks' h' where "lirc_handle os er efd (fld s) qd (fks s) (fhist s) = Inr ((ld', ks'), h')"
    "roomy os ld'" "timely er os ks' h'" "er \<and> keyDown ks' = 1 \<longrightarrow> repeat_count ks' = 0"
proof -
  obtain ms where env: "thr_env er cfg os" and q: "fine_queue er ms (Handling qd) (fq s)"
    and out: "fine_out er cfg fd efd ms (fld s) (fks s) (fhist s)" using inv pc by (auto simp: fine_inv_def)
  from fine_queue_handle [OF q] obtain m where m: "qd = message m" "packet_ok er m" by blast
  from out obtain r where r: "tracks er r (fks s)" "held_known er r" "ld_wf (fld s)" "config (fld s) = Some cfg"
    by (auto simp: fine_out_def thr_ok_def)
  have count: "er \<and> keyDown ks' = 1 \<longrightarrow> repeat_count ks' = 0" if "tracks er (rewind r') ks'" for r' ks'
    using that by (cases r') auto
  have "\<exists>ld' ks' h'. lirc_handle os er efd (fld s) qd (fks s) (fhist s) = Inr ((ld', ks'), h') \<and>
      roomy os ld' \<and> timely er os ks' h' \<and> (er \<and> keyDown ks' = 1 \<longrightarrow> repeat_count ks' = 0)"
    using handle_ok [OF env r m(2), where efd = efd and fd = fd and h = "fhist s"] live count
    unfolding wp_def live_ok_def step_ok_def m(1)
    by (cases "lirc_handle os er efd (fld s) (message m) (fks s) (fhist s)") fastforce+
  then show ?thesis using that by blast
qed

lemma live_repeat:
  assumes inv: "fine_inv os True cfg fd efd s" and live: "live_ok os True s" and pc: "fpc s = Repeating"
    and down: "keyDown (fks s) = 1"
  obtains ld' ks' h' where "lirc_repeat os efd (fld s) (fks s) (fhist s) = Inr ((ld', ks'), h')"
    "roomy os ld'" "timely True os ks' h'"
proof -
  obtain ms where env: "thr_env True cfg os" and out: "fine_out True cfg fd efd ms (fld s) (fks s) (fhist s)"
    using inv by (auto simp: fine_inv_def)
  from out obtain r where r: "thr_ok True cfg r [] (fld s) (fks s)" by (auto simp: fine_out_def)
  have "\<exists>ld' ks' h'. lirc_repeat os efd (fld s) (fks s) (fhist s) = Inr ((ld', ks'), h') \<and>
      roomy os ld' \<and> timely True os ks' h'"
    using repeat_ok [OF env r down, of efd fd "fhist s"] live pc down
    unfolding wp_def live_ok_def thr_step_def step_ok_def
    by (cases "lirc_repeat os efd (fld s) (fks s) (fhist s)") fastforce+
  then show ?thesis using that by blast
qed

lemma drain_live:
  assumes st: "drain_step os er efd s t" and inv: "fine_inv os er cfg fd efd s" and live: "live_ok os er s"
  shows "live_ok os er t"
proof -
  have idle: "fpc s \<noteq> In_queue \<longrightarrow> rpc (fq s) = R_idle" using inv by (auto simp: fine_inv_def fine_queue_def)
  from st show ?thesis
  proof cases
    case (d_add q)
    from d_add(2) show ?thesis
      by (cases rule: add_step.cases)
         (use live d_add(1,3) in \<open>auto simp: live_ok_def wake_remover_def split: if_splits\<close>)
  next
    case d_lirc
    from d_lirc(1) show ?thesis
    proof (cases rule: fine_lirc_step.cases)
      case (f_rem q)
      from f_rem(3) show ?thesis
        by (cases rule: rem_step.cases) (use live f_rem(1,2) in \<open>auto simp: live_ok_def\<close>)
    next
      case (f_handle qd ld' ks' h')
      obtain l k h where "lirc_handle os er efd (fld s) qd (fks s) (fhist s) = Inr ((l, k), h)"
        "roomy os l" "timely er os k h" "er \<and> keyDown k = 1 \<longrightarrow> repeat_count k = 0"
        by (rule live_handle [OF inv live f_handle(2)])
      then have "roomy os ld'" "timely er os ks' h'" "er \<and> keyDown ks' = 1 \<longrightarrow> repeat_count ks' = 0"
        using f_handle(3) by simp_all
      then show ?thesis using f_handle(1) by (auto simp: live_ok_def c_int_def)
    next
      case (f_repeat ld' ks' h')
      then have er by simp
      with inv live have "fine_inv os True cfg fd efd s" "live_ok os True s" by simp_all
      then obtain l k h where "lirc_repeat os efd (fld s) (fks s) (fhist s) = Inr ((l, k), h)"
        "roomy os l" "timely True os k h"
        by (rule live_repeat [OF _ _ f_repeat(2,4)])
      then have "roomy os ld'" "timely True os ks' h'" using f_repeat(5) by simp_all
      then show ?thesis using f_repeat(1,2) idle \<open>er\<close> by (auto simp: live_ok_def)
    next
      case f_no_repeat
      then show ?thesis using live idle by (auto simp: live_ok_def)
    qed
  qed
qed

text \<open>The threads stop only when nothing is on its way.\<close>

lemma pipe_lirc_moves:
  assumes inv: "fine_inv os er cfg fd efd s" and live: "live_ok os er s"
    and free: "owner (fq s) = None \<or> owner (fq s) = Some Lirc" and awake: "rpc (fq s) \<noteq> R_wait"
  shows "\<exists>t. drain_step os er efd s t"
proof (cases "fpc s")
  case In_queue
  have own: "owner (fq s) = Some Lirc \<longleftrightarrow> remover_holds (rpc (fq s))"
    using inv by (auto simp: fine_inv_def fine_queue_def qsys_inv_def)
  have "\<exists>q. rem_step (fq s) q \<and> rpc q \<noteq> rpc (fq s)"
  proof (cases "rpc (fq s)")
    case R_idle then show ?thesis using r_call by fastforce
  next
    case R_lock then show ?thesis using r_lock free own by (fastforce simp: remover_holds_def)
  next
    case R_test
    then show ?thesis using r_wait [of "fq s"] r_take [of "fq s"] by (cases "empty (ring (fq s)) = 0") fastforce+
  next
    case (R_woken t)
    then have "owner (fq s) = None" using free own by (auto simp: remover_holds_def)
    from r_relock [OF R_woken this] R_woken show ?thesis by (intro exI conjI) (assumption, simp)
  next
    case R_fail then show ?thesis using r_fail by fastforce
  next
    case R_unlock then show ?thesis using r_unlock by fastforce
  next
    case R_signal then show ?thesis using r_signal by fastforce
  qed (use awake in simp)
  then obtain q where q: "rem_step (fq s) q" "rpc q \<noteq> rpc (fq s)" by blast
  have "s\<lparr>fq := q, fpc := p\<rparr> \<noteq> s" for p using q(2) by (cases s) auto
  with d_lirc [OF f_rem [OF In_queue q(1)]] show ?thesis by blast
next
  case (Handling qd)
  obtain ld' ks' h' where run: "lirc_handle os er efd (fld s) qd (fks s) (fhist s) = Inr ((ld', ks'), h')"
    using live_handle [OF inv live Handling] by metis
  have "s\<lparr>fpc := Repeating, fld := ld', fks := ks', fhist := h'\<rparr> \<noteq> s" using Handling by (cases s) simp
  with d_lirc [OF f_handle [OF Handling run]] show ?thesis by blast
next
  case Repeating
  show ?thesis
  proof (cases "er \<and> keyDown (fks s) = 1")
    case True
    then obtain ld' ks' h' where run: "lirc_repeat os efd (fld s) (fks s) (fhist s) = Inr ((ld', ks'), h')"
      using live_repeat [OF _ _ Repeating, where efd = efd] inv live by (metis (full_types))
    have "s\<lparr>fpc := In_queue, fld := ld', fks := ks', fhist := h'\<rparr> \<noteq> s" using Repeating by (cases s) simp
    with d_lirc [OF f_repeat [OF Repeating _ _ run]] True show ?thesis by blast
  next
    case False
    have "s\<lparr>fpc := In_queue\<rparr> \<noteq> s" using Repeating by (cases s) simp
    with d_lirc [OF f_no_repeat [OF Repeating False]] show ?thesis by blast
  qed
qed

lemma pipe_adder_moves:
  assumes "apc q \<noteq> A_idle" and "\<not> adder_sleeps (apc q)" and "owner q = None \<or> owner q = Some Bt"
    and "qsys_inv q"
  shows "\<exists>q'. add_step q q'"
proof (cases "apc q")
  case (A_test x)
  then show ?thesis by (cases "full (ring q) = 0") (auto intro: a_put a_wait)
qed (use assms in \<open>auto simp: qsys_inv_def pc_defs intro: a_lock a_relock a_unlock a_signal\<close>)

lemma stuck_is_done:
  assumes inv: "fine_inv os er cfg fd efd s" and live: "live_ok os er s" and stuck: "\<nexists>t. drain_step os er efd s t"
  shows "apc (fq s) = A_idle \<and> fpc s = In_queue \<and> rpc (fq s) = R_wait \<and> ring_list (ring (fq s)) = []"
proof -
  have q: "qsys_inv (fq s)" and idle: "fpc s \<noteq> In_queue \<longrightarrow> rpc (fq s) = R_idle"
    using inv by (auto simp: fine_inv_def fine_queue_def)
  then have ring: "ring_inv (ring (fq s))" by (simp add: qsys_inv_def)
  have add: "apc (fq s) = A_idle \<or> adder_sleeps (apc (fq s)) \<or> owner (fq s) = Some Lirc"
    using pipe_adder_moves [OF _ _ _ q] d_add stuck by (metis not_Some_eq thread.exhaust)
  then have own: "owner (fq s) = None \<or> owner (fq s) = Some Lirc"
    using q by (cases "owner (fq s)") (auto simp: qsys_inv_def pc_defs split: add_pc.splits intro: thread.exhaust)
  have pc: "rpc (fq s) = R_wait" using pipe_lirc_moves [OF inv live own] stuck by blast
  then have "owner (fq s) \<noteq> Some Lirc" using q by (simp add: qsys_inv_def pc_defs)
  with add have bt: "apc (fq s) = A_idle \<or> adder_sleeps (apc (fq s))" by blast
  have empty: "empty (ring (fq s)) \<noteq> 0" using q pc bt by (auto simp: qsys_inv_def pc_defs)
  then have "full (ring (fq s)) = 0" using not_full_and_empty [OF ring] by blast
  then have "\<not> adder_sleeps (apc (fq s))" using q pc by (auto simp: qsys_inv_def)
  with bt pc idle empty ring_empty_iff [OF ring] show ?thesis by auto
qed

section \<open>Properties\<close>

lemma drain_run:
  assumes "(drain_step os er efd ^^ n) s t" and "fine_inv os er cfg fd efd s" and "live_ok os er s"
  shows "fine_inv os er cfg fd efd t \<and> live_ok os er t \<and> n + pipe_work t \<le> pipe_work s \<and>
     added (fq t) @ to_put (apc (fq t)) = added (fq s) @ to_put (apc (fq s))"
  using assms
proof (induction n arbitrary: t)
  case 0
  then show ?case by simp
next
  case (Suc n)
  from Suc.prems(1) obtain u where u: "(drain_step os er efd ^^ n) s u" "drain_step os er efd u t" by auto
  note IH = Suc.IH [OF u(1) Suc.prems(2,3)]
  then show ?case
    using drain_inv [OF u(2)] drain_live [OF u(2)] drain_work [OF u(2)] drain_added [OF u(2)] by fastforce
qed

text \<open>
  C5: Every packet gets through, under the conditions of C4 (packets not empty, with repeats only keys of the table,
  suffix of at most 61 characters, documented \<open>write\<close> and clock, a client that takes everything and is in the table once)
  and these: the table has room and from here on nobody joins (\<open>roomy\<close>); with repeats the seconds of the clock never
  go back (\<open>timely\<close>); and one more repeat can be counted. From any state the two threads can reach under them, look at
  the runs (\<open>drain_step\<close>) in which nothing new is received, no wait times out or ends without a signal, and no deadline is
  refused. Each of them has at most 20 steps for each message on its way and 19 more, and it ends only when the
  message the bluetooth thread had in its hand is on the queue, the queue is empty, every packet was handled, and the
  client has all the lines of them. Time-outs, spurious wake-ups and refused rounds (C40) lead back to the wait; they are
  left out because without a bound on their number there is none on the steps.
\<close>

theorem every_packet_gets_through:
  assumes "reach (fine_init os er cfg fd efd) (fine_step os er efd) s"
    and "roomy os (fld s)" and "timely er os (fks s) (fhist s)" and "c_int (repeat_count (fks s) + 1)"
    and run: "(drain_step os er efd ^^ n) s t"
  shows "n \<le> 20 * messages_left s + 19 \<and>
     ((\<nexists>u. drain_step os er efd t u) \<longrightarrow>
        added (fq t) = added (fq s) @ to_put (apc (fq s)) \<and> ring_list (ring (fq t)) = [] \<and>
        (\<exists>ms xs r. added (fq t) = map message ms \<and> remote_run er cfg Up ms xs r \<and> tracks er r (fks t) \<and>
           sent fd (fhist t) = lines xs \<and> key_events efd (fhist t) = (if efd \<noteq> -1 then events xs else [])))"
proof -
  have inv: "fine_inv os er cfg fd efd s" using assms(1) by (rule fine.reach_inv)
  have "live_ok os er s" using assms(2-4) by (simp add: live_ok_def)
  from drain_run [OF run inv this] have t: "fine_inv os er cfg fd efd t" "live_ok os er t" "n + pipe_work t \<le> pipe_work s"
    "added (fq t) @ to_put (apc (fq t)) = added (fq s) @ to_put (apc (fq s))" by auto
  have "n \<le> 20 * messages_left s + 19" using t(3) pipe_work_le [of s] by simp
  moreover have "added (fq t) = added (fq s) @ to_put (apc (fq s)) \<and> ring_list (ring (fq t)) = [] \<and>
        (\<exists>ms xs r. added (fq t) = map message ms \<and> remote_run er cfg Up ms xs r \<and> tracks er r (fks t) \<and>
           sent fd (fhist t) = lines xs \<and> key_events efd (fhist t) = (if efd \<noteq> -1 then events xs else []))"
    if "\<nexists>u. drain_step os er efd t u"
  proof -
    note dn = stuck_is_done [OF t(1,2) that]
    obtain ms where "fine_queue er ms In_queue (fq t)" and out: "fine_out er cfg fd efd ms (fld t) (fks t) (fhist t)"
      using t(1) dn by (auto simp: fine_inv_def)
    then have all: "added (fq t) = map message ms" using dn by (simp add: fine_queue_def in_hand_of_def qsys_inv_def)
    obtain xs r where "remote_run er cfg Up ms xs r" "tracks er r (fks t)" "sent fd (fhist t) = lines xs"
      "key_events efd (fhist t) = (if efd \<noteq> -1 then events xs else [])"
      using out by (auto simp: fine_out_def thr_ok_def)
    moreover have "added (fq t) = added (fq s) @ to_put (apc (fq s))" using t(4) dn by (simp add: to_put_def)
    ultimately show ?thesis using all dn by blast
  qed
  ultimately show ?thesis by blast
qed

text \<open>A run that has not ended goes on, so one that ends exists.\<close>

lemma drain_ends:
  assumes "fine_inv os er cfg fd efd s"
  shows "\<exists>n t. (drain_step os er efd ^^ n) s t \<and> (\<nexists>u. drain_step os er efd t u)"
  using assms
proof (induction "pipe_work s" arbitrary: s rule: less_induct)
  case less
  show ?case
  proof (cases "\<exists>u. drain_step os er efd s u")
    case False
    then show ?thesis by (intro exI [of _ 0]) auto
  next
    case True
    then obtain u where u: "drain_step os er efd s u" by blast
    from less.hyps [OF drain_work [OF u less.prems] drain_inv [OF u less.prems]]
    obtain n t where "(drain_step os er efd ^^ n) u t" "\<nexists>v. drain_step os er efd t v" by blast
    with u relpowp_Suc_I2 [of "drain_step os er efd" s u n t] show ?thesis by blast
  qed
qed

theorem every_packet_gets_through_witness:
  "\<exists>n t. (drain_step quiet_os True (-1) ^^ n) (fsys0\<lparr>fq := (fq fsys0)\<lparr>apc := A_lock (message (up_packet 0x54 1))\<rparr>\<rparr>) t \<and>
     n \<le> 39 \<and> added (fq t) = [message (up_packet 0x54 1)] \<and> ring_list (ring (fq t)) = []"
proof -
  let ?s = "fsys0\<lparr>fq := (fq fsys0)\<lparr>apc := A_lock (message (up_packet 0x54 1))\<rparr>\<rparr>"
  have ok: "packet_ok True (up_packet 0x54 1)"
    by (simp add: packet_ok_def known_packet_def up_packet_def find_key_def ps3remote_keys_def key_def upt_rec)
  have idle: "apc (fq fsys0) = A_idle" by (simp add: fsys0_def)
  have r0: "freach fsys0" using fine_init_fsys0 by (rule reach_init)
  have r: "freach ?s"
    by (rule reach_step [OF r0]) (use f_packet [OF ok a_call [OF idle] idle] in \<open>simp add: fine_step_def\<close>)
  from drain_ends [OF fine.reach_inv [OF r]] obtain n t where
    run: "(drain_step quiet_os True (-1) ^^ n) ?s t" and ends: "\<nexists>u. drain_step quiet_os True (-1) t u" by blast
  have calm: "roomy quiet_os (fld ?s)" "timely True quiet_os (fks ?s) (fhist ?s)" "c_int (repeat_count (fks ?s) + 1)"
    by (simp_all add: roomy_def timely_def steady_def fsys0_def MAX_CLIENTS_def idle_keys_def c_int_def)
  have one: "messages_left ?s = 1" "added (fq ?s) = []" by (simp_all add: messages_left_def to_put_def fsys0_def)
  show ?thesis
    using every_packet_gets_through [OF r calm run] ends one run
    by (intro exI [of _ n] exI [of _ t]) (simp add: to_put_def)
qed

end
