(* ===== verification/Shutdown.thy ===== *)
theory Shutdown
  imports Queue_Conc Table_Conc
begin

text \<open>
  How the daemon ends. The three threads of \<^verbatim>\<open>src/bdremoteng.c\<close> and the flag \<open>__io_canceled\<close> that
  \<open>sig_term\<close> sets: the main thread in \<open>lirc_server\<close> and in the end of \<open>main\<close>, the bluetooth thread in
  \<open>run_server\<close> and \<open>readFromSocket\<close>, the LIRC thread in the loop of \<open>lircThread\<close>. The queue between
  the last two is that of theory \<open>Queue_Conc\<close>, step by step. A step is one test of the flag, one call that can
  wait, or one stretch of code between such calls. What a packet holds is left open (type \<open>'a\<close>). A
  failed assertion ends the whole process and is no step here.
\<close>

section \<open>Threads and their program counters\<close>

text \<open>
  \<open>M_pre\<close> is between the test of the flag and \<open>ppoll\<close>, which has no time limit: no thread blocks the
  signal, so it can arrive there. \<open>M_add\<close> and \<open>M_close\<close> wait for the mutex of the table.
\<close>

datatype main_pc =
  M_listen | M_test | M_pre | M_poll | M_accept | M_add | M_add_held | M_close | M_close_held |
  M_kill | M_join_bt | M_join_lirc | M_destroy | M_end

text \<open>
  The pcs \<open>B\<close> are in \<open>run_server\<close>, the pcs \<open>Rd\<close> in \<open>readFromSocket\<close>, with \<open>numberOfSeconds\<close>. Both
  \<open>accept\<close>s can wait for ever; \<open>B_pre_ctrl\<close> and \<open>B_pre_intr\<close> are before them. \<open>Rd_adding\<close> is inside
  \<open>queueAdd\<close>; where, the queue says.
\<close>

datatype 'a bt_pc =
  B_start | B_test | B_poll | B_pre_ctrl | B_accept_ctrl | B_pre_intr | B_accept_intr | B_check | B_close | B_done |
  Rd_test int | Rd_poll int | Rd_recv | Rd_data 'a | Rd_adding

text \<open>\<open>L_rem\<close> is inside \<open>queueRemNonBlock\<close>; \<open>L_want\<close> and \<open>L_rwant\<close> wait for the mutex of the table.\<close>

datatype lirc_pc = L_test | L_rem | L_handle | L_want | L_held | L_repeat | L_rwant | L_rheld | L_done

record 'a proc =
  que :: "'a qsys"
  io_canceled :: bool
  dmut :: "table_user option"
  mn :: main_pc
  bt :: "'a bt_pc"
  lt :: lirc_pc

section \<open>Signals\<close>

text \<open>
  \<open>sig_term\<close> runs in the thread that takes the signal. A wait of the kernel then ends with \<open>EINTR\<close>, as the
  handlers are installed without \<open>SA_RESTART\<close>; a wait on a condition goes on.
\<close>

definition interrupt_bt :: "'a bt_pc \<Rightarrow> 'a bt_pc" where
  "interrupt_bt pc = (case pc of B_poll \<Rightarrow> B_test | B_accept_ctrl \<Rightarrow> B_pre_intr | B_accept_intr \<Rightarrow> B_check
     | Rd_poll n \<Rightarrow> Rd_test (n + 1) | _ \<Rightarrow> pc)"

definition interrupt_main :: "main_pc \<Rightarrow> main_pc" where
  "interrupt_main pc = (if pc = M_poll then M_test else pc)"

text \<open>A signal to a thread that has ended does nothing.\<close>

definition term_bt :: "'a proc \<Rightarrow> 'a proc" where
  "term_bt s = (if bt s = B_done then s else s\<lparr>io_canceled := True, bt := interrupt_bt (bt s)\<rparr>)"

section \<open>Steps\<close>

text \<open>The main thread, from \<open>lirc_server\<close> on.\<close>

inductive main_step :: "'a proc \<Rightarrow> 'a proc \<Rightarrow> bool" where
  m_listen: "mn s = M_listen \<Longrightarrow> main_step s (s\<lparr>mn := M_test\<rparr>)"
| m_no_listener: "mn s = M_listen \<Longrightarrow> main_step s (s\<lparr>mn := M_kill\<rparr>)"
| m_go: "mn s = M_test \<Longrightarrow> \<not> io_canceled s \<Longrightarrow> main_step s (s\<lparr>mn := M_pre\<rparr>)"
| m_ppoll: "mn s = M_pre \<Longrightarrow> main_step s (s\<lparr>mn := M_poll\<rparr>)"
| m_reject: "mn s = M_accept \<Longrightarrow> main_step s (s\<lparr>mn := M_test\<rparr>)"
| m_admit: "mn s = M_accept \<Longrightarrow> main_step s (s\<lparr>mn := M_add\<rparr>)"
| m_lock: "mn s = M_add \<Longrightarrow> dmut s = None \<Longrightarrow> main_step s (s\<lparr>mn := M_add_held, dmut := Some Server\<rparr>)"
| m_unlock: "mn s = M_add_held \<Longrightarrow> main_step s (s\<lparr>mn := M_test, dmut := None\<rparr>)"
| m_stop: "mn s = M_test \<Longrightarrow> io_canceled s \<Longrightarrow> main_step s (s\<lparr>mn := M_close\<rparr>)"
| m_close: "mn s = M_close \<Longrightarrow> dmut s = None \<Longrightarrow> main_step s (s\<lparr>mn := M_close_held, dmut := Some Server\<rparr>)"
| m_closed: "mn s = M_close_held \<Longrightarrow> main_step s (s\<lparr>mn := M_kill, dmut := None\<rparr>)"
| m_kill: "mn s = M_kill \<Longrightarrow> main_step s ((term_bt s)\<lparr>mn := M_join_bt\<rparr>)"
| m_joined_bt: "mn s = M_join_bt \<Longrightarrow> bt s = B_done \<Longrightarrow> main_step s (s\<lparr>mn := M_join_lirc\<rparr>)"
| m_joined_lirc: "mn s = M_join_lirc \<Longrightarrow> lt s = L_done \<Longrightarrow> main_step s (s\<lparr>mn := M_destroy\<rparr>)"
| m_destroy: "mn s = M_destroy \<Longrightarrow> main_step s (s\<lparr>mn := M_end\<rparr>)"

text \<open>
  The bluetooth thread; \<open>tmo\<close> is the option \<open>-t\<close>. \<open>b_bad_address\<close> is a failing \<open>str2ba\<close>. A whole packet is taken
  with \<open>recv\<close> in \<open>rd_data\<close>; the steps \<open>rd_add\<close> are those of \<open>queueAdd\<close>.
\<close>

inductive bt_thread_step :: "int \<Rightarrow> 'a proc \<Rightarrow> 'a proc \<Rightarrow> bool" for tmo :: int where
  b_address: "bt s = B_start \<Longrightarrow> bt_thread_step tmo s (s\<lparr>bt := B_test\<rparr>)"
| b_bad_address: "bt s = B_start \<Longrightarrow> bt_thread_step tmo s (s\<lparr>bt := B_done\<rparr>)"
| b_go: "bt s = B_test \<Longrightarrow> \<not> io_canceled s \<Longrightarrow> bt_thread_step tmo s (s\<lparr>bt := B_poll\<rparr>)"
| b_stop: "bt s = B_test \<Longrightarrow> io_canceled s \<Longrightarrow> bt_thread_step tmo s (s\<lparr>bt := B_done\<rparr>)"
| b_accept_ctrl: "bt s = B_pre_ctrl \<Longrightarrow> bt_thread_step tmo s (s\<lparr>bt := B_accept_ctrl\<rparr>)"
| b_accept_intr: "bt s = B_pre_intr \<Longrightarrow> bt_thread_step tmo s (s\<lparr>bt := B_accept_intr\<rparr>)"
| b_known: "bt s = B_check \<Longrightarrow> bt_thread_step tmo s (s\<lparr>bt := Rd_test 0\<rparr>)"
| b_unknown: "bt s = B_check \<Longrightarrow> bt_thread_step tmo s (s\<lparr>bt := B_close\<rparr>)"
| b_close: "bt s = B_close \<Longrightarrow> bt_thread_step tmo s (s\<lparr>bt := B_test\<rparr>)"
| rd_stop: "bt s = Rd_test n \<Longrightarrow> io_canceled s \<Longrightarrow> bt_thread_step tmo s (s\<lparr>bt := B_close\<rparr>)"
| rd_timeout: "bt s = Rd_test n \<Longrightarrow> \<not> io_canceled s \<Longrightarrow> n > tmo \<Longrightarrow> bt_thread_step tmo s (s\<lparr>bt := B_close\<rparr>)"
| rd_go: "bt s = Rd_test n \<Longrightarrow> \<not> io_canceled s \<Longrightarrow> \<not> n > tmo \<Longrightarrow> bt_thread_step tmo s (s\<lparr>bt := Rd_poll n\<rparr>)"
| rd_gone: "bt s = Rd_recv \<Longrightarrow> bt_thread_step tmo s (s\<lparr>bt := B_close\<rparr>)"
| rd_data: "bt s = Rd_recv \<Longrightarrow> bt_thread_step tmo s (s\<lparr>bt := Rd_data x\<rparr>)"
| rd_call: "bt s = Rd_data x \<Longrightarrow> add_step (que s) q \<Longrightarrow> apc q = A_lock x \<Longrightarrow>
     bt_thread_step tmo s (s\<lparr>que := q, bt := Rd_adding\<rparr>)"
| rd_add: "bt s = Rd_adding \<Longrightarrow> apc (que s) \<noteq> A_idle \<Longrightarrow> add_step (que s) q \<Longrightarrow>
     bt_thread_step tmo s (s\<lparr>que := q, bt := (if apc q = A_idle then Rd_test 0 else Rd_adding)\<rparr>)"

text \<open>
  The LIRC thread. The steps \<open>l_rem\<close> are those of \<open>queueRemNonBlock\<close>; a message makes it call \<open>handleKey\<close>, which
  broadcasts at most once, and a key held down may make it broadcast again.
\<close>

inductive lirc_thread_step :: "'a proc \<Rightarrow> 'a proc \<Rightarrow> bool" where
  l_stop: "lt s = L_test \<Longrightarrow> io_canceled s \<Longrightarrow> lirc_thread_step s (s\<lparr>lt := L_done\<rparr>)"
| l_call: "lt s = L_test \<Longrightarrow> \<not> io_canceled s \<Longrightarrow> rem_step (que s) q \<Longrightarrow>
     lirc_thread_step s (s\<lparr>que := q, lt := L_rem\<rparr>)"
| l_rem: "lt s = L_rem \<Longrightarrow> rem_step (que s) q \<Longrightarrow>
     lirc_thread_step s (s\<lparr>que := q, lt := (if rpc q \<noteq> R_idle then L_rem
       else if rpc (que s) = R_fail then L_repeat else L_handle)\<rparr>)"
| l_quiet: "lt s = L_handle \<Longrightarrow> lirc_thread_step s (s\<lparr>lt := L_repeat\<rparr>)"
| l_broadcast: "lt s = L_handle \<Longrightarrow> lirc_thread_step s (s\<lparr>lt := L_want\<rparr>)"
| l_lock: "lt s = L_want \<Longrightarrow> dmut s = None \<Longrightarrow> lirc_thread_step s (s\<lparr>lt := L_held, dmut := Some Sender\<rparr>)"
| l_unlock: "lt s = L_held \<Longrightarrow> lirc_thread_step s (s\<lparr>lt := L_repeat, dmut := None\<rparr>)"
| l_not_yet: "lt s = L_repeat \<Longrightarrow> lirc_thread_step s (s\<lparr>lt := L_test\<rparr>)"
| l_again: "lt s = L_repeat \<Longrightarrow> lirc_thread_step s (s\<lparr>lt := L_rwant\<rparr>)"
| l_rlock: "lt s = L_rwant \<Longrightarrow> dmut s = None \<Longrightarrow> lirc_thread_step s (s\<lparr>lt := L_rheld, dmut := Some Sender\<rparr>)"
| l_runlock: "lt s = L_rheld \<Longrightarrow> lirc_thread_step s (s\<lparr>lt := L_test, dmut := None\<rparr>)"

text \<open>What time alone brings: the end of a wait with a limit.\<close>

inductive tick_step :: "'a proc \<Rightarrow> 'a proc \<Rightarrow> bool" where
  t_poll: "bt s = B_poll \<Longrightarrow> tick_step s (s\<lparr>bt := B_test\<rparr>)"
| t_read: "bt s = Rd_poll n \<Longrightarrow> tick_step s (s\<lparr>bt := Rd_test (n + 1)\<rparr>)"
| t_rem: "rpc (que s) = R_wait \<Longrightarrow> tick_step s (s\<lparr>que := (que s)\<lparr>rpc := R_woken True\<rparr>\<rparr>)"

text \<open>What only the outside brings: connections, packets, clients, signals (\<open>sig_hup\<close> does nothing but interrupt); and
  spurious wake-ups.\<close>

inductive outside_step :: "'a proc \<Rightarrow> 'a proc \<Rightarrow> bool" where
  o_remote: "bt s = B_poll \<Longrightarrow> outside_step s (s\<lparr>bt := B_pre_ctrl\<rparr>)"
| o_ctrl: "bt s = B_accept_ctrl \<Longrightarrow> outside_step s (s\<lparr>bt := B_pre_intr\<rparr>)"
| o_intr: "bt s = B_accept_intr \<Longrightarrow> outside_step s (s\<lparr>bt := B_check\<rparr>)"
| o_data: "bt s = Rd_poll n \<Longrightarrow> outside_step s (s\<lparr>bt := Rd_recv\<rparr>)"
| o_client: "mn s = M_poll \<Longrightarrow> outside_step s (s\<lparr>mn := M_accept\<rparr>)"
| o_spurious: "env_step (que s) q \<Longrightarrow> outside_step s (s\<lparr>que := q\<rparr>)"
| o_term_main: "mn s \<noteq> M_end \<Longrightarrow> outside_step s (s\<lparr>io_canceled := True, mn := interrupt_main (mn s)\<rparr>)"
| o_term_bt: "outside_step s (term_bt s)"
| o_term_lirc: "lt s \<noteq> L_done \<Longrightarrow> outside_step s (s\<lparr>io_canceled := True\<rparr>)"
| o_hup_main: "outside_step s (s\<lparr>mn := interrupt_main (mn s)\<rparr>)"
| o_hup_bt: "outside_step s (s\<lparr>bt := interrupt_bt (bt s)\<rparr>)"

text \<open>
  A step of the three threads, with the ends of the limited waits. Only one kind leaves everything as it is: a round of
  \<open>queueRemNonBlock\<close> on an empty queue whose deadline \<open>pthread_cond_timedwait\<close> refuses, after which the LIRC thread, with
  the mutex still locked, computes the deadline again (\<open>thread_step_cases\<close> below). \<open>run_step\<close> is a step of the other kind.
\<close>

definition thread_step :: "int \<Rightarrow> 'a proc \<Rightarrow> 'a proc \<Rightarrow> bool" where
  "thread_step tmo s t \<longleftrightarrow> main_step s t \<or> bt_thread_step tmo s t \<or> lirc_thread_step s t \<or> tick_step s t"

definition refused_round :: "'a proc \<Rightarrow> 'a proc \<Rightarrow> bool" where
  "refused_round s t \<longleftrightarrow> t = s \<and> lt s = L_rem \<and> rpc (que s) = R_test \<and> empty (ring (que s)) \<noteq> 0"

definition run_step :: "int \<Rightarrow> 'a proc \<Rightarrow> 'a proc \<Rightarrow> bool" where
  "run_step tmo s t \<longleftrightarrow> (main_step s t \<or> bt_thread_step tmo s t \<or> lirc_thread_step s t \<or> tick_step s t) \<and> t \<noteq> s"

text \<open>The states that a run passes, one after the other, and how many of its steps are no refused round.\<close>

fun thread_run :: "int \<Rightarrow> 'a proc \<Rightarrow> 'a proc list \<Rightarrow> bool" where
  "thread_run tmo s [] \<longleftrightarrow> True"
| "thread_run tmo s (t # ts) \<longleftrightarrow> thread_step tmo s t \<and> thread_run tmo t ts"

fun progress :: "'a proc \<Rightarrow> 'a proc list \<Rightarrow> nat" where
  "progress s [] = 0"
| "progress s (t # ts) = (if refused_round s t then 0 else 1) + progress t ts"

definition proc_step :: "int \<Rightarrow> 'a proc \<Rightarrow> 'a proc \<Rightarrow> bool" where
  "proc_step tmo s t \<longleftrightarrow> run_step tmo s t \<or> outside_step s t"

text \<open>The three threads have been started.\<close>

definition proc_init :: "'a proc \<Rightarrow> bool" where
  "proc_init s \<longleftrightarrow> qinit (que s) \<and> \<not> io_canceled s \<and> dmut s = None \<and> mn s = M_listen \<and> bt s = B_start \<and>
     lt s = L_test"

section \<open>The invariant\<close>

definition joined_bt :: "main_pc \<Rightarrow> bool" where
  "joined_bt pc \<longleftrightarrow> pc \<in> {M_join_lirc, M_destroy, M_end}"

definition proc_inv :: "'a proc \<Rightarrow> bool" where
  "proc_inv s \<longleftrightarrow> qsys_inv (que s) \<and>
     (bt s = Rd_adding \<longleftrightarrow> apc (que s) \<noteq> A_idle) \<and> (lt s = L_rem \<longleftrightarrow> rpc (que s) \<noteq> R_idle) \<and>
     (dmut s = Some Server \<longleftrightarrow> mn s \<in> {M_add_held, M_close_held}) \<and>
     (dmut s = Some Sender \<longleftrightarrow> lt s \<in> {L_held, L_rheld}) \<and>
     (joined_bt (mn s) \<longrightarrow> bt s = B_done) \<and> (mn s \<in> {M_destroy, M_end} \<longrightarrow> lt s = L_done) \<and>
     (lt s = L_done \<longrightarrow> io_canceled s) \<and> (mn s \<in> {M_close, M_close_held} \<longrightarrow> io_canceled s)"

lemmas proc_defs = proc_inv_def joined_bt_def interrupt_main_def term_bt_def

lemma interrupt_bt_eq [simp]:
  "interrupt_bt pc = Rd_adding \<longleftrightarrow> pc = Rd_adding" "interrupt_bt pc = B_done \<longleftrightarrow> pc = B_done"
  by (auto simp: interrupt_bt_def split: bt_pc.splits)

lemma add_step_rpc: "add_step s t \<Longrightarrow> rpc t = R_idle \<longleftrightarrow> rpc s = R_idle"
  by (induction rule: add_step.induct) (auto simp: wake_remover_def)

lemma rem_step_apc: "rem_step s t \<Longrightarrow> apc t = A_idle \<longleftrightarrow> apc s = A_idle"
  by (induction rule: rem_step.induct) (auto simp: wake_adder_def split: add_pc.splits)

lemma env_step_pcs: "env_step s t \<Longrightarrow> (rpc t = R_idle \<longleftrightarrow> rpc s = R_idle) \<and> (apc t = A_idle \<longleftrightarrow> apc s = A_idle)"
  by (induction rule: env_step.induct) auto

lemma rem_call: "rem_step s t \<Longrightarrow> rpc s = R_idle \<Longrightarrow> rpc t = R_lock"
  by (induction rule: rem_step.induct) auto

lemma proc_init_inv: "proc_init s \<Longrightarrow> proc_inv s"
  using qinit_inv [of "que s"] by (auto simp: proc_init_def proc_defs qinit_def)

lemma term_bt_inv: "proc_inv s \<Longrightarrow> proc_inv (term_bt s)"
  by (cases "bt s") (simp_all add: proc_defs interrupt_bt_def)

lemma proc_idle:
  assumes "proc_inv s"
  shows "dmut s = Some Server \<Longrightarrow> lt s \<noteq> L_held \<and> lt s \<noteq> L_rheld" "bt s = B_done \<Longrightarrow> apc (que s) = A_idle"
    "lt s = L_done \<Longrightarrow> rpc (que s) = R_idle" "mn s = M_destroy \<Longrightarrow> bt s = B_done \<and> lt s = L_done"
    "lt s = L_held \<or> lt s = L_rheld \<Longrightarrow> mn s \<noteq> M_add_held \<and> mn s \<noteq> M_close_held"
  using assms by ((cases "lt s"; simp add: proc_inv_def), simp add: proc_inv_def, simp add: proc_inv_def,
    simp add: proc_inv_def joined_bt_def, (cases "mn s"; simp add: proc_inv_def))

lemma main_step_inv:
  assumes "main_step s t" and "proc_inv s"
  shows "proc_inv t"
  using assms(1)
proof (cases rule: main_step.cases)
  case m_unlock
  then show ?thesis using proc_idle [OF assms(2)] assms(2) by (simp add: proc_defs)
next
  case m_closed
  then show ?thesis using proc_idle [OF assms(2)] assms(2) by (simp add: proc_defs)
next
  case m_kill
  then show ?thesis using term_bt_inv [OF assms(2)] assms(2) by (simp add: proc_defs split: if_splits)
next
  case m_joined_lirc
  then show ?thesis using proc_idle [OF assms(2)] assms(2) by (simp add: proc_defs)
next
  case m_destroy
  then show ?thesis using proc_idle [OF assms(2)] assms(2) by (simp add: proc_defs)
qed (use assms(2) in \<open>simp_all add: proc_defs\<close>)

lemma bt_thread_step_inv:
  assumes "bt_thread_step tmo s t" and "proc_inv s"
  shows "proc_inv t"
  using assms(1)
proof (cases rule: bt_thread_step.cases)
  case (rd_call x q)
  then show ?thesis using assms(2) add_step_inv [OF rd_call(3)] by (simp add: proc_defs add_step_rpc [OF rd_call(3)])
next
  case (rd_add q)
  then show ?thesis using assms(2) add_step_inv [OF rd_add(4)] by (simp add: proc_defs add_step_rpc [OF rd_add(4)])
qed (use assms(2) in \<open>simp_all add: proc_defs\<close>)

lemma lirc_thread_step_inv:
  assumes "lirc_thread_step s t" and "proc_inv s"
  shows "proc_inv t"
  using assms(1)
proof (cases rule: lirc_thread_step.cases)
  case (l_call q)
  then show ?thesis
    using assms(2) rem_step_inv [OF l_call(4)] rem_call [OF l_call(4)] by (simp add: proc_defs rem_step_apc [OF l_call(4)])
next
  case (l_rem q)
  then show ?thesis using assms(2) rem_step_inv [OF l_rem(3)] by (simp add: proc_defs rem_step_apc [OF l_rem(3)])
next
  case l_unlock
  then show ?thesis using proc_idle(5) [OF assms(2)] assms(2) by (simp add: proc_defs)
next
  case l_runlock
  then show ?thesis using proc_idle(5) [OF assms(2)] assms(2) by (simp add: proc_defs)
qed (use assms(2) in \<open>simp_all add: proc_defs\<close>)

lemma tick_step_inv: "tick_step s t \<Longrightarrow> proc_inv s \<Longrightarrow> proc_inv t"
  by (induction rule: tick_step.induct) (clarsimp simp: proc_defs env_step_inv [OF e_timeout])+

lemma outside_step_inv:
  assumes "outside_step s t" and "proc_inv s"
  shows "proc_inv t"
  using assms(1)
proof (cases rule: outside_step.cases)
  case (o_spurious q)
  then show ?thesis
    using assms(2) env_step_inv [OF o_spurious(2)] by (simp add: proc_defs env_step_pcs [OF o_spurious(2)])
next
  case o_term_bt
  then show ?thesis using term_bt_inv [OF assms(2)] by simp
qed (use assms(2) in \<open>simp_all add: proc_defs\<close>)

interpretation ps: invariant_system proc_init "proc_step tmo" proc_inv
  by unfold_locales
     (auto simp: proc_step_def run_step_def intro: proc_init_inv main_step_inv bt_thread_step_inv
       lirc_thread_step_inv tick_step_inv outside_step_inv)

section \<open>How much is left to do\<close>

text \<open>
  An upper bound of the steps the threads can still make once the flag is set. Waiting for the
  outside costs nothing; what a signal on a condition gives the sleeping thread to do is paid by the signalling one.
\<close>

definition add_work :: "'a qsys \<Rightarrow> nat" where
  "add_work q = (case apc q of A_idle \<Rightarrow> 0 | A_signal \<Rightarrow> 8 | A_unlock \<Rightarrow> 9
     | A_test _ \<Rightarrow> (if full (ring q) \<noteq> 0 then 14 else 10) | A_woken _ \<Rightarrow> (if full (ring q) \<noteq> 0 then 15 else 11)
     | A_lock _ \<Rightarrow> (if full (ring q) \<noteq> 0 then 15 else 12) | A_wait _ \<Rightarrow> 13)"

fun bt_work :: "'a bt_pc \<Rightarrow> 'a qsys \<Rightarrow> nat" where
  "bt_work B_done q = 0" | "bt_work B_test q = 1" | "bt_work B_close q = 2" | "bt_work (Rd_test n) q = 3"
| "bt_work B_check q = 4" | "bt_work B_accept_intr q = 5" | "bt_work B_pre_intr q = 6"
| "bt_work B_accept_ctrl q = 7" | "bt_work B_pre_ctrl q = 8" | "bt_work B_poll q = 9" | "bt_work B_start q = 10"
| "bt_work Rd_adding q = add_work q" | "bt_work (Rd_data x) q = 16" | "bt_work Rd_recv q = 17"
| "bt_work (Rd_poll n) q = 18"

definition rem_work :: "'a qsys \<Rightarrow> nat" where
  "rem_work q = (case rpc q of R_idle \<Rightarrow> 0 | R_fail \<Rightarrow> 8 | R_woken t \<Rightarrow> (if t then 9 else 19) | R_signal \<Rightarrow> 14
     | R_unlock \<Rightarrow> 15 | R_wait \<Rightarrow> 17 | R_test \<Rightarrow> 18 | R_lock \<Rightarrow> 19)"

fun lirc_work :: "lirc_pc \<Rightarrow> 'a qsys \<Rightarrow> nat" where
  "lirc_work L_done q = 0" | "lirc_work L_test q = 1" | "lirc_work L_rheld q = 2" | "lirc_work L_rwant q = 3"
| "lirc_work L_repeat q = 4" | "lirc_work L_held q = 5" | "lirc_work L_want q = 6" | "lirc_work L_handle q = 7"
| "lirc_work L_rem q = rem_work q"

fun main_work :: "main_pc \<Rightarrow> nat" where
  "main_work M_end = 0" | "main_work M_destroy = 1" | "main_work M_join_lirc = 2" | "main_work M_join_bt = 3"
| "main_work M_kill = 4" | "main_work M_close_held = 5" | "main_work M_close = 6" | "main_work M_test = 7"
| "main_work M_add_held = 8" | "main_work M_add = 9" | "main_work M_accept = 10" | "main_work M_poll = 11"
| "main_work M_pre = 12" | "main_work M_listen = 13"

definition work :: "'a proc \<Rightarrow> nat" where
  "work s = main_work (mn s) + bt_work (bt s) (que s) + lirc_work (lt s) (que s)"

lemma work_bound: "work s \<le> 50"
proof -
  have "main_work (mn s) \<le> 13" by (cases "mn s") simp_all
  moreover have "bt_work (bt s) (que s) \<le> 18" by (cases "bt s") (simp_all add: add_work_def split: add_pc.split)
  moreover have "lirc_work (lt s) (que s) \<le> 19" by (cases "lt s") (simp_all add: rem_work_def split: rem_pc.split)
  ultimately show ?thesis by (simp add: work_def)
qed

text \<open>A step of one thread in the queue, with what it gives the other thread to do.\<close>

lemma add_step_work:
  assumes "add_step s t" and "apc s \<noteq> A_idle"
  shows "(if apc t = A_idle then 3 else add_work t) + rem_work t < add_work s + rem_work s"
  using assms
proof (cases rule: add_step.cases)
  case a_signal
  then show ?thesis by (cases "rpc s") (simp_all add: add_work_def rem_work_def wake_remover_def)
qed (simp_all add: add_work_def rem_work_def)

lemma add_call_work: "add_step s t \<Longrightarrow> apc t = A_lock x \<Longrightarrow> add_work t < 16 \<and> rem_work t = rem_work s"
  by (cases rule: add_step.cases) (auto simp: add_work_def rem_work_def)

lemma rem_step_work:
  assumes "rem_step s t" and "rpc s \<noteq> R_idle" and "t \<noteq> s"
  shows "add_work t + (if rpc t \<noteq> R_idle then rem_work t else if rpc s = R_fail then 4 else 7) <
    add_work s + rem_work s"
  using assms
proof (cases rule: rem_step.cases)
  case r_signal
  then show ?thesis by (cases "apc s") (simp_all add: add_work_def rem_work_def wake_adder_def)
next
  case r_take
  then show ?thesis by (cases "apc s") (simp_all add: add_work_def rem_work_def queueRem_ring_def Let_def)
qed (simp_all add: add_work_def rem_work_def)

lemma rem_work_idle: "rpc q = R_idle \<Longrightarrow> rem_work q = 0" by (simp add: rem_work_def)

lemma add_work_idle: "apc q = A_idle \<Longrightarrow> add_work q = 0" by (simp add: add_work_def)

lemma bt_step_work:
  assumes "bt_thread_step tmo s t" and c: "io_canceled s" and inv: "proc_inv s"
  shows "work t < work s"
  using assms(1)
proof (cases rule: bt_thread_step.cases)
  case (rd_call x q)
  have "add_work q < 16" "rem_work q = rem_work (que s)" using add_call_work [OF rd_call(3,4)] by simp_all
  with rd_call show ?thesis by (cases "lt s") (simp_all add: work_def)
next
  case (rd_add q)
  have "(if apc q = A_idle then 3 else add_work q) + rem_work q < add_work (que s) + rem_work (que s)"
    using add_step_work [OF rd_add(4,3)] .
  moreover have "rem_work q = rem_work (que s)" if "lt s \<noteq> L_rem"
    using inv that add_step_rpc [OF rd_add(4)] by (simp add: proc_inv_def rem_work_idle)
  ultimately show ?thesis using rd_add by (cases "lt s") (simp_all add: work_def split: if_splits)
qed (use c in \<open>simp_all add: work_def\<close>)

lemma lirc_step_work:
  assumes "lirc_thread_step s t" and c: "io_canceled s" and inv: "proc_inv s" and ne: "t \<noteq> s"
  shows "work t < work s"
  using assms(1)
proof (cases rule: lirc_thread_step.cases)
  case (l_rem q)
  have ne': "q \<noteq> que s" using ne l_rem(1,2) inv by (auto simp: proc_inv_def)
  have act: "rpc (que s) \<noteq> R_idle" using inv l_rem(2) by (simp add: proc_inv_def)
  have "add_work q + (if rpc q \<noteq> R_idle then rem_work q else if rpc (que s) = R_fail then 4 else 7) <
      add_work (que s) + rem_work (que s)"
    using rem_step_work [OF l_rem(3) act ne'] .
  moreover have "add_work q = add_work (que s)" if "bt s \<noteq> Rd_adding"
    using inv that rem_step_apc [OF l_rem(3)] by (simp add: proc_inv_def add_work_idle)
  ultimately show ?thesis using l_rem(1,2) by (cases "bt s") (simp_all add: work_def split: if_splits)
qed (use c in \<open>simp_all add: work_def\<close>)

lemma interrupt_bt_work: "bt_work (interrupt_bt pc) q \<le> bt_work pc q"
  by (cases pc) (simp_all add: interrupt_bt_def)

lemma main_step_work:
  assumes "main_step s t" and c: "io_canceled s"
  shows "work t < work s"
  using assms(1)
proof (cases rule: main_step.cases)
  case m_kill
  then show ?thesis using interrupt_bt_work [of "bt s" "que s"] by (simp add: term_bt_def work_def)
qed (use c in \<open>simp_all add: work_def\<close>)

lemma tick_step_work:
  assumes "tick_step s t" and inv: "proc_inv s"
  shows "work t < work s"
  using assms(1)
proof (cases rule: tick_step.cases)
  case t_rem
  have "lt s = L_rem" using inv t_rem(2) by (simp add: proc_inv_def)
  with t_rem show ?thesis by (cases "bt s") (simp_all add: work_def rem_work_def add_work_def)
qed (simp_all add: work_def)

lemma flag_stays:
  assumes "proc_step tmo s t" and c: "io_canceled s"
  shows "io_canceled t"
proof -
  have "main_step s t \<Longrightarrow> io_canceled t" by (erule main_step.cases) (use c in \<open>simp_all add: term_bt_def\<close>)
  moreover have "bt_thread_step tmo s t \<Longrightarrow> io_canceled t" by (erule bt_thread_step.cases) (use c in \<open>simp_all\<close>)
  moreover have "lirc_thread_step s t \<Longrightarrow> io_canceled t" by (erule lirc_thread_step.cases) (use c in \<open>simp_all\<close>)
  moreover have "tick_step s t \<Longrightarrow> io_canceled t" by (erule tick_step.cases) (use c in \<open>simp_all\<close>)
  moreover have "outside_step s t \<Longrightarrow> io_canceled t" by (erule outside_step.cases) (use c in \<open>simp_all add: term_bt_def\<close>)
  ultimately show ?thesis using assms(1) unfolding proc_step_def run_step_def by blast
qed

lemma run_step_work: "run_step tmo s t \<Longrightarrow> io_canceled s \<Longrightarrow> proc_inv s \<Longrightarrow> work t < work s"
  unfolding run_step_def by (auto intro: main_step_work bt_step_work lirc_step_work tick_step_work)

section \<open>When no step is left\<close>

lemma bt_owner: "proc_inv s \<Longrightarrow> owner (que s) = Some Bt \<Longrightarrow> adder_holds (apc (que s)) \<and> bt s = Rd_adding"
  by (cases "apc (que s)") (simp_all add: proc_inv_def qsys_inv_def adder_holds_def)

lemma lirc_owner: "proc_inv s \<Longrightarrow> owner (que s) = Some Lirc \<Longrightarrow> remover_holds (rpc (que s)) \<and> lt s = L_rem"
  by (cases "rpc (que s)") (simp_all add: proc_inv_def qsys_inv_def remover_holds_def)

lemma server_moves:
  assumes inv: "proc_inv s" and d: "dmut s = Some Server"
  shows "\<exists>t. run_step tmo s t"
proof -
  have main: "\<exists>t. run_step tmo s t" if "main_step s t" "mn t \<noteq> mn s" for t
    using that by (auto simp: run_step_def)
  have "mn s = M_add_held \<or> mn s = M_close_held" using inv d by (simp add: proc_inv_def)
  then show ?thesis using main [OF m_unlock] main [OF m_closed] by auto
qed

lemma lirc_moves:
  assumes inv: "proc_inv s" and c: "io_canceled s" and lt: "lt s \<noteq> L_done" and o: "owner (que s) \<noteq> Some Bt"
  shows "\<exists>t. run_step tmo s t"
proof -
  have go: "\<exists>t. run_step tmo s t" if "lirc_thread_step s t" "lt t \<noteq> lt s" for t
    using that by (auto simp: run_step_def)
  have rem: "\<exists>t. run_step tmo s t" if "rem_step (que s) q" "rpc q \<noteq> rpc (que s)" "lt s = L_rem" for q
  proof -
    let ?t = "s\<lparr>que := q, lt := (if rpc q \<noteq> R_idle then L_rem
      else if rpc (que s) = R_fail then L_repeat else L_handle)\<rparr>"
    have "que ?t = q" by simp
    with that(2) have "?t \<noteq> s" by metis
    with l_rem [OF that(3,1)] show ?thesis unfolding run_step_def by blast
  qed
  have lock: "\<exists>t. run_step tmo s t" if "dmut s = None \<Longrightarrow> \<exists>t. run_step tmo s t" "lt s \<notin> {L_held, L_rheld}"
  proof (cases "dmut s")
    case (Some u)
    then show ?thesis using server_moves [OF inv, of tmo] inv that(2) by (cases u) (simp_all add: proc_inv_def)
  qed (use that(1) in simp)
  show ?thesis
  proof (cases "lt s")
    case L_test then show ?thesis using go [OF l_stop [OF _ c]] by simp
  next
    case L_handle then show ?thesis using go [OF l_quiet] by simp
  next
    case L_want show ?thesis by (rule lock [OF go [OF l_lock]]) (simp_all add: L_want)
  next
    case L_held then show ?thesis using go [OF l_unlock] by simp
  next
    case L_repeat then show ?thesis using go [OF l_not_yet] by simp
  next
    case L_rwant show ?thesis by (rule lock [OF go [OF l_rlock]]) (simp_all add: L_rwant)
  next
    case L_rheld then show ?thesis using go [OF l_runlock] by simp
  next
    case L_rem
    have free: "owner (que s) = None" if "\<not> remover_holds (rpc (que s))"
      using o that lirc_owner [OF inv] by (metis not_None_eq thread.exhaust)
    show ?thesis
    proof (cases "rpc (que s)")
      case R_idle then show ?thesis using inv L_rem by (simp add: proc_inv_def)
    next
      case R_lock then show ?thesis using rem [OF r_lock [OF R_lock free] _ L_rem] by (simp add: pc_defs)
    next
      case R_test
      show ?thesis
      proof (cases "empty (ring (que s)) = 0")
        case True then show ?thesis using rem [OF r_take [OF R_test] _ L_rem] R_test by simp
      next
        case False then show ?thesis using rem [OF r_wait [OF R_test] _ L_rem] R_test by simp
      qed
    next
      case R_wait
      have "tick_step s (s\<lparr>que := (que s)\<lparr>rpc := R_woken True\<rparr>\<rparr>)" by (rule t_rem [OF R_wait])
      moreover have "s\<lparr>que := (que s)\<lparr>rpc := R_woken True\<rparr>\<rparr> \<noteq> s" using R_wait by (cases s; cases "que s") auto
      ultimately show ?thesis by (auto simp: run_step_def)
    next
      case (R_woken b)
      then show ?thesis using rem [OF r_relock [OF R_woken free] _ L_rem] by (simp add: pc_defs split: if_splits)
    next
      case R_fail then show ?thesis using rem [OF r_fail [OF R_fail] _ L_rem] by simp
    next
      case R_unlock then show ?thesis using rem [OF r_unlock [OF R_unlock] _ L_rem] by simp
    next
      case R_signal then show ?thesis using rem [OF r_signal [OF R_signal] _ L_rem] by simp
    qed
  qed (use lt in simp)
qed

lemma bt_moves:
  assumes inv: "proc_inv s" and c: "io_canceled s" and bt: "bt s \<notin> {B_done, B_accept_ctrl, B_accept_intr}"
  shows "(\<exists>t. run_step tmo s t) \<or>
    bt s = Rd_adding \<and> adder_sleeps (apc (que s)) \<and> full (ring (que s)) \<noteq> 0 \<and> lt s = L_done"
proof -
  have go: "\<exists>t. run_step tmo s t" if "bt_thread_step tmo s t" "bt t \<noteq> bt s \<or> que t \<noteq> que s" for t
    using that by (auto simp: run_step_def)
  have tick: "\<exists>t. run_step tmo s t" if "tick_step s t" "bt t \<noteq> bt s" for t
    using that by (auto simp: run_step_def)
  have main: "\<exists>t. run_step tmo s t" if "main_step s t" "mn t \<noteq> mn s" for t
    using that by (auto simp: run_step_def)
  show ?thesis
  proof (cases "bt s")
    case B_start then show ?thesis using go [OF b_address] by simp
  next
    case B_test then show ?thesis using go [OF b_stop [OF _ c]] by simp
  next
    case B_poll then show ?thesis using tick [OF t_poll] by simp
  next
    case B_pre_ctrl then show ?thesis using go [OF b_accept_ctrl] by simp
  next
    case B_pre_intr then show ?thesis using go [OF b_accept_intr] by simp
  next
    case B_check then show ?thesis using go [OF b_known] by simp
  next
    case B_close then show ?thesis using go [OF b_close] by simp
  next
    case (Rd_test n) then show ?thesis using go [OF rd_stop [OF _ c]] by simp
  next
    case (Rd_poll n) then show ?thesis using tick [OF t_read] by simp
  next
    case Rd_recv then show ?thesis using go [OF rd_gone] by simp
  next
    case (Rd_data x)
    then have "apc (que s) = A_idle" using inv by (simp add: proc_inv_def)
    then show ?thesis using go [OF rd_call [OF Rd_data a_call]] Rd_data by simp
  next
    case Rd_adding
    have act: "apc (que s) \<noteq> A_idle" using inv Rd_adding by (simp add: proc_inv_def)
    have add: "\<exists>t. run_step tmo s t" if "add_step (que s) q" "apc q \<noteq> apc (que s)" for q
      by (rule go [OF rd_add [OF Rd_adding act that(1)]]) (use that(2) in auto)
    have lirc: "\<exists>t. run_step tmo s t" if "lt s \<noteq> L_done" "owner (que s) \<noteq> Some Bt"
      using lirc_moves [OF inv c that] .
    have lock: "\<exists>t. run_step tmo s t" if "apc (que s) = A_lock x \<or> apc (que s) = A_woken x" for x
    proof (cases "owner (que s)")
      case None
      with that add [OF a_lock, of x] add [OF a_relock, of x] show ?thesis by auto
    next
      case (Some th)
      moreover have "th \<noteq> Bt" using bt_owner [OF inv] that Some by (auto simp: adder_holds_def)
      ultimately show ?thesis using lirc lirc_owner [OF inv] by (cases th) auto
    qed
    show ?thesis
    proof (cases "apc (que s)")
      case (A_test x)
      then show ?thesis using add [OF a_wait [OF A_test]] add [OF a_put [OF A_test]] by (cases "full (ring (que s)) = 0") auto
    next
      case (A_wait x)
      have "owner (que s) \<noteq> Some Bt" using bt_owner [OF inv] A_wait by (auto simp: adder_holds_def)
      moreover have "full (ring (que s)) \<noteq> 0" if "lt s = L_done"
        using inv A_wait that by (clarsimp simp: proc_inv_def qsys_inv_def adder_sleeps_def)
      ultimately show ?thesis using lirc A_wait Rd_adding by (auto simp: adder_sleeps_def)
    next
      case A_unlock then show ?thesis using add [OF a_unlock] by auto
    next
      case A_signal then show ?thesis using add [OF a_signal] by auto
    qed (use act lock in auto)
  qed (use bt in simp_all)
qed

lemma no_step_left:
  assumes inv: "proc_inv s" and c: "io_canceled s" and no: "\<nexists>t. run_step tmo s t"
  shows "mn s \<in> {M_end, M_poll} \<or> bt s \<in> {B_accept_ctrl, B_accept_intr} \<or>
    bt s = Rd_adding \<and> adder_sleeps (apc (que s)) \<and> full (ring (que s)) \<noteq> 0 \<and> lt s = L_done"
proof (cases "bt s \<in> {B_done, B_accept_ctrl, B_accept_intr}")
  case False
  with bt_moves [OF inv c] no show ?thesis by blast
next
  case True
  have main: "\<exists>t. run_step tmo s t" if "main_step s t" "mn t \<noteq> mn s" for t
    using that by (auto simp: run_step_def)
  have "owner (que s) \<noteq> Some Bt" using bt_owner [OF inv] True by auto
  then have lt: "lt s = L_done" using lirc_moves [OF inv c] no by blast
  have "dmut s \<noteq> Some Sender" using inv lt by (simp add: proc_inv_def)
  then have "dmut s = None" using server_moves [OF inv] no by (metis not_None_eq table_user.exhaust)
  moreover have "\<exists>t. run_step tmo s t" if "bt s = B_done" "dmut s = None" "mn s \<notin> {M_end, M_poll}"
  proof (cases "mn s")
    case M_listen then show ?thesis using main [OF m_listen] by simp
  next
    case M_test then show ?thesis using main [OF m_stop [OF _ c]] by simp
  next
    case M_pre then show ?thesis using main [OF m_ppoll] by simp
  next
    case M_accept then show ?thesis using main [OF m_reject] by simp
  next
    case M_add then show ?thesis using main [OF m_lock] that(2) by simp
  next
    case M_add_held then show ?thesis using main [OF m_unlock] by simp
  next
    case M_close then show ?thesis using main [OF m_close] that(2) by simp
  next
    case M_close_held then show ?thesis using main [OF m_closed] by simp
  next
    case M_kill then show ?thesis using main [OF m_kill] by simp
  next
    case M_join_bt then show ?thesis using main [OF m_joined_bt] that(1) by simp
  next
    case M_join_lirc then show ?thesis using main [OF m_joined_lirc] lt by simp
  next
    case M_destroy then show ?thesis using main [OF m_destroy] by simp
  qed (use that(3) in simp_all)
  ultimately have "mn s \<in> {M_end, M_poll}" if "bt s = B_done" using that no by blast
  with True show ?thesis by auto
qed

lemma run_bounded:
  "(run_step tmo ^^ n) s t \<Longrightarrow> io_canceled s \<Longrightarrow> proc_inv s \<Longrightarrow>
     n + work t \<le> work s \<and> io_canceled t \<and> proc_inv t"
proof (induction n arbitrary: t)
  case (Suc n)
  then obtain u where u: "(run_step tmo ^^ n) s u" "run_step tmo u t" by auto
  with Suc have "n + work u \<le> work s" "io_canceled u" "proc_inv u" by auto
  moreover have "proc_step tmo u t" using u(2) by (simp add: proc_step_def)
  ultimately show ?case
    using run_step_work [OF u(2)] flag_stays [of tmo u t] ps.inv_step [of u tmo t] by auto
qed simp

text \<open>With the rounds that are refused.\<close>

lemma rem_step_same: "rem_step s t \<Longrightarrow> t = s \<Longrightarrow> rpc s \<noteq> R_idle \<Longrightarrow> rpc s = R_test \<and> empty (ring s) \<noteq> 0"
  by (erule rem_step.cases) (auto dest: arg_cong [of _ _ rpc] arg_cong [of _ _ owner])

lemma thread_step_cases:
  assumes "thread_step tmo s t" and inv: "proc_inv s" and c: "io_canceled s"
  shows "refused_round s t \<or> run_step tmo s t"
proof (cases "t = s")
  case True
  have lirc: "lirc_thread_step s t"
    using assms(1) main_step_work [of s t] bt_step_work [of tmo s t] tick_step_work [of s t] True inv c
    unfolding thread_step_def by auto
  then have "refused_round s t"
  proof (cases rule: lirc_thread_step.cases)
    case (l_rem q)
    with True have q: "q = que s" by (metis proc.ext_inject proc.surjective proc.update_convs(1,6))
    then show ?thesis
      using rem_step_same [OF l_rem(3)] l_rem(2) inv True by (simp add: refused_round_def proc_inv_def)
  qed (use True c in \<open>auto simp: refused_round_def dest: arg_cong [of _ _ lt]\<close>)
  then show ?thesis ..
next
  case False
  then show ?thesis using assms(1) by (auto simp: thread_step_def run_step_def)
qed

lemma progress_bounded:
  "thread_run tmo s ts \<Longrightarrow> io_canceled s \<Longrightarrow> proc_inv s \<Longrightarrow> progress s ts \<le> work s"
proof (induction ts arbitrary: s)
  case (Cons t ts)
  then have st: "thread_step tmo s t" "thread_run tmo t ts" by auto
  from thread_step_cases [OF st(1) Cons.prems(3,2)] show ?case
  proof
    assume "refused_round s t"
    with Cons.IH [OF st(2)] Cons.prems show ?thesis by (simp add: refused_round_def)
  next
    assume r: "run_step tmo s t"
    then have "proc_step tmo s t" by (simp add: proc_step_def)
    then have "io_canceled t" "proc_inv t" using flag_stays [of tmo s t] ps.inv_step [of s tmo t] Cons.prems by auto
    with Cons.IH [OF st(2)] run_step_work [OF r Cons.prems(2,3)] show ?thesis by simp
  qed
qed simp

text \<open>A sequence that goes down at every step but some has only such steps in the end.\<close>

lemma goes_down_ends:
  assumes "\<And>i. R i \<or> (g (Suc i) :: nat) < g i" and "\<And>i. R i \<Longrightarrow> g (Suc i) = g i"
  shows "\<exists>k. \<forall>i. i < k \<or> R i"
proof -
  define m where "m = (LEAST m. \<exists>k. g k = m)"
  have "\<exists>k. g k = m" unfolding m_def by (rule LeastI [of "\<lambda>m. \<exists>k. g k = m" "g 0"]) blast
  then obtain k where k: "g k = m" by blast
  have least: "m \<le> g i" for i unfolding m_def by (rule Least_le) blast
  have "g (k + n) = m \<and> R (k + n)" for n
  proof (induction n)
    case 0
    show ?case using assms(1) [of k] least [of "Suc k"] k by auto
  next
    case (Suc n)
    then have "g (k + Suc n) = m" using assms(2) [of "k + n"] by simp
    then show ?case using assms(1) [of "k + Suc n"] least [of "Suc (k + Suc n)"] by auto
  qed
  then show ?thesis by (metis le_add_diff_inverse not_le)
qed

lemma endless_run:
  assumes "io_canceled (f 0)" and "proc_inv (f 0)" and st: "\<And>i. thread_step tmo (f i) (f (Suc i))"
  shows "\<exists>k. \<forall>i. i < k \<or> refused_round (f i) (f (Suc i))"
proof -
  have inv: "io_canceled (f i) \<and> proc_inv (f i)" for i
  proof (induction i)
    case (Suc i)
    from thread_step_cases [OF st [of i]] Suc have "refused_round (f i) (f (Suc i)) \<or> proc_step tmo (f i) (f (Suc i))"
      by (auto simp: proc_step_def)
    then show ?case
      using Suc flag_stays [of tmo "f i" "f (Suc i)"] ps.inv_step [of "f i" tmo "f (Suc i)"]
      by (auto simp: refused_round_def)
  qed (use assms in simp)
  show ?thesis
    by (rule goes_down_ends [where g = "\<lambda>i. work (f i)"])
       (use inv thread_step_cases [OF st] run_step_work in blast, simp add: refused_round_def)
qed

lemma thread_steps_run:
  "(thread_step tmo)\<^sup>*\<^sup>* s t \<Longrightarrow> io_canceled s \<Longrightarrow> proc_inv s \<Longrightarrow> io_canceled t \<and> proc_inv t"
proof (induction rule: rtranclp_induct)
  case (step t u)
  then have "io_canceled t" "proc_inv t" by auto
  with thread_step_cases [OF step.hyps(2)] have "u = t \<or> proc_step tmo t u"
    by (auto simp: proc_step_def refused_round_def)
  with flag_stays [of tmo t u] ps.inv_step [of t tmo u] \<open>io_canceled t\<close> \<open>proc_inv t\<close> show ?case by auto
qed simp

text \<open>A packet that the bluetooth thread has still to put on the queue.\<close>

definition before_put :: "'a add_pc \<Rightarrow> bool" where
  "before_put pc = (case pc of A_lock _ \<Rightarrow> True | A_test _ \<Rightarrow> True | A_wait _ \<Rightarrow> True | A_woken _ \<Rightarrow> True | _ \<Rightarrow> False)"

fun put_left :: "'a bt_pc \<Rightarrow> 'a qsys \<Rightarrow> bool" where
  "put_left Rd_recv q \<longleftrightarrow> True"
| "put_left (Rd_data x) q \<longleftrightarrow> True"
| "put_left Rd_adding q \<longleftrightarrow> before_put (apc q)"
| "put_left pc q \<longleftrightarrow> False"

lemma add_step_put:
  "add_step s t \<Longrightarrow> apc s \<noteq> A_idle \<Longrightarrow> before_put (apc t) \<Longrightarrow> before_put (apc s) \<and> ring t = ring s"
  by (induction rule: add_step.induct) (simp_all add: before_put_def)

lemma rem_step_put:
  assumes "rem_step s t"
  shows "before_put (apc t) \<longleftrightarrow> before_put (apc s)" "full (ring s) = 0 \<Longrightarrow> full (ring t) = 0"
  using assms
  by (induction rule: rem_step.induct)
     (simp_all add: before_put_def wake_adder_def queueRem_ring_def Let_def split: add_pc.split)

text \<open>What holds from a well-timed signal on: there is room for the packet under way, and no thread waits without limit.\<close>

definition timely :: "'a proc \<Rightarrow> bool" where
  "timely s \<longleftrightarrow> io_canceled s \<and> mn s \<notin> {M_pre, M_poll} \<and>
     bt s \<notin> {B_pre_ctrl, B_accept_ctrl, B_pre_intr, B_accept_intr} \<and> (put_left (bt s) (que s) \<longrightarrow> full (ring (que s)) = 0)"

lemma timely_step:
  assumes "run_step tmo s t" and tm: "timely s" and inv: "proc_inv s"
  shows "timely t"
proof -
  have "timely t" if "main_step s t"
    using that
  proof (cases rule: main_step.cases)
    case m_kill
    then show ?thesis
      using tm by (cases "bt s") (simp_all add: timely_def term_bt_def interrupt_bt_def)
  qed (use tm in \<open>simp_all add: timely_def\<close>)
  moreover have "timely t" if "bt_thread_step tmo s t"
    using that
  proof (cases rule: bt_thread_step.cases)
    case (rd_call x q)
    from rd_call(3) have "ring q = ring (que s)" by (cases rule: add_step.cases) (use rd_call(4) in simp_all)
    with rd_call tm show ?thesis by (simp add: timely_def)
  next
    case (rd_add q)
    then show ?thesis using tm add_step_put [OF rd_add(4,3)] by (auto simp: timely_def)
  qed (use tm in \<open>simp_all add: timely_def\<close>)
  moreover have "timely t" if "lirc_thread_step s t"
    using that
  proof (cases rule: lirc_thread_step.cases)
    case (l_call q)
    then show ?thesis using tm by (simp add: timely_def)
  next
    case (l_rem q)
    then show ?thesis using tm rem_step_put [OF l_rem(3)] by (cases "bt s") (simp_all add: timely_def)
  qed (use tm in \<open>simp_all add: timely_def\<close>)
  moreover have "timely t" if "tick_step s t"
    using that
  proof (cases rule: tick_step.cases)
    case t_rem
    then show ?thesis using tm by (cases "bt s") (simp_all add: timely_def)
  qed (use tm in \<open>simp_all add: timely_def\<close>)
  ultimately show ?thesis using assms(1) unfolding run_step_def by blast
qed

lemma timely_run:
  "(run_step tmo)\<^sup>*\<^sup>* s t \<Longrightarrow> timely s \<Longrightarrow> proc_inv s \<Longrightarrow> timely t \<and> proc_inv t"
proof (induction rule: rtranclp_induct)
  case (step t u)
  then have "timely t" "proc_inv t" by auto
  moreover have "proc_step tmo t u" using step.hyps(2) by (simp add: proc_step_def)
  ultimately show ?case using timely_step [OF step.hyps(2)] ps.inv_step [of t tmo u] by auto
qed simp

section \<open>A packet that finds nobody\<close>

text \<open>The LIRC thread has ended, the queue is full, and the bluetooth thread wants to put a packet on it.\<close>

definition stuck_on_queue :: "'a proc \<Rightarrow> bool" where
  "stuck_on_queue s \<longleftrightarrow> lt s = L_done \<and> bt s = Rd_adding \<and> before_put (apc (que s)) \<and> full (ring (que s)) \<noteq> 0"

lemma stuck_step:
  assumes "proc_step tmo s t" and st: "stuck_on_queue s" and inv: "proc_inv s"
  shows "stuck_on_queue t"
proof -
  have idle: "rpc (que s) = R_idle" using proc_idle(3) [OF inv] st by (simp add: stuck_on_queue_def)
  have "stuck_on_queue t" if "main_step s t"
    using that by (cases rule: main_step.cases) (use st in \<open>simp_all add: stuck_on_queue_def term_bt_def\<close>)
  moreover have "stuck_on_queue t" if "bt_thread_step tmo s t"
    using that
  proof (cases rule: bt_thread_step.cases)
    case (rd_add q)
    from rd_add(4) have "before_put (apc q) \<and> ring q = ring (que s)"
      by (cases rule: add_step.cases) (use st rd_add(3) in \<open>simp_all add: stuck_on_queue_def before_put_def\<close>)
    with rd_add st show ?thesis by (auto simp: stuck_on_queue_def before_put_def)
  qed (use st in \<open>simp_all add: stuck_on_queue_def\<close>)
  moreover have "stuck_on_queue t" if "lirc_thread_step s t"
    using that by (cases rule: lirc_thread_step.cases) (use st in \<open>simp_all add: stuck_on_queue_def\<close>)
  moreover have "stuck_on_queue t" if "tick_step s t"
    using that by (cases rule: tick_step.cases) (use st idle in \<open>simp_all add: stuck_on_queue_def\<close>)
  moreover have "stuck_on_queue t" if "outside_step s t"
    using that
  proof (cases rule: outside_step.cases)
    case (o_spurious q)
    from o_spurious(2) have "before_put (apc q) \<and> ring q = ring (que s)"
      by (cases rule: env_step.cases) (use st idle in \<open>simp_all add: stuck_on_queue_def before_put_def\<close>)
    with o_spurious(1) st show ?thesis by (simp add: stuck_on_queue_def)
  qed (use st in \<open>simp_all add: stuck_on_queue_def term_bt_def\<close>)
  ultimately show ?thesis using assms(1) unfolding proc_step_def run_step_def by blast
qed

lemma stuck_run:
  "(proc_step tmo)\<^sup>*\<^sup>* s t \<Longrightarrow> stuck_on_queue s \<Longrightarrow> proc_inv s \<Longrightarrow> stuck_on_queue t \<and> proc_inv t"
  by (induction rule: rtranclp_induct) (auto intro: stuck_step ps.inv_step)

section \<open>Runs\<close>

abbreviation pst :: "'a qsys \<Rightarrow> bool \<Rightarrow> main_pc \<Rightarrow> 'a bt_pc \<Rightarrow> lirc_pc \<Rightarrow> 'a proc" where
  "pst q f m b l \<equiv> \<lparr>que = q, io_canceled = f, dmut = None, mn = m, bt = b, lt = l\<rparr>"

abbreviation preach :: "int \<Rightarrow> 'a proc \<Rightarrow> bool" where
  "preach tmo \<equiv> reach proc_init (proc_step tmo)"

lemma preach_main: "preach tmo s \<Longrightarrow> main_step s t \<Longrightarrow> mn t \<noteq> mn s \<Longrightarrow> preach tmo t"
  by (erule reach_step) (auto simp: proc_step_def run_step_def)

lemma preach_bt: "preach tmo s \<Longrightarrow> bt_thread_step tmo s t \<Longrightarrow> bt t \<noteq> bt s \<or> apc (que t) \<noteq> apc (que s) \<Longrightarrow> preach tmo t"
  by (erule reach_step) (auto simp: proc_step_def run_step_def)

lemma preach_lirc: "preach tmo s \<Longrightarrow> lirc_thread_step s t \<Longrightarrow> lt t \<noteq> lt s \<Longrightarrow> preach tmo t"
  by (erule reach_step) (auto simp: proc_step_def run_step_def)

lemma preach_outside: "preach tmo s \<Longrightarrow> outside_step s t \<Longrightarrow> preach tmo t"
  by (erule reach_step) (simp add: proc_step_def)

lemma preach_start: "qinit q \<Longrightarrow> preach tmo (pst q False M_listen B_start L_test)"
  by (rule reach_init) (simp add: proc_init_def)

text \<open>A signal that comes while the main thread is between its test of the flag and \<open>ppoll\<close>.\<close>

lemma reach_asleep:
  assumes "qinit q"
  shows "preach tmo (pst q True M_poll B_done L_done)"
proof -
  have "preach tmo (pst q False M_test B_start L_test)"
    using preach_main [OF preach_start [OF assms] m_listen] by simp
  then have "preach tmo (pst q False M_pre B_start L_test)" using preach_main [OF _ m_go] by fastforce
  then have "preach tmo (pst q False M_pre B_test L_test)" using preach_bt [OF _ b_address] by fastforce
  then have "preach tmo (pst q True M_pre B_test L_test)" using preach_outside [OF _ o_term_lirc] by fastforce
  then have "preach tmo (pst q True M_poll B_test L_test)" using preach_main [OF _ m_ppoll] by fastforce
  then have "preach tmo (pst q True M_poll B_done L_test)" using preach_bt [OF _ b_stop] by fastforce
  then show ?thesis using preach_lirc [OF _ l_stop] by fastforce
qed

text \<open>A remote that opened only its control channel, and the signal to the bluetooth thread before the second \<open>accept\<close>.\<close>

lemma reach_accept:
  assumes "qinit q"
  shows "preach tmo (pst q True M_join_bt B_accept_intr L_done)"
proof -
  have "preach tmo (pst q False M_listen B_test L_test)"
    using preach_bt [OF preach_start [OF assms] b_address] by simp
  then have "preach tmo (pst q False M_listen B_poll L_test)" using preach_bt [OF _ b_go] by fastforce
  then have "preach tmo (pst q False M_listen B_pre_ctrl L_test)" using preach_outside [OF _ o_remote] by fastforce
  then have "preach tmo (pst q False M_listen B_accept_ctrl L_test)" using preach_bt [OF _ b_accept_ctrl] by fastforce
  then have "preach tmo (pst q False M_listen B_pre_intr L_test)" using preach_outside [OF _ o_ctrl] by fastforce
  then have "preach tmo (pst q False M_test B_pre_intr L_test)" using preach_main [OF _ m_listen] by fastforce
  then have "preach tmo (pst q True M_test B_pre_intr L_test)" using preach_outside [OF _ o_term_lirc] by fastforce
  then have "preach tmo (pst q True M_close B_pre_intr L_test)" using preach_main [OF _ m_stop] by fastforce
  then have "preach tmo ((pst q True M_close B_pre_intr L_test)\<lparr>mn := M_close_held, dmut := Some Server\<rparr>)"
    using preach_main [OF _ m_close] by fastforce
  then have "preach tmo (pst q True M_kill B_pre_intr L_test)" using preach_main [OF _ m_closed] by fastforce
  then have "preach tmo (pst q True M_join_bt B_pre_intr L_test)"
    using preach_main [OF _ m_kill] by (fastforce simp: term_bt_def interrupt_bt_def)
  then have "preach tmo (pst q True M_join_bt B_accept_intr L_test)" using preach_bt [OF _ b_accept_intr] by fastforce
  then show ?thesis using preach_lirc [OF _ l_stop] by fastforce
qed

text \<open>The bluetooth thread reads packets and puts them on the queue while the LIRC thread is slow.\<close>

lemma reach_lock:
  assumes r: "preach tmo (pst q False m (Rd_test 0) l)" and t: "0 \<le> tmo"
    and q: "apc q = A_idle" "owner q = None"
  shows "preach tmo (pst (q\<lparr>owner := Some Bt, apc := A_test x\<rparr>) False m Rd_adding l)"
proof -
  have "preach tmo (pst q False m (Rd_poll 0) l)" using preach_bt [OF r rd_go] t by simp
  then have "preach tmo (pst q False m Rd_recv l)" using preach_outside [OF _ o_data] by fastforce
  then have "preach tmo (pst q False m (Rd_data x) l)" using preach_bt [OF _ rd_data [where x = x]] by fastforce
  then have "preach tmo (pst (q\<lparr>apc := A_lock x\<rparr>) False m Rd_adding l)"
    using preach_bt [OF _ rd_call [OF _ a_call [where x = x]]] q(1) by fastforce
  from preach_bt [OF this rd_add [OF _ _ a_lock [where x = x]]] show ?thesis using q by simp
qed

lemma reach_put:
  assumes r: "preach tmo (pst q False m (Rd_test 0) l)" and t: "0 \<le> tmo"
    and q: "apc q = A_idle" "owner q = None" "rpc q = R_idle" and f: "full (ring q) = 0"
  shows "preach tmo (pst (q\<lparr>ring := queueAdd_ring x (ring q), added := added q @ [x]\<rparr>) False m (Rd_test 0) l)"
proof -
  let ?r = "queueAdd_ring x (ring q)" let ?a = "added q @ [x]"
  note lock = reach_lock [OF r t q(1,2), of x]
  from preach_bt [OF lock rd_add [OF _ _ a_put [where x = x]]] f
  have "preach tmo (pst (q\<lparr>owner := Some Bt, ring := ?r, added := ?a, apc := A_unlock\<rparr>) False m Rd_adding l)" by simp
  from preach_bt [OF this rd_add [OF _ _ a_unlock]]
  have "preach tmo (pst (q\<lparr>ring := ?r, added := ?a, owner := None, apc := A_signal\<rparr>) False m Rd_adding l)" by simp
  from preach_bt [OF this rd_add [OF _ _ a_signal]]
  have "preach tmo (pst (q\<lparr>ring := ?r, added := ?a, owner := None, apc := A_idle, rpc := R_idle\<rparr>) False m (Rd_test 0) l)"
    using q(3) by (simp add: wake_remover_def)
  moreover have "q\<lparr>ring := ?r, added := ?a, owner := None, apc := A_idle, rpc := R_idle\<rparr> =
      q\<lparr>ring := ?r, added := ?a\<rparr>" using q by (cases q) simp
  ultimately show ?thesis by simp
qed

lemma filled_pcs: "apc (filled n) = A_idle" "owner (filled n) = None" "rpc (filled n) = R_idle"
  by (simp_all add: filled_def qsys0_def)

lemma filled_not_full: "n < QUEUESIZE \<Longrightarrow> full (ring (filled n)) = 0"
  using filled_ring [of n] ring_full_iff [of "ring (filled n)"] by (metis length_replicate length_ring_list less_imp_le)

lemma filled_full: "full (ring (filled QUEUESIZE)) = 1"
  using filled_ring [of QUEUESIZE] ring_full_iff [of "ring (filled QUEUESIZE)"]
  by (metis length_replicate length_ring_list less_irrefl order_refl ring_inv_def)

lemma reach_packets:
  "0 \<le> tmo \<Longrightarrow> n \<le> QUEUESIZE \<Longrightarrow> preach tmo (pst (filled n) False M_listen (Rd_test 0) L_test)"
proof (induction n)
  case 0
  have "preach tmo (pst qsys0 False M_listen B_test L_test)"
    using preach_bt [OF preach_start [OF qinit_qsys0] b_address] by simp
  then have "preach tmo (pst qsys0 False M_listen B_poll L_test)" using preach_bt [OF _ b_go] by fastforce
  then have "preach tmo (pst qsys0 False M_listen B_pre_ctrl L_test)" using preach_outside [OF _ o_remote] by fastforce
  then have "preach tmo (pst qsys0 False M_listen B_accept_ctrl L_test)" using preach_bt [OF _ b_accept_ctrl] by fastforce
  then have "preach tmo (pst qsys0 False M_listen B_pre_intr L_test)" using preach_outside [OF _ o_ctrl] by fastforce
  then have "preach tmo (pst qsys0 False M_listen B_accept_intr L_test)" using preach_bt [OF _ b_accept_intr] by fastforce
  then have "preach tmo (pst qsys0 False M_listen B_check L_test)" using preach_outside [OF _ o_intr] by fastforce
  then have "preach tmo (pst qsys0 False M_listen (Rd_test 0) L_test)" using preach_bt [OF _ b_known] by fastforce
  then show ?case by (simp add: filled_def qsys0_def)
next
  case (Suc n)
  have "filled (Suc n) = (filled n)\<lparr>ring := queueAdd_ring 5 (ring (filled n)), added := added (filled n) @ [5]\<rparr>"
    by (simp add: filled_def replicate_append_same fold_replicate funpow_swap1)
  with Suc reach_put [OF _ _ filled_pcs, of tmo n M_listen L_test 5] filled_not_full [of n] show ?case by simp
qed

lemma reach_stuck:
  assumes "0 \<le> tmo"
  shows "\<exists>s :: nat proc. preach tmo s \<and> io_canceled s \<and> stuck_on_queue s"
proof -
  let ?q = "(filled QUEUESIZE)\<lparr>owner := None, apc := A_wait 6\<rparr>"
  have "preach tmo (pst ((filled QUEUESIZE)\<lparr>owner := Some Bt, apc := A_test 6\<rparr>) False M_listen Rd_adding L_test)"
    by (rule reach_lock [OF reach_packets [OF assms order_refl] assms filled_pcs(1,2)])
  from preach_bt [OF this rd_add [OF _ _ a_wait [where x = 6]]]
  have "preach tmo (pst ?q False M_listen Rd_adding L_test)" by (simp add: filled_full)
  then have "preach tmo (pst ?q True M_listen Rd_adding L_test)" using preach_outside [OF _ o_term_lirc] by fastforce
  then have "preach tmo (pst ?q True M_listen Rd_adding L_done)" using preach_lirc [OF _ l_stop] by fastforce
  then show ?thesis
    by (intro exI [of _ "pst ?q True M_listen Rd_adding L_done"]) (simp add: stuck_on_queue_def before_put_def filled_full)
qed

lemma asleep_no_step:
  "rpc q = R_idle \<Longrightarrow> \<not> run_step tmo (pst q True M_poll B_done L_done) t"
  "rpc q = R_idle \<Longrightarrow> \<not> run_step tmo (pst q True M_join_bt B_accept_intr L_done) t"
  unfolding run_step_def
  by (auto elim: main_step.cases bt_thread_step.cases lirc_thread_step.cases tick_step.cases)

lemma ended_no_step: "rpc q = R_idle \<Longrightarrow> \<not> run_step tmo (pst q True M_end B_done L_done) t"
  unfolding run_step_def
  by (auto elim: main_step.cases bt_thread_step.cases lirc_thread_step.cases tick_step.cases)

section \<open>Properties\<close>

text \<open>
  C15: The shared data are torn down last. When the main thread gets to the end of \<open>main\<close>, where it destroys
  the queue and the table, both other threads have ended, none of them is inside the queue, and both mutexes are
  free, whatever signals came and whether or not the daemon could listen.
\<close>

theorem teardown_last:
  assumes "reach proc_init (proc_step tmo) s" and "mn s \<in> {M_destroy, M_end}"
  shows "bt s = B_done \<and> lt s = L_done \<and> apc (que s) = A_idle \<and> rpc (que s) = R_idle \<and> owner (que s) = None \<and>
     dmut s = None"
proof -
  have inv: "proc_inv s" using assms(1) by (rule ps.reach_inv)
  have ended: "bt s = B_done" "lt s = L_done" using inv assms(2) by (auto simp: proc_inv_def joined_bt_def)
  have "owner (que s) \<noteq> Some th" for th
    using bt_owner [OF inv] lirc_owner [OF inv] ended by (cases th) auto
  moreover have "dmut s \<noteq> Some u" for u
    using inv assms(2) ended by (cases u) (auto simp: proc_inv_def)
  ultimately show ?thesis using proc_idle(2,3) [OF inv] ended by (metis not_None_eq)
qed

lemma reach_join:
  assumes "qinit q"
  shows "preach tmo (pst q True M_join_lirc B_done L_test)"
proof -
  have "preach tmo (pst q False M_listen B_done L_test)"
    using preach_bt [OF preach_start [OF assms] b_bad_address] by simp
  then have "preach tmo (pst q False M_test B_done L_test)" using preach_main [OF _ m_listen] by fastforce
  then have "preach tmo (pst q True M_test B_done L_test)" using preach_outside [OF _ o_term_lirc] by fastforce
  then have "preach tmo (pst q True M_close B_done L_test)" using preach_main [OF _ m_stop] by fastforce
  then have "preach tmo ((pst q True M_close B_done L_test)\<lparr>mn := M_close_held, dmut := Some Server\<rparr>)"
    using preach_main [OF _ m_close] by fastforce
  then have "preach tmo (pst q True M_kill B_done L_test)" using preach_main [OF _ m_closed] by fastforce
  then have "preach tmo (pst q True M_join_bt B_done L_test)" using preach_main [OF _ m_kill] by (fastforce simp: term_bt_def)
  then show ?thesis using preach_main [OF _ m_joined_bt] by fastforce
qed

text \<open>The last three steps.\<close>

lemma last_steps:
  "run_step tmo (pst q True M_join_lirc B_done L_test) (pst q True M_join_lirc B_done L_done)"
  "run_step tmo (pst q True M_join_lirc B_done L_done) (pst q True M_destroy B_done L_done)"
  "run_step tmo (pst q True M_destroy B_done L_done) (pst q True M_end B_done L_done)"
  using l_stop [of "pst q True M_join_lirc B_done L_test"] m_joined_lirc [of "pst q True M_join_lirc B_done L_done"]
    m_destroy [of "pst q True M_destroy B_done L_done"] by (simp_all add: run_step_def)

lemma reach_end: "qinit q \<Longrightarrow> preach tmo (pst q True M_end B_done L_done)"
  using reach_join [of q tmo] last_steps [of tmo q] by (meson proc_step_def reach_step)

theorem teardown_last_witness:
  "\<exists>s :: nat proc. mn s = M_end \<and> bt s = B_done \<and> lt s = L_done \<and> owner (que s) = None \<and> dmut s = None"
  using teardown_last [OF reach_end [OF qinit_qsys0, of 60]] by (intro exI [of _ "pst qsys0 True M_end B_done L_done"]) simp

text \<open>
  C6: Once the termination flag is set the daemon has at most fifty steps to go, beside the rounds in which
  \<open>queueRemNonBlock\<close> waits on an empty queue with a deadline that the system refuses (it is not carried into the seconds,
  C40), which change nothing. In every run of the three threads, with the time limits of their waits but without
  anything from outside, at most fifty steps are no such round; in a run without end all steps from some moment on are
  such rounds; and when no step is left, either \<open>main\<close> has returned, or it sleeps in \<open>ppoll\<close>, or the bluetooth thread
  sleeps in \<open>accept\<close>, or it sleeps on a full queue that the LIRC thread has left. In particular no run deadlocks on
  the two mutexes.
\<close>

theorem shutdown_ends:
  assumes "reach proc_init (proc_step tmo) s" and "io_canceled s"
  shows "(\<forall>ts. \<not> thread_run tmo s ts \<or> progress s ts \<le> 50) \<and>
     (\<forall>f. f 0 = s \<and> (\<forall>i. thread_step tmo (f i) (f (Suc i))) \<longrightarrow> (\<exists>k. \<forall>i. i < k \<or> refused_round (f i) (f (Suc i)))) \<and>
     (\<forall>t. (thread_step tmo)\<^sup>*\<^sup>* s t \<and> (\<nexists>u. thread_step tmo t u) \<longrightarrow>
        mn t \<in> {M_end, M_poll} \<or> bt t \<in> {B_accept_ctrl, B_accept_intr} \<or> stuck_on_queue t)"
proof (intro conjI allI impI)
  have inv: "proc_inv s" using assms(1) by (rule ps.reach_inv)
  show "\<not> thread_run tmo s ts \<or> progress s ts \<le> 50" for ts
    using progress_bounded [of tmo s ts] assms(2) inv work_bound [of s] by linarith
  show "\<exists>k. \<forall>i. i < k \<or> refused_round (f i) (f (Suc i))"
    if "f 0 = s \<and> (\<forall>i. thread_step tmo (f i) (f (Suc i)))" for f
    using endless_run [of f tmo] that assms(2) inv by blast
  fix t
  assume run: "(thread_step tmo)\<^sup>*\<^sup>* s t \<and> (\<nexists>u. thread_step tmo t u)"
  then have "io_canceled t" "proc_inv t" using thread_steps_run [of tmo s t] assms(2) inv by auto
  moreover have "\<nexists>u. run_step tmo t u" using run by (auto simp: thread_step_def run_step_def)
  ultimately show "mn t \<in> {M_end, M_poll} \<or> bt t \<in> {B_accept_ctrl, B_accept_intr} \<or> stuck_on_queue t"
    using no_step_left [of t tmo] by (auto simp: stuck_on_queue_def adder_sleeps_def before_put_def split: add_pc.splits)
qed

text \<open>The last three steps, after a round that is refused.\<close>

theorem shutdown_ends_witness:
  "\<exists>(s :: nat proc) ts. io_canceled s \<and> mn s = M_join_lirc \<and> thread_run 60 s ts \<and> mn (last ts) = M_end \<and>
     progress s ts = 3 \<and> progress s ts \<le> 50"
proof -
  let ?s = "pst qsys0 True M_join_lirc B_done L_test"
  let ?ts = "[pst qsys0 True M_join_lirc B_done L_done, pst qsys0 True M_destroy B_done L_done,
    pst qsys0 True M_end B_done L_done] :: nat proc list"
  have run: "thread_run 60 ?s ?ts" using last_steps [of 60 qsys0] by (simp add: thread_step_def run_step_def)
  have "\<not> thread_run 60 ?s ?ts \<or> progress ?s ?ts \<le> 50"
    using shutdown_ends [OF reach_join [OF qinit_qsys0, of 60]] by simp
  with run show ?thesis by (intro exI [of _ ?s] exI [of _ ?ts]) (simp add: refused_round_def)
qed

text \<open>
  C18: A signal at a good time ends the daemon. When the flag is set while the main thread is not about to sleep in
  \<open>ppoll\<close>, the bluetooth thread is not at its two \<open>accept\<close>s, and there is room on the queue for a packet it may have
  in hand, then every run that goes on as long as it can reaches the end of \<open>main\<close>. (Rounds of
  \<open>queueRemNonBlock\<close> with a refused deadline change nothing and are not steps of these runs; C6 counts them.)
\<close>

theorem timely_signal_ends:
  assumes "reach proc_init (proc_step tmo) s" and "io_canceled s" and "mn s \<notin> {M_pre, M_poll}"
    and "bt s \<notin> {B_pre_ctrl, B_accept_ctrl, B_pre_intr, B_accept_intr}"
    and "put_left (bt s) (que s) \<Longrightarrow> full (ring (que s)) = 0"
    and run: "(run_step tmo)\<^sup>*\<^sup>* s t" "\<nexists>u. run_step tmo t u"
  shows "mn t = M_end"
proof -
  have "timely s" using assms(2-5) by (simp add: timely_def)
  then have tm: "timely t" "proc_inv t" using timely_run [OF run(1)] ps.reach_inv [OF assms(1)] by auto
  then have "io_canceled t" by (simp add: timely_def)
  from no_step_left [OF tm(2) this run(2)] tm(1) show ?thesis
    by (auto simp: timely_def adder_sleeps_def before_put_def split: add_pc.splits)
qed

theorem timely_signal_ends_witness:
  "\<exists>s t :: nat proc. mn s = M_join_lirc \<and> (run_step 60)\<^sup>*\<^sup>* s t \<and> mn t = M_end"
proof -
  let ?s = "pst qsys0 True M_join_lirc B_done L_test" and ?t = "pst qsys0 True M_end B_done L_done"
  have run: "(run_step 60)\<^sup>*\<^sup>* ?s ?t"
    using last_steps [of 60 qsys0] by (meson converse_rtranclp_into_rtranclp rtranclp.rtrancl_refl)
  have "\<nexists>u. run_step 60 ?t u" using ended_no_step [of qsys0] by (simp add: qsys0_def)
  from timely_signal_ends [OF reach_join [OF qinit_qsys0] _ _ _ _ run this] have "mn ?t = M_end" by simp
  with run show ?thesis by (intro exI [of _ ?s] exI [of _ ?t]) simp
qed

text \<open>
  C14: A full queue can keep the daemon alive for ever. There is a run, for every time-out, in which the LIRC thread sees
  the flag and ends while the bluetooth thread waits for room on the full queue. From then on no step of any
  thread, no time limit and nothing from outside, further signals included, brings \<open>main\<close> to its end: it waits in
  \<open>pthread_join\<close> for a thread that waits for one that is gone.
\<close>

theorem full_queue_hangs:
  assumes "0 \<le> tmo"
  shows "\<exists>s :: nat proc. reach proc_init (proc_step tmo) s \<and> io_canceled s \<and>
     (\<forall>t. (proc_step tmo)\<^sup>*\<^sup>* s t \<longrightarrow> mn t \<notin> {M_destroy, M_end} \<and> bt t = Rd_adding \<and> lt t = L_done)"
proof -
  obtain s :: "nat proc" where s: "preach tmo s" "io_canceled s" "stuck_on_queue s"
    using reach_stuck [OF assms] by blast
  have "mn t \<notin> {M_destroy, M_end} \<and> bt t = Rd_adding \<and> lt t = L_done" if "(proc_step tmo)\<^sup>*\<^sup>* s t" for t
  proof -
    have "stuck_on_queue t" "proc_inv t" using stuck_run [OF that s(3) ps.reach_inv [OF s(1)]] by auto
    then show ?thesis by (auto simp: stuck_on_queue_def proc_inv_def joined_bt_def)
  qed
  with s show ?thesis by blast
qed

theorem full_queue_hangs_witness: "\<exists>s :: nat proc. reach proc_init (proc_step 60) s \<and> io_canceled s \<and> mn s \<noteq> M_end"
proof -
  obtain s :: "nat proc" where s: "preach 60 s" "io_canceled s"
    and "\<forall>t. (proc_step 60)\<^sup>*\<^sup>* s t \<longrightarrow> mn t \<notin> {M_destroy, M_end} \<and> bt t = Rd_adding \<and> lt t = L_done"
    using full_queue_hangs [of 60] by auto
  then have "mn s \<notin> {M_destroy, M_end}" by blast
  with s show ?thesis by blast
qed

text \<open>
  C19: A signal at a bad time is lost. The main thread can sleep in \<open>ppoll\<close> without a time limit though the flag is set
  and both other threads have ended; and it can wait for the bluetooth thread that sleeps in its second
  \<open>accept\<close>, having been signalled just before. No thread and no time limit ends either wait, only the outside does.
\<close>

theorem late_signals_hang:
  "(\<exists>s :: nat proc. reach proc_init (proc_step tmo) s \<and> io_canceled s \<and> mn s = M_poll \<and> bt s = B_done \<and> lt s = L_done \<and>
      (\<nexists>t. run_step tmo s t)) \<and>
   (\<exists>s :: nat proc. reach proc_init (proc_step tmo) s \<and> io_canceled s \<and> mn s = M_join_bt \<and> bt s = B_accept_intr \<and>
      lt s = L_done \<and> (\<nexists>t. run_step tmo s t))"
proof -
  have "\<nexists>t. run_step tmo (pst qsys0 True M_poll B_done L_done) t"
    "\<nexists>t. run_step tmo (pst qsys0 True M_join_bt B_accept_intr L_done) t"
    using asleep_no_step [of qsys0 tmo] by (simp_all add: qsys0_def)
  then show ?thesis
    using reach_asleep [OF qinit_qsys0, of tmo] reach_accept [OF qinit_qsys0, of tmo] by fastforce
qed

end
