(* ===== verification/Capture_Bluez.thy ===== *)
theory Capture_Bluez
  imports Lirc_Callback
begin

text \<open>
  The bluetooth capture of \<^verbatim>\<open>src/capture/capture_bluez.c\<close>: opening the two listening channels,
  accepting the remote and reading its packets. The functions take the callbacks and the state \<open>p\<close>
  they work on as arguments. The bluez library is part of the \<open>os\<close>.
\<close>

definition L2CAP_PSM_HIDP_CTRL :: u16 where
  "L2CAP_PSM_HIDP_CTRL = 0x11"

definition L2CAP_PSM_HIDP_INTR :: u16 where
  "L2CAP_PSM_HIDP_INTR = 0x13"

definition MAXBUFFERSIZE :: int where
  "MAXBUFFERSIZE = 1024"

definition BDADDR_ANY :: bdaddr where
  "BDADDR_ANY = replicate 6 0"

definition POLLIN :: u16 where
  "POLLIN = 1"

text \<open>The log macros look at \<open>config->debug\<close>; what they print is not modelled.\<close>

definition log_debug :: "captureData \<Rightarrow> unit io" where
  "log_debug cd = seqio (liftio (deref (cd_config cd))) (retio ())"

section \<open>Channels\<close>

definition l2cap_checkSource :: "os \<Rightarrow> int \<Rightarrow> bdaddr \<Rightarrow> int io" where
  "l2cap_checkSource os sock address =
     bindio (asksio (peer_addr os)) (\<lambda>addr.
     bindio (sys os (Getpeername sock)) (\<lambda>r.
     if r < 0 then retio BDREMOTE_FAIL
     else if addr = address then retio 1
     else retio 0))"

definition l2cap_listen :: "os \<Rightarrow> bdaddr \<Rightarrow> u16 \<Rightarrow> int \<Rightarrow> int \<Rightarrow> int io" where
  "l2cap_listen os bdaddr psm lm backlog =
     bindio (sys os (Socket Bt_l2cap)) (\<lambda>sk.
     if sk < 0 then retio BDREMOTE_FAIL
     else bindio (sys os (Bind_l2cap sk bdaddr psm)) (\<lambda>r.
       if r < 0 then seqio (sys os (Close sk)) (retio BDREMOTE_FAIL)
       else seqio (sys os (Setsockopt sk (L2cap_lm lm)))
         (seqio (sys os (Setsockopt sk L2cap_options))
         (bindio (sys os (Listen sk backlog)) (\<lambda>r.
          if r < 0 then seqio (sys os (Close sk)) (retio BDREMOTE_FAIL)
          else retio sk)))))"

text \<open>The address is never asked for: the argument \<open>bdaddr\<close> is null in both calls.\<close>

definition l2cap_accept :: "os \<Rightarrow> int \<Rightarrow> int io" where
  "l2cap_accept os sk =
     bindio (sys os (Accept sk)) (\<lambda>nsk. if nsk < 0 then retio BDREMOTE_FAIL else retio nsk)"

section \<open>The bluetooth interface\<close>

text \<open>
  An interface in raw mode without an address is opened to read it; a failing read leaves the
  address as it was.
\<close>

definition device_addr :: "os \<Rightarrow> u16 \<Rightarrow> bool \<times> bdaddr \<Rightarrow> bdaddr io" where
  "device_addr os d di =
     (if fst di \<and> snd di = BDADDR_ANY
      then bindio (sys os (Hci (Hci_open_dev d))) (\<lambda>dd.
           bindio (asksio (dev_addr os)) (\<lambda>a.
           bindio (sys os (Hci (Hci_read_bd_addr dd))) (\<lambda>r.
           seqio (sys os (Hci (Hci_close_dev dd))) (retio (if r < 0 then snd di else a)))))
      else retio (snd di))"

fun find_device :: "os \<Rightarrow> int \<Rightarrow> u16 list \<Rightarrow> bdaddr \<Rightarrow> bool io" where
  "find_device os ctl [] address = retio False"
| "find_device os ctl (d # ds) address =
     bindio (asksio (\<lambda>h. dev_info os h d)) (\<lambda>di.
     bindio (sys os (Hci (Hci_get_dev_info ctl d))) (\<lambda>r.
     if r < 0 then find_device os ctl ds address
     else bindio (device_addr os d di) (\<lambda>a.
       if a = address then retio True else find_device os ctl ds address)))"

text \<open>A list of \<open>HCI_MAX_DEV = 16\<close> entries of 8 bytes after a 16 bit count.\<close>

definition bt_device_exists :: "os \<Rightarrow> bdaddr \<Rightarrow> int io" where
  "bt_device_exists os address =
     bindio (sys os (Socket Bt_hci)) (\<lambda>ctl.
     if ctl < 0 then stopio (Exited 1)
     else bindio (sys os (Proc (Malloc (16 * 8 + 2)))) (\<lambda>dl.
       if dl = 0 then retio BDREMOTE_FAIL
       else bindio (asksio (dev_list os)) (\<lambda>dr.
         bindio (sys os (Hci (Hci_get_dev_list ctl))) (\<lambda>r.
         if r < 0 then retio BDREMOTE_FAIL
         else bindio (find_device os ctl dr address) (\<lambda>found.
           seqio (sys os (Close ctl)) (retio (if found then BDREMOTE_OK else BDREMOTE_FAIL)))))))"

section \<open>Reading packets\<close>

definition battery_status :: "'p callbacks \<Rightarrow> captureData \<Rightarrow> byte list \<Rightarrow> int \<Rightarrow> 'p \<Rightarrow> 'p io" where
  "battery_status cb cd dat recv_len p =
     (if recv_len > 12
      then if uint (dat ! 12) \<in> {0, 1, 2, 3, 4, 5}
        then cb_charge cb p (uint (dat ! 12) * 20)
        else seqio (log_debug cd) (retio p)
      else retio p)"

definition packet_received :: "'p callbacks \<Rightarrow> captureData \<Rightarrow> byte list \<Rightarrow> int \<Rightarrow> 'p \<Rightarrow> 'p io" where
  "packet_received cb cd dat recv_len p =
     bindio (battery_status cb cd dat recv_len p) (\<lambda>p.
     seqio (log_debug cd)
     (seqio (assertio (cd_magic0 cd = 127)) (cb_data cb p dat recv_len)))"

text \<open>The loop: \<open>n\<close> is \<open>numberOfSeconds\<close>, an \<open>int\<close>.\<close>

fun read_loop :: "os \<Rightarrow> 'p callbacks \<Rightarrow> nat \<Rightarrow> captureData \<Rightarrow> int \<Rightarrow> int \<Rightarrow> 'p \<Rightarrow> (int \<times> 'p) io" where
  "read_loop os cb 0 cd sock n p = stopio Out_of_fuel"
| "read_loop os cb (Suc k) cd sock n p =
     bindio (sys os Get_canceled) (\<lambda>canceled.
     if canceled \<noteq> 0 then retio (0, p)
     else if n > timeout cd then seqio (log_debug cd) (retio (2, p))
     else bindio (sys os (Ppoll [sock] (Some 1))) (\<lambda>r.
       if r < 1
       then seqio (log_debug cd) (seqio (guardio (c_int (n + 1)) Int_overflow)
            (read_loop os cb k cd sock (n + 1) p))
       else bindio (recvio os sock MAXBUFFERSIZE) (\<lambda>(recv_len, dat).
         if recv_len \<le> 0 then retio (1, p)
         else bindio (packet_received cb cd dat recv_len p) (read_loop os cb k cd sock 0))))"

definition readFromSocket :: "os \<Rightarrow> 'p callbacks \<Rightarrow> nat \<Rightarrow> captureData \<Rightarrow> int \<Rightarrow> 'p \<Rightarrow> (int \<times> 'p) io" where
  "readFromSocket os cb fuel cd sock p = read_loop os cb fuel cd sock 0 p"

section \<open>The server\<close>

definition remote_session ::
  "os \<Rightarrow> 'p callbacks \<Rightarrow> nat \<Rightarrow> captureData \<Rightarrow> int \<Rightarrow> int \<Rightarrow> 'p \<Rightarrow> 'p io" where
  "remote_session os cb fuel cd nisk known p =
     (if known \<noteq> 0
      then bindio (cb_connected cb p) (\<lambda>p.
           bindio (readFromSocket os cb fuel cd nisk p) (\<lambda>(stat, p).
           seqio (log_debug cd) (cb_disconnected cb p)))
      else seqio (log_debug cd) (retio p))"

text \<open>
  Accepting both channels, checking the control channel, reading the interrupt channel, closing both.
\<close>

definition serve_remote :: "os \<Rightarrow> 'p callbacks \<Rightarrow> nat \<Rightarrow> captureData \<Rightarrow> bdaddr \<Rightarrow> int \<Rightarrow> int \<Rightarrow> 'p \<Rightarrow> 'p io" where
  "serve_remote os cb fuel cd address csk isk p =
     bindio (l2cap_accept os csk) (\<lambda>ncsk.
     bindio (l2cap_accept os isk) (\<lambda>nisk.
     seqio (log_debug cd)
     (bindio (l2cap_checkSource os ncsk address) (\<lambda>known.
      bindio (remote_session os cb fuel cd nisk known p) (\<lambda>p.
      seqio (sys os (Close nisk))
      (seqio (sys os (Sleep 1))
      (seqio (sys os (Close ncsk)) (retio p))))))))"

fun server_loop ::
  "os \<Rightarrow> 'p callbacks \<Rightarrow> nat \<Rightarrow> nat \<Rightarrow> captureData \<Rightarrow> bdaddr \<Rightarrow> int \<Rightarrow> int \<Rightarrow> 'p \<Rightarrow> 'p io" where
  "server_loop os cb fuel 0 cd address csk isk p = stopio Out_of_fuel"
| "server_loop os cb fuel (Suc k) cd address csk isk p =
     bindio (sys os Get_canceled) (\<lambda>canceled.
     if canceled \<noteq> 0 then retio p
     else bindio (asksio (\<lambda>h. or (revents os h 0) (revents os h 1))) (\<lambda>events.
       bindio (sys os (Ppoll [csk, isk] (Some 1))) (\<lambda>r.
       if r < 1 then seqio (log_debug cd) (server_loop os cb fuel k cd address csk isk p)
       else if and events POLLIN \<noteq> 0
       then bindio (serve_remote os cb fuel cd address csk isk p) (server_loop os cb fuel k cd address csk isk)
       else server_loop os cb fuel k cd address csk isk p)))"

definition run_server :: "os \<Rightarrow> 'p callbacks \<Rightarrow> nat \<Rightarrow> captureData \<Rightarrow> int \<Rightarrow> int \<Rightarrow> 'p \<Rightarrow> 'p io" where
  "run_server os cb fuel cd csk isk p =
     bindio (liftio (deref (dest_address cd))) (\<lambda>dest.
     let (r, address) = str2ba os dest in
     if r < 0 then seqio (log_debug cd) (retio p)
     else seqio (log_debug cd) (server_loop os cb fuel fuel cd address csk isk p))"

text \<open>
  The memory for the address is not checked before it is written. An address given by \<open>-i\<close> was
  copied by \<open>InitCaptureData\<close>.
\<close>

definition interface_address :: "os \<Rightarrow> captureData \<Rightarrow> (int \<times> captureData) io" where
  "interface_address os cd =
     (if bt_dev_address cd = None
      then bindio (asksio (\<lambda>h. snd (dev_info os h 0))) (\<lambda>a.
        bindio (sys os (Hci (Hci_devinfo 0))) (\<lambda>r.
        if r < 0 then retio (BDREMOTE_FAIL, cd)
        else bindio (sys os (Proc (Malloc 127))) (\<lambda>m.
          if m = 0 then stopio Null_deref
          else let (r, s) = ba2str os a; cd = cd\<lparr>bt_dev_address := Some s\<rparr> in
            if r < 0 then retio (BDREMOTE_FAIL, cd) else retio (BDREMOTE_OK, cd))))
      else retio (BDREMOTE_OK, cd))"

definition open_channels :: "os \<Rightarrow> captureData \<Rightarrow> bdaddr \<Rightarrow> (int \<times> captureData) io" where
  "open_channels os cd address =
     (let lm = 0 in
      bindio (sys os (Socket Bt_hidp)) (\<lambda>ctl.
      if ctl < 0 then retio (BDREMOTE_FAIL, cd)
      else bindio (l2cap_listen os address L2CAP_PSM_HIDP_CTRL lm 10) (\<lambda>csk.
        if csk < 0 then seqio (sys os (Close ctl)) (retio (BDREMOTE_FAIL, cd))
        else bindio (l2cap_listen os address L2CAP_PSM_HIDP_INTR lm 10) (\<lambda>isk.
          if isk < 0 then seqio (sys os (Close ctl)) (seqio (sys os (Close csk)) (retio (BDREMOTE_FAIL, cd)))
          else retio (BDREMOTE_OK, cd\<lparr>sockets := [ctl, csk, isk]\<rparr>)))))"

definition InitcaptureLoop :: "os \<Rightarrow> captureData \<Rightarrow> (int \<times> captureData) io" where
  "InitcaptureLoop os cd =
     bindio (interface_address os cd) (\<lambda>(r, cd).
     if r < 0 then retio (BDREMOTE_FAIL, cd)
     else bindio (liftio (deref (bt_dev_address cd))) (\<lambda>s.
       let (r, address) = str2ba os s in
       if r < 0 then retio (BDREMOTE_FAIL, cd)
       else bindio (bt_device_exists os address) (\<lambda>r.
         if r = BDREMOTE_FAIL then seqio (log_debug cd) (retio (BDREMOTE_FAIL, cd))
         else seqio (log_debug cd) (open_channels os cd address))))"

definition captureLoop :: "os \<Rightarrow> 'p callbacks \<Rightarrow> nat \<Rightarrow> captureData \<Rightarrow> 'p \<Rightarrow> (int \<times> 'p) io" where
  "captureLoop os cb fuel cd p =
     bindio (liftio (if length (sockets cd) = 3 then Inr (sockets cd) else Inl Out_of_bounds)) (\<lambda>s.
     let ctl = s ! 0; csk = s ! 1; isk = s ! 2 in
     bindio (run_server os cb fuel cd csk isk p) (\<lambda>p.
     seqio (sys os (Close csk)) (seqio (sys os (Close isk)) (seqio (sys os (Close ctl))
     (retio (BDREMOTE_OK, p))))))"

section \<open>Reading a history\<close>

text \<open>The packets received, oldest first.\<close>

fun packets :: "os \<Rightarrow> hist \<Rightarrow> byte list list" where
  "packets os [] = []"
| "packets os ((Recv s n, r) # h) = packets os h @ (if 0 < r then [recv_data os h] else [])"
| "packets os (e # h) = packets os h"

text \<open>
  The descriptor data may be read from: both channels were accepted, the control channel first, then the address
  of the peer of that very control channel was asked for, and it is that of the remote or could not be read; the
  descriptor is that of the interrupt channel. The next \<open>accept\<close> ends the permission.
\<close>

fun verified :: "os \<Rightarrow> bdaddr \<Rightarrow> int \<Rightarrow> int \<Rightarrow> hist \<Rightarrow> int option" where
  "verified os a csk isk [] = None"
| "verified os a csk isk ((Accept s, r) # h) = None"
| "verified os a csk isk ((Getpeername s, r) # h) =
     (case h of (Accept i, nisk) # (Accept c, ncsk) # _ \<Rightarrow>
        if c = csk \<and> i = isk \<and> s = ncsk \<and> (r < 0 \<or> peer_addr os h = a) then Some nisk else None
      | _ \<Rightarrow> None)"
| "verified os a csk isk (e # h) = verified os a csk isk h"

text \<open>Data was only read from such a descriptor.\<close>

fun only_remote :: "os \<Rightarrow> bdaddr \<Rightarrow> int \<Rightarrow> int \<Rightarrow> hist \<Rightarrow> bool" where
  "only_remote os a csk isk [] = True"
| "only_remote os a csk isk ((Recv s n, r) # h) =
     (verified os a csk isk h = Some s \<and> only_remote os a csk isk h)"
| "only_remote os a csk isk (e # h) = only_remote os a csk isk h"

text \<open>How often in a row a poll of one descriptor has just come back without data.\<close>

fun idle :: "int \<Rightarrow> hist \<Rightarrow> int" where
  "idle s ((Get_canceled, r) # h) = idle s h"
| "idle s ((Ppoll fds t, r) # h) = (if fds = [s] \<and> r < 1 then idle s h + 1 else 0)"
| "idle s h = 0"

lemma idle_nonneg: "0 \<le> idle s h"
  by (induction s h rule: idle.induct) auto

text \<open>Calls that none of these count.\<close>

definition neutral :: "syscall \<Rightarrow> bool" where
  "neutral c \<longleftrightarrow> (case c of Socket _ \<Rightarrow> False | Accept _ \<Rightarrow> False | Close _ \<Rightarrow> False | Recv _ _ \<Rightarrow> False
     | Getpeername _ \<Rightarrow> False | _ \<Rightarrow> True)"

lemma client_neutral: "client_call c \<Longrightarrow> neutral c"
  by (auto simp: client_call_def queue_call_def neutral_def)

lemma neutral_frame:
  assumes "grows neutral h h'"
  shows "open_socks h' = open_socks h \<and> packets os h' = packets os h \<and> verified os a csk isk h' = verified os a csk isk h \<and>
     only_remote os a csk isk h' = only_remote os a csk isk h"
proof -
  obtain t where "h' = t @ h" and "\<forall>e \<in> set t. neutral (fst e)" using assms by (auto simp: grows_def)
  then show ?thesis
  proof (induction t arbitrary: h')
    case Nil
    then show ?case by simp
  next
    case (Cons e t)
    then show ?case by (cases e; cases "fst e") (auto simp: neutral_def)
  qed
qed

lemma client_frame:
  assumes "grows client_call h h'"
  shows "open_socks h' = open_socks h \<and> packets os h' = packets os h \<and> verified os a csk isk h' = verified os a csk isk h \<and>
     only_remote os a csk isk h' = only_remote os a csk isk h"
  by (rule neutral_frame, rule grows_mono [OF assms]) (rule client_neutral)

text \<open>
  What a client has got between two points of a run: all packets received in between, in order,
  and the charge of the last one that told it.
\<close>

definition delivered ::
  "('p \<Rightarrow> queueData list) \<Rightarrow> ('p \<Rightarrow> int option) \<Rightarrow> (hist \<Rightarrow> nat) \<Rightarrow> os \<Rightarrow> 'p \<Rightarrow> hist \<Rightarrow> 'p \<Rightarrow> hist \<Rightarrow> bool" where
  "delivered chan level took os p h p' h' \<longleftrightarrow>
     (\<exists>ps n. packets os h' = packets os h @ ps \<and> took h + n \<le> took h' \<and> fed n (chan p) (map message ps) (chan p') \<and>
        level p' = foldl next_level (level p) ps)"

lemma delivered_none:
  "packets os h' = packets os h \<Longrightarrow> took h \<le> took h' \<Longrightarrow> chan p' = chan p \<Longrightarrow> level p' = level p \<Longrightarrow>
     delivered chan level took os p h p' h'"
  by (auto simp: delivered_def intro!: exI [of _ "[]"] exI [of _ 0])

lemma delivered_one:
  "packets os h' = packets os h @ [d] \<Longrightarrow> took h + n \<le> took h' \<Longrightarrow> fed n (chan p) [message d] (chan p') \<Longrightarrow>
     level p' = next_level (level p) d \<Longrightarrow> delivered chan level took os p h p' h'"
  by (auto simp: delivered_def intro!: exI [of _ "[d]"] exI [of _ n])

lemma delivered_trans:
  "delivered chan level took os p h p1 h1 \<Longrightarrow> delivered chan level took os p1 h1 p2 h2 \<Longrightarrow>
     delivered chan level took os p h p2 h2"
  unfolding delivered_def
proof (elim exE conjE)
  fix ps qs n m
  assume "packets os h1 = packets os h @ ps" "packets os h2 = packets os h1 @ qs"
    and "took h + n \<le> took h1" "took h1 + m \<le> took h2"
    and "fed n (chan p) (map message ps) (chan p1)" "fed m (chan p1) (map message qs) (chan p2)"
    and "level p1 = foldl next_level (level p) ps" "level p2 = foldl next_level (level p1) qs"
  then show "\<exists>rs k. packets os h2 = packets os h @ rs \<and> took h + k \<le> took h2 \<and>
      fed k (chan p) (map message rs) (chan p2) \<and> level p2 = foldl next_level (level p) rs"
    by (intro exI [of _ "ps @ qs"] exI [of _ "n + m"]) (auto intro: fed_trans)
qed

lemma delivered_reads:
  "delivered chan level took os p h p' h' \<Longrightarrow>
     \<exists>ps. packets os h' = packets os h @ ps \<and>
       (\<exists>n. took h + n \<le> took h' \<and> chan p' = drop n (chan p @ map message ps)) \<and>
       level p' = foldl next_level (level p) ps"
  unfolding delivered_def fed_def by (metis add_left_mono order_trans)

lemma delivered_later:
  assumes "delivered chan level took os p h q h1" and "packets os h2 = packets os h1" and "took h1 \<le> took h2"
  shows "delivered chan level took os p h q h2"
  by (rule delivered_trans [OF assms(1) delivered_none [where chan = chan]]) (use assms(2,3) in auto)

lemma wp_log_debug [wp_simps]: "cd_ok cd \<Longrightarrow> wp (log_debug cd) P E h = P () h"
  by (auto simp: log_debug_def wp_simps cd_ok_def)

lemma wp_l2cap_accept:
  assumes "posix_fds os"
  shows "wp (l2cap_accept os sk) P E h = P (ret os h (Accept sk)) ((Accept sk, ret os h (Accept sk)) # h)"
proof -
  have "-1 \<le> ret os h (Accept sk)" using assms by (simp add: posix_fds_def)
  then have "ret os h (Accept sk) < 0 \<Longrightarrow> ret os h (Accept sk) = -1" by simp
  then show ?thesis by (auto simp: l2cap_accept_def wp_simps BDREMOTE_FAIL_def)
qed

lemma wp_l2cap_checkSource:
  "wp (l2cap_checkSource os sk a) P E h =
     (let r = ret os h (Getpeername sk) in
      P (if r < 0 then -1 else if peer_addr os h = a then 1 else 0) ((Getpeername sk, r) # h))"
  by (simp add: l2cap_checkSource_def wp_simps BDREMOTE_FAIL_def Let_def)

lemma open_accept:
  "open_socks ((Accept s, fd) # h) - {#fd#} = open_socks h"
  using no_neg_sock [of h] by (simp add: diff_single_trivial)

section \<open>The capture loop and its client\<close>

context capture_client
begin

lemma packet_ok:
  assumes "inv p" and cd: "cd_ok cd" and len: "0 < len" "length dat = nat len"
  shows "wp (packet_received cb cd dat len p)
     (\<lambda>p' h'. inv p' \<and> (\<exists>n. took h + n \<le> took h' \<and> fed n (chan p) [message dat] (chan p')) \<and>
        level p' = next_level (level p) dat \<and> grows client_call h h')
     (\<lambda>e. e = Out_of_fuel \<and> stuck) h"
proof -
  have cases5: "uint (dat ! 12) \<in> {0, 1, 2, 3, 4, 5} \<longleftrightarrow> uint (dat ! 12) \<le> 5"
    using uint_ge_0 [of "dat ! 12"] by (simp, arith)
  have battery: "wp (battery_status cb cd dat len p)
      (\<lambda>p' h'. inv p' \<and> chan p' = chan p \<and> level p' = next_level (level p) dat \<and> grows client_call h h')
      (\<lambda>e. e = Out_of_fuel \<and> stuck) h"
  proof (cases "12 < length dat \<and> uint (dat ! 12) \<le> 5")
    case True
    then show ?thesis
      using len cases5 unfolding battery_status_def
      by (auto simp: wp_simps next_level_def charge_of_def intro!: wp_mono [OF charged [OF assms(1)]])
  next
    case False
    then show ?thesis
      using len cases5 assms(1) cd unfolding battery_status_def
      by (auto simp: wp_simps next_level_def charge_of_def)
  qed
  have magic: "cd_magic0 cd = 127" using cd by (simp add: cd_ok_def)
  show ?thesis
    unfolding packet_received_def wp_bindio
  proof (rule wp_mono [OF battery], goal_cases)
    case (1 p1 h1)
    then have "took h \<le> took h1" by (auto intro: took_grows)
    then have later: "took h' = took h1 + n \<Longrightarrow> fed n c xs c' \<Longrightarrow> \<exists>n. took h + n \<le> took h' \<and> fed n c xs c'"
      for h' n c xs c' by (intro exI [of _ n]) simp
    from 1 show ?case
      using cd magic
      by (auto simp: wp_simps elim: grows_trans intro!: later wp_mono [OF data [OF _ len]])
  qed
qed

text \<open>
  The read loop, from any point at which \<open>n\<close> of the last polls were idle.
\<close>

lemma read_loop_ok:
  fixes os :: os and a :: bdaddr
  assumes cd: "cd_ok cd" "timeout cd < 2 ^ 31 - 1" and recv: "posix_recv os"
  shows "inv p \<Longrightarrow> 0 \<le> n \<Longrightarrow> n \<le> timeout cd + 1 \<Longrightarrow> n \<le> idle sock h \<Longrightarrow> verified os a csk isk h = Some sock \<Longrightarrow>
     wp (read_loop os cb k cd sock n p)
       (\<lambda>(r, p') h'. inv p' \<and> delivered chan level took os p h p' h' \<and> open_socks h' = open_socks h \<and>
          (only_remote os a csk isk h \<longrightarrow> only_remote os a csk isk h') \<and> length h \<le> length h' \<and>
          (r = 0 \<and> (\<exists>c. hd h' = (Get_canceled, c) \<and> c \<noteq> 0) \<or>
           r = 1 \<and> (\<exists>x. hd h' = (Recv sock MAXBUFFERSIZE, x) \<and> x \<le> 0) \<or> r = 2 \<and> timeout cd < idle sock h'))
       (\<lambda>e. e = Out_of_fuel \<and> (stuck \<or> \<not> (cancels_after os N \<and> 0 < k \<and> N < length h + k))) h"
proof (induction k arbitrary: n p h)
  case 0
  then show ?case by (simp add: wp_simps)
next
  case (Suc k)
  let ?h1 = "(Get_canceled, ret os h Get_canceled) # h"
  let ?c = "Ppoll [sock] (Some 1)"
  let ?h2 = "(?c, ret os ?h1 ?c) # ?h1"
  let ?r = "ret os ?h2 (Recv sock MAXBUFFERSIZE)" and ?d = "recv_data os ?h2"
  let ?h3 = "(Recv sock MAXBUFFERSIZE, ?r) # ?h2"
  have cancel: "ret os h Get_canceled = 0 \<Longrightarrow> cancels_after os N \<Longrightarrow> length h < N"
    by (auto simp: cancels_after_def not_le [symmetric])
  have tmo: "0 < timeout cd" using cd(1) by (simp add: cd_ok_def)
  have again: "wp (read_loop os cb k cd sock m q)
       (\<lambda>(r, p') h'. inv p' \<and> delivered chan level took os p h p' h' \<and> open_socks h' = open_socks h \<and>
          (only_remote os a csk isk h \<longrightarrow> only_remote os a csk isk h') \<and> length h \<le> length h' \<and>
          (r = 0 \<and> (\<exists>c. hd h' = (Get_canceled, c) \<and> c \<noteq> 0) \<or>
           r = 1 \<and> (\<exists>x. hd h' = (Recv sock MAXBUFFERSIZE, x) \<and> x \<le> 0) \<or> r = 2 \<and> timeout cd < idle sock h'))
       (\<lambda>e. e = Out_of_fuel \<and> (stuck \<or> \<not> (cancels_after os N \<and> 0 < Suc k \<and> N < length h + Suc k))) h1"
    if live: "ret os h Get_canceled = 0" and m: "0 \<le> m" "m \<le> timeout cd + 1" "m \<le> idle sock h1"
      and q: "inv q" "delivered chan level took os p h q h1" "open_socks h1 = open_socks h" "verified os a csk isk h1 = Some sock"
        "only_remote os a csk isk h \<longrightarrow> only_remote os a csk isk h1" "length h < length h1" for m q h1
  proof (rule wp_mono [OF Suc.IH [OF q(1) m q(4)]], goal_cases)
    case (1 x h')
    then show ?case using q by (cases x) (auto intro: delivered_trans)
  next
    case (2 e)
    then show ?case using cancel [OF live] q(6) by auto
  qed
  have packet: "wp (packet_received cb cd ?d ?r p)
       (\<lambda>q h'. wp (read_loop os cb k cd sock 0 q)
         (\<lambda>(r, p') h'. inv p' \<and> delivered chan level took os p h p' h' \<and> open_socks h' = open_socks h \<and>
            (only_remote os a csk isk h \<longrightarrow> only_remote os a csk isk h') \<and> length h \<le> length h' \<and>
            (r = 0 \<and> (\<exists>c. hd h' = (Get_canceled, c) \<and> c \<noteq> 0) \<or>
           r = 1 \<and> (\<exists>x. hd h' = (Recv sock MAXBUFFERSIZE, x) \<and> x \<le> 0) \<or> r = 2 \<and> timeout cd < idle sock h'))
         (\<lambda>e. e = Out_of_fuel \<and> (stuck \<or> \<not> (cancels_after os N \<and> 0 < Suc k \<and> N < length h + Suc k))) h')
       (\<lambda>e. e = Out_of_fuel \<and> (stuck \<or> \<not> (cancels_after os N \<and> 0 < Suc k \<and> N < length h + Suc k))) ?h3"
    if live: "ret os h Get_canceled = 0" and pos: "0 < ?r"
  proof -
    have len: "length ?d = nat ?r"
      using recv pos unfolding posix_recv_def by (metis nat_int)
    show ?thesis
    proof (rule wp_mono [OF packet_ok [OF Suc.prems(1) cd(1) pos len]], goal_cases)
      case (1 q h')
      then have frame: "open_socks h' = open_socks ?h3" "packets os h' = packets os ?h3"
          "verified os a csk isk h' = verified os a csk isk ?h3" "only_remote os a csk isk h' = only_remote os a csk isk ?h3"
          and grown: "length ?h3 \<le> length h'"
        using client_frame [where h = ?h3 and h' = h' and os = os and a = a and csk = csk and isk = isk] by (auto dest: grows_length)
      obtain n where "took ?h3 + n \<le> took h'" and n: "fed n (chan p) [message ?d] (chan q)" using 1 by blast
      moreover have "took h \<le> took ?h3" by simp
      ultimately have "took h + n \<le> took h'" by linarith
      then have "delivered chan level took os p h q h'"
        using 1 n frame(2) pos by (intro delivered_one [where d = ?d]) auto
      then show ?case
        using 1 frame grown live tmo Suc.prems(5) idle_nonneg [of sock h'] by (intro again) auto
    qed auto
  qed
  have idle: "delivered chan level took os p h p ?h2" by (intro delivered_none) auto
  show ?case
    using Suc.prems cd tmo packet again [OF _ _ _ _ Suc.prems(1) idle, of "n + 1"]
    by (auto simp: wp_simps c_int_def intro: delivered_none)
qed

lemma readFromSocket_ok:
  assumes "cd_ok cd" "timeout cd < 2 ^ 31 - 1" "posix_recv os" "inv p" "verified os a csk isk h = Some sock"
  shows "wp (readFromSocket os cb fuel cd sock p)
       (\<lambda>(r, p') h'. inv p' \<and> delivered chan level took os p h p' h' \<and> open_socks h' = open_socks h \<and>
          (only_remote os a csk isk h \<longrightarrow> only_remote os a csk isk h') \<and> length h \<le> length h' \<and>
          (r = 0 \<and> (\<exists>c. hd h' = (Get_canceled, c) \<and> c \<noteq> 0) \<or>
           r = 1 \<and> (\<exists>x. hd h' = (Recv sock MAXBUFFERSIZE, x) \<and> x \<le> 0) \<or> r = 2 \<and> timeout cd < idle sock h'))
       (\<lambda>e. e = Out_of_fuel \<and> (stuck \<or> \<not> (cancels_after os N \<and> 0 < fuel \<and> N < length h + fuel))) h"
  using read_loop_ok [OF assms(1-4) order_refl _ idle_nonneg assms(5), where k = fuel and N = N] assms(1)
  by (simp add: readFromSocket_def cd_ok_def)

text \<open>Serving a remote gives back both channels.\<close>

lemma serve_remote_ok:
  fixes os :: os and a :: bdaddr
  assumes cd: "cd_ok cd" "timeout cd < 2 ^ 31 - 1" and os: "posix_recv os" "posix_fds os"
    and p: "inv p"
  shows "wp (serve_remote os cb fuel cd a csk isk p)
     (\<lambda>p' h'. inv p' \<and> delivered chan level took os p h p' h' \<and> open_socks h' = open_socks h \<and>
        (only_remote os a csk isk h \<longrightarrow> only_remote os a csk isk h') \<and> length h < length h')
     (\<lambda>e. e = Out_of_fuel \<and> (stuck \<or> \<not> (cancels_after os N \<and> 0 < fuel \<and> N < length h + fuel))) h"
proof -
  define ncsk where "ncsk = ret os h (Accept csk)"
  let ?h1 = "(Accept csk, ncsk) # h"
  define nisk where "nisk = ret os ?h1 (Accept isk)"
  let ?h2 = "(Accept isk, nisk) # ?h1"
  let ?h3 = "(Getpeername ncsk, ret os ?h2 (Getpeername ncsk)) # ?h2"
  have socks: "open_socks ?h3 - {#nisk#} - {#ncsk#} = open_socks h"
    using open_accept [of isk nisk ?h1] open_accept [of csk ncsk h] by simp
  have finish: "wp (seqio (sys os (Close nisk)) (seqio (sys os (Sleep 1)) (seqio (sys os (Close ncsk)) (retio q))))
      (\<lambda>p' h'. inv p' \<and> delivered chan level took os p h p' h' \<and> open_socks h' = open_socks h \<and>
        (only_remote os a csk isk h \<longrightarrow> only_remote os a csk isk h') \<and> length h < length h') E h'"
    if "inv q" "delivered chan level took os p h q h'" "open_socks h' = open_socks ?h3" "only_remote os a csk isk h \<longrightarrow> only_remote os a csk isk h'"
      "length h \<le> length h'" for q h' E
    using that socks by (auto simp: wp_simps intro: delivered_later)
  have served: "wp (remote_session os cb fuel cd nisk known p)
      (\<lambda>q h'. inv q \<and> delivered chan level took os p h q h' \<and> open_socks h' = open_socks ?h3 \<and>
        (only_remote os a csk isk h \<longrightarrow> only_remote os a csk isk h') \<and> length h \<le> length h')
      (\<lambda>e. e = Out_of_fuel \<and> (stuck \<or> \<not> (cancels_after os N \<and> 0 < fuel \<and> N < length h + fuel))) ?h3"
    if known: "known \<noteq> 0" "verified os a csk isk ?h3 = Some nisk" for known
    unfolding remote_session_def if_P [OF known(1)] wp_bindio
  proof (rule wp_mono [OF connected [OF p]], goal_cases)
    case (1 p1 h4)
    then have f4: "open_socks h4 = open_socks ?h3" "packets os h4 = packets os ?h3" "verified os a csk isk h4 = Some nisk"
        "only_remote os a csk isk h4 = only_remote os a csk isk h" "length ?h3 \<le> length h4"
      using client_frame [where h = ?h3 and h' = h4 and os = os and a = a and csk = csk and isk = isk] known(2) by (auto dest: grows_length)
    have "took h \<le> took ?h3" and "took ?h3 \<le> took h4" using 1 by (auto intro: took_grows)
    then have "took h \<le> took h4" by (rule order_trans)
    then have d4: "delivered chan level took os p h p1 h4" using 1 f4(2) by (intro delivered_none) auto
    have "inv p1" using 1 by simp
    show ?case
    proof (rule wp_mono [OF readFromSocket_ok [OF cd os(1) \<open>inv p1\<close> f4(3), where N = N]], goal_cases)
      case (1 x h5)
      note c5 = 1
      obtain st p2 where x: "x = (st, p2)" by (cases x) auto
      have "wp (cb_disconnected cb p2)
          (\<lambda>q h'. inv q \<and> delivered chan level took os p h q h' \<and> open_socks h' = open_socks ?h3 \<and>
            (only_remote os a csk isk h \<longrightarrow> only_remote os a csk isk h') \<and> length h \<le> length h')
          (\<lambda>e. e = Out_of_fuel \<and> (stuck \<or> \<not> (cancels_after os N \<and> 0 < fuel \<and> N < length h + fuel))) h5"
      proof (rule wp_mono [OF disconnected], goal_cases)
        case 1
        then show ?case using c5 x by simp
      next
        case (2 q h6)
        then have "open_socks h6 = open_socks h5" "packets os h6 = packets os h5"
            "only_remote os a csk isk h6 = only_remote os a csk isk h5" "length h5 \<le> length h6"
          using client_frame [where h = h5 and h' = h6 and os = os and a = a and csk = csk and isk = isk] by (auto dest: grows_length)
        moreover from this 2 have "delivered chan level took os p2 h5 q h6" by (intro delivered_none) (auto intro: took_grows)
        ultimately show ?case
          using 2 c5 x f4 d4 by (auto intro: delivered_trans)
      qed auto
      then show ?case using x cd(1) by (simp add: wp_simps)
    next
      case (2 e)
      then show ?case using f4(5) by auto
    qed
  qed auto
  have session: "wp (remote_session os cb fuel cd nisk
        (if ret os ?h2 (Getpeername ncsk) < 0 then -1 else if peer_addr os ?h2 = a then 1 else 0) p)
      (\<lambda>q h'. inv q \<and> delivered chan level took os p h q h' \<and> open_socks h' = open_socks ?h3 \<and>
        (only_remote os a csk isk h \<longrightarrow> only_remote os a csk isk h') \<and> length h \<le> length h')
      (\<lambda>e. e = Out_of_fuel \<and> (stuck \<or> \<not> (cancels_after os N \<and> 0 < fuel \<and> N < length h + fuel))) ?h3"
  proof (cases "verified os a csk isk ?h3 = Some nisk")
    case True
    then show ?thesis by (intro served) (auto split: if_splits)
  next
    case False
    then show ?thesis
      using p cd(1) by (auto simp: remote_session_def wp_simps intro: delivered_none)
  qed
  show ?thesis
    unfolding serve_remote_def wp_bindio wp_seqio wp_l2cap_accept [OF os(2)] wp_l2cap_checkSource
      wp_log_debug [OF cd(1)] Let_def ncsk_def [symmetric] nisk_def [symmetric]
  proof (rule wp_mono [OF session], goal_cases)
    case (1 q h')
    then show ?case using finish [of q h'] by (simp add: wp_seqio)
  qed auto
qed

lemma server_loop_ok:
  fixes os :: os and a :: bdaddr
  assumes cd: "cd_ok cd" "timeout cd < 2 ^ 31 - 1" and os: "posix_recv os" "posix_fds os"
  shows "inv p \<Longrightarrow>
     wp (server_loop os cb fuel k cd a csk isk p)
       (\<lambda>p' h'. inv p' \<and> delivered chan level took os p h p' h' \<and> open_socks h' = open_socks h \<and> (only_remote os a csk isk h \<longrightarrow> only_remote os a csk isk h'))
       (\<lambda>e. e = Out_of_fuel \<and> (stuck \<or> \<not> (cancels_after os N \<and> N < fuel \<and> 0 < k \<and> N < length h + k))) h"
proof (induction k arbitrary: p h)
  case 0
  then show ?case by (simp add: wp_simps)
next
  case (Suc k)
  let ?h1 = "(Get_canceled, ret os h Get_canceled) # h"
  let ?c = "Ppoll [csk, isk] (Some 1)"
  let ?h2 = "(?c, ret os ?h1 ?c) # ?h1"
  have cancel: "ret os h Get_canceled = 0 \<Longrightarrow> cancels_after os N \<Longrightarrow> length h < N"
    by (auto simp: cancels_after_def not_le [symmetric])
  have again: "wp (server_loop os cb fuel k cd a csk isk q)
       (\<lambda>p' h'. inv p' \<and> delivered chan level took os p h p' h' \<and> open_socks h' = open_socks h \<and> (only_remote os a csk isk h \<longrightarrow> only_remote os a csk isk h'))
       (\<lambda>e. e = Out_of_fuel \<and> (stuck \<or> \<not> (cancels_after os N \<and> N < fuel \<and> 0 < Suc k \<and> N < length h + Suc k))) h1"
    if live: "ret os h Get_canceled = 0" and q: "inv q" "delivered chan level took os p h q h1"
      "open_socks h1 = open_socks h" "only_remote os a csk isk h \<longrightarrow> only_remote os a csk isk h1" "length h < length h1" for q h1
  proof (rule wp_mono [OF Suc.IH [OF q(1)]], goal_cases)
    case (1 p' h')
    then show ?case using q by (auto intro: delivered_trans)
  next
    case (2 e)
    then show ?case using cancel [OF live] q(5) by auto
  qed
  have serve: "wp (serve_remote os cb fuel cd a csk isk p)
       (\<lambda>q h'. wp (server_loop os cb fuel k cd a csk isk q)
         (\<lambda>p' h'. inv p' \<and> delivered chan level took os p h p' h' \<and> open_socks h' = open_socks h \<and> (only_remote os a csk isk h \<longrightarrow> only_remote os a csk isk h'))
         (\<lambda>e. e = Out_of_fuel \<and> (stuck \<or> \<not> (cancels_after os N \<and> N < fuel \<and> 0 < Suc k \<and> N < length h + Suc k))) h')
       (\<lambda>e. e = Out_of_fuel \<and> (stuck \<or> \<not> (cancels_after os N \<and> N < fuel \<and> 0 < Suc k \<and> N < length h + Suc k))) ?h2"
    if live: "ret os h Get_canceled = 0"
  proof -
    from serve_remote_ok [OF cd os Suc.prems, where N = N] show ?thesis
    proof (rule wp_mono, goal_cases)
      case (1 q h')
      have "delivered chan level took os p h p ?h2" by (intro delivered_none) auto
      then have "delivered chan level took os p h q h'" using 1 by (auto intro: delivered_trans)
      then show ?case using 1 live by (intro again) auto
    qed auto
  qed
  have idle: "delivered chan level took os p h p ?h2" by (intro delivered_none) auto
  show ?case
    using Suc.prems cd(1) serve again [OF _ Suc.prems idle]
    by (auto simp: wp_simps intro: delivered_none)
qed

lemma run_server_ok:
  fixes os :: os
  assumes cd: "cd_ok cd" "timeout cd < 2 ^ 31 - 1" and os: "posix_recv os" "posix_fds os" and p: "inv p"
    and a: "a = snd (str2ba os (the (dest_address cd)))"
  shows "wp (run_server os cb fuel cd csk isk p)
     (\<lambda>p' h'. inv p' \<and> delivered chan level took os p h p' h' \<and> open_socks h' = open_socks h \<and> (only_remote os a csk isk h \<longrightarrow> only_remote os a csk isk h'))
     (\<lambda>e. e = Out_of_fuel \<and> (stuck \<or> \<not> (cancels_after os N \<and> N < fuel))) h"
proof -
  obtain dest where dest: "dest_address cd = Some dest" using cd(1) by (auto simp: cd_ok_def)
  obtain r b where ba: "str2ba os dest = (r, b)" by (cases "str2ba os dest")
  have "b = a" using a dest ba by simp
  with dest ba server_loop_ok [OF cd os p, where a = a and fuel = fuel and k = fuel and N = N] show ?thesis
    using cd(1) p
    by (auto simp: run_server_def wp_simps Let_def intro: delivered_none elim!: wp_mono)
qed

lemma captureLoop_ok:
  fixes os :: os
  assumes cd: "cd_ok cd" "timeout cd < 2 ^ 31 - 1" and os: "posix_recv os" "posix_fds os" and p: "inv p"
    and a: "a = snd (str2ba os (the (dest_address cd)))" and socks: "csk = sockets cd ! 1" "isk = sockets cd ! 2"
  shows "wp (captureLoop os cb fuel cd p)
     (\<lambda>(r, p') h'. r = BDREMOTE_OK \<and> inv p' \<and> delivered chan level took os p h p' h' \<and>
        open_socks h' = open_socks h - mset (sockets cd) \<and> (only_remote os a csk isk h \<longrightarrow> only_remote os a csk isk h'))
     (\<lambda>e. e = Out_of_fuel \<and> (stuck \<or> \<not> (cancels_after os N \<and> N < fuel))) h"
proof -
  obtain x y z where s: "sockets cd = [x, y, z]"
    using cd(1) by (auto simp: cd_ok_def length_Suc_conv numeral_3_eq_3)
  have yz: "csk = y" "isk = z" using socks s by simp_all
  have "wp (run_server os cb fuel cd csk isk p)
     (\<lambda>p' h'. inv p' \<and> delivered chan level took os p h p' h' \<and> open_socks h' = open_socks h \<and> (only_remote os a csk isk h \<longrightarrow> only_remote os a csk isk h'))
     (\<lambda>e. e = Out_of_fuel \<and> (stuck \<or> \<not> (cancels_after os N \<and> N < fuel))) h"
    by (rule run_server_ok [OF cd os p a])
  then show ?thesis
    by (auto simp: captureLoop_def wp_simps Let_def s yz add_mset_commute intro: delivered_later elim!: wp_mono)
qed

end

end
