(* ===== verification/Log.thy ===== *)
theory Log
  imports Bdrcfg
begin

text \<open>
  The log stream of \<^verbatim>\<open>src/l.c\<close>. Its state is the global \<open>printStream\<close>.
\<close>

datatype stream = Stdout | File int

definition setDefaultLog :: "stream \<Rightarrow> stream" where
  "setDefaultLog printStream = Stdout"

text \<open>\<open>fopen\<close> answers with the stream it opened, 0 standing for the null pointer.\<close>

definition setLogFile :: "os \<Rightarrow> configuration \<Rightarrow> stream \<Rightarrow> (int \<times> stream) io" where
  "setLogFile os c printStream =
     (if log_filename_set c \<noteq> 0
      then bindio (liftio (deref (log_filename c))) (\<lambda>name.
           bindio (sys os (Proc (Fopen name))) (\<lambda>f.
           if f = 0 then retio (BDREMOTE_FAIL, printStream) else retio (BDREMOTE_OK, File f)))
      else retio (BDREMOTE_OK, printStream))"

definition closeLogFile :: "os \<Rightarrow> stream \<Rightarrow> stream io" where
  "closeLogFile os printStream =
     (case printStream of
        Stdout \<Rightarrow> retio Stdout
      | File f \<Rightarrow> seqio (sys os (Proc (Fclose f))) (retio Stdout))"

text \<open>The streams a history opened and has not closed.\<close>

fun open_files :: "hist \<Rightarrow> int list" where
  "open_files [] = []"
| "open_files ((Proc (Fopen name), f) # h) = (if f = 0 then open_files h else f # open_files h)"
| "open_files ((Proc (Fclose f), r) # h) = remove1 f (open_files h)"
| "open_files (e # h) = open_files h"

text \<open>
  The log file is opened at most once and closed exactly once. From the default log,
  \<open>setLogFile\<close> either fails and opens nothing, or succeeds; then \<open>closeLogFile\<close> leaves no file
  open and the log on \<open>stdout\<close>, and closing again does nothing. It fails exactly when a log file
  was asked for and cannot be opened.
\<close>

lemma log_lifecycle:
  assumes "cfg_wf c"
  shows "wp (bindio (setLogFile os c (setDefaultLog s)) (\<lambda>(r, s1).
             bindio (closeLogFile os s1) (\<lambda>s2. bindio (closeLogFile os s2) (\<lambda>s3. retio (r, s2, s3)))))
     (\<lambda>(r, s2, s3) h'. s2 = Stdout \<and> s3 = Stdout \<and> open_files h' = open_files h \<and>
        (r = BDREMOTE_FAIL \<longleftrightarrow>
           log_filename_set c \<noteq> 0 \<and> ret os h (Proc (Fopen (the (log_filename c)))) = 0))
     (\<lambda>_. False) h"
  using assms
  by (auto simp: setLogFile_def closeLogFile_def setDefaultLog_def cfg_wf_def wp_simps
      BDREMOTE_FAIL_def BDREMOTE_OK_def)

lemma log_lifecycle_witness:
  "wp (bindio (setLogFile quiet_os full_config (setDefaultLog (File 3))) (\<lambda>(r, s1).
         bindio (closeLogFile quiet_os s1) (\<lambda>s2. bindio (closeLogFile quiet_os s2) (\<lambda>s3. retio (r, s2, s3)))))
     (\<lambda>(r, s2, s3) h'. s2 = Stdout \<and> s3 = Stdout \<and> open_files h' = [] \<and> r = BDREMOTE_FAIL)
     (\<lambda>_. False) []"
  using log_lifecycle [OF cfg_wf_full, of quiet_os "File 3" "[]"]
  by (simp add: full_config_def cfg_defs)

end
