(* ===== verification/Ug.thy ===== *)
theory Ug
  imports Globaldefs
begin

text \<open>
  Giving up the privileges of the superuser: \<open>changeUIDAndGID\<close> of \<^verbatim>\<open>src/ug.c\<close>. The user
  and group databases are answers of the system.
\<close>

definition getpwnam :: "os \<Rightarrow> string \<Rightarrow> u32 option io" where
  "getpwnam os name =
     bindio (asksio (\<lambda>h. pw_uid os h name)) (\<lambda>e. seqio (sys os (Proc (Getpwnam name))) (retio e))"

definition getgrnam :: "os \<Rightarrow> string \<Rightarrow> u32 option io" where
  "getgrnam os name =
     bindio (asksio (\<lambda>h. gr_gid os h name)) (\<lambda>e. seqio (sys os (Proc (Getgrnam name))) (retio e))"

definition changeUIDAndGID :: "os \<Rightarrow> string \<Rightarrow> string \<Rightarrow> int io" where
  "changeUIDAndGID os usr grp =
     bindio (getpwnam os usr) (\<lambda>s_passwd.
       case s_passwd of None \<Rightarrow> retio BDREMOTE_FAIL
       | Some uid \<Rightarrow>
         bindio (getgrnam os grp) (\<lambda>s_group.
           case s_group of None \<Rightarrow> retio BDREMOTE_FAIL
           | Some gid \<Rightarrow>
             bindio (sys os (Proc (Setgid gid))) (\<lambda>r1.
             bindio (sys os (Proc (Setuid uid))) (\<lambda>r2.
             retio (let result = BDREMOTE_OK;
                        result = (if r1 \<noteq> 0 then BDREMOTE_FAIL else result)
                    in (if r2 \<noteq> 0 then BDREMOTE_FAIL else result))))))"

text \<open>Calls that only read the two databases.\<close>

definition lookup_call :: "syscall \<Rightarrow> bool" where
  "lookup_call c \<longleftrightarrow> (\<exists>s. c = Proc (Getpwnam s) \<or> c = Proc (Getgrnam s))"

lemma changeUIDAndGID_ok:
  "wp (changeUIDAndGID os usr grp)
     (\<lambda>r h'.
        (r = BDREMOTE_OK \<longleftrightarrow>
          (\<exists>uid gid e1 e2. pw_uid os h usr = Some uid \<and>
             gr_gid os ((Proc (Getpwnam usr), e1) # h) grp = Some gid \<and>
             h' = (Proc (Setuid uid), 0) # (Proc (Setgid gid), 0) #
                  (Proc (Getgrnam grp), e2) # (Proc (Getpwnam usr), e1) # h)) \<and>
        (r = BDREMOTE_OK \<or> r = BDREMOTE_FAIL) \<and>
        (pw_uid os h usr = None \<or> gr_gid os ((Proc (Getpwnam usr), ret os h (Proc (Getpwnam usr))) # h) grp = None
          \<longrightarrow> r = BDREMOTE_FAIL \<and> grows lookup_call h h'))
     (\<lambda>_. False) h"
  by (auto simp: changeUIDAndGID_def getpwnam_def getgrnam_def wp_simps Let_def BDREMOTE_OK_def
      BDREMOTE_FAIL_def grows_def lookup_call_def split: option.splits)

text \<open>
  C35: Success means that both identities were changed, the group first, to those of the named user and
  group. \<open>changeUIDAndGID\<close> never stops abnormally; it returns \<open>BDREMOTE_OK\<close> exactly when the user
  and the group exist and both changes succeed, and then its calls were the two lookups, \<open>setgid\<close> and,
  last, \<open>setuid\<close>. With an unknown user or group it fails, and
  the only calls it has made are lookups: neither identity was touched.
\<close>

theorem changeUIDAndGID_spec:
  "wp (changeUIDAndGID os usr grp)
     (\<lambda>r h'.
        (r = BDREMOTE_OK \<longleftrightarrow>
          (\<exists>uid gid e1 e2. pw_uid os h usr = Some uid \<and>
             gr_gid os ((Proc (Getpwnam usr), e1) # h) grp = Some gid \<and>
             h' = (Proc (Setuid uid), 0) # (Proc (Setgid gid), 0) #
                  (Proc (Getgrnam grp), e2) # (Proc (Getpwnam usr), e1) # h)) \<and>
        (r = BDREMOTE_OK \<or> r = BDREMOTE_FAIL) \<and>
        (pw_uid os h usr = None \<or> gr_gid os ((Proc (Getpwnam usr), ret os h (Proc (Getpwnam usr))) # h) grp = None
          \<longrightarrow> r = BDREMOTE_FAIL \<and> grows lookup_call h h'))
     (\<lambda>_. False) h"
  by (rule changeUIDAndGID_ok)

theorem changeUIDAndGID_spec_witness:
  "wp (changeUIDAndGID (quiet_os\<lparr>pw_uid := (\<lambda>h u. None)\<rparr>) ''nobody'' ''nogroup'')
     (\<lambda>r h'. r = BDREMOTE_FAIL \<and> (\<forall>e \<in> set h'. lookup_call (fst e))) (\<lambda>_. False) []"
  by (rule wp_mono [OF changeUIDAndGID_spec]) (fastforce simp: grows_def)

end
