(* ===== verification/Main_App.thy ===== *)
theory Main_App
  imports Capture_Bluez Log Ug Event_Out "HOL-Library.Sublist"
begin

text \<open>
  The main program, \<^verbatim>\<open>src/bdremoteng.c\<close>: the options, and the life of the daemon from the
  first initialisation to the last release. \<open>getopt\<close> and \<open>atoi\<close> of the C library are modelled as
  POSIX and C describe them.
\<close>

section \<open>Options\<close>

text \<open>
  The option string without its leading \<open>+\<close>, which makes \<open>getopt\<close> stop at the first argument that is no
  option. An option takes an argument when a colon follows it.
\<close>

definition optstring :: string where
  "optstring = ''p:t:a:b:i:r:e:R:u:g:f:ndhlE''"

fun opt_kind :: "string \<Rightarrow> char \<Rightarrow> bool option" where
  "opt_kind [] c = None"
| "opt_kind (x # xs) c =
     (if x = c \<and> c \<noteq> CHR '':'' then Some (xs \<noteq> [] \<and> hd xs = CHR '':'') else opt_kind xs c)"

text \<open>One result of \<open>getopt\<close>: an option with its argument, or the question mark.\<close>

datatype opt_result = Opt char "string option" | Bad_option

text \<open>
  The results of \<open>getopt\<close> up to the -1, from the arguments not looked at yet and the rest of the
  group of option letters being read.
\<close>

function getopts :: "string list \<Rightarrow> string \<Rightarrow> opt_result list" where
  "getopts args (c # cs) =
     (case opt_kind optstring c of
        None \<Rightarrow> Bad_option # getopts args cs
      | Some False \<Rightarrow> Opt c None # getopts args cs
      | Some True \<Rightarrow>
          if cs \<noteq> [] then Opt c (Some cs) # getopts args []
          else case args of [] \<Rightarrow> [Bad_option] | a # as \<Rightarrow> Opt c (Some a) # getopts as [])"
| "getopts [] [] = []"
| "getopts (a # as) [] =
     (if a = [] \<or> hd a \<noteq> CHR ''-'' \<or> a = ''-'' \<or> a = ''--'' then [] else getopts as (tl a))"
  by pat_completeness auto
termination
  by (relation "measure (\<lambda>(args, cs). length cs + sum_list (map (\<lambda>a. Suc (length a)) args))")
     (auto split: list.splits)

declare getopts.simps [simp del]

definition isspace :: "char \<Rightarrow> bool" where
  "isspace c \<longleftrightarrow> c \<in> {CHR '' '', CHR 0x09, CHR 0x0A, CHR 0x0B, CHR 0x0C, CHR 0x0D}"

definition isdigit :: "char \<Rightarrow> bool" where
  "isdigit c \<longleftrightarrow> 48 \<le> (of_char c :: nat) \<and> (of_char c :: nat) \<le> 57"

fun digits_value :: "int \<Rightarrow> string \<Rightarrow> int" where
  "digits_value v [] = v"
| "digits_value v (c # cs) =
     (if isdigit c then digits_value (10 * v + int (of_char c) - 48) cs else v)"

text \<open>A number that is no \<open>int\<close> is undefined behaviour.\<close>

definition atoi :: "string \<Rightarrow> stop + int" where
  "atoi s =
     (let s = dropWhile isspace s;
          v = (case s of [] \<Rightarrow> 0
               | c # cs \<Rightarrow> if c = CHR ''-'' then - digits_value 0 cs
                          else if c = CHR ''+'' then digits_value 0 cs else digits_value 0 s)
      in if c_int v then Inr v else Inl Int_overflow)"

text \<open>The help: a letter and its text for every option, the help itself last.\<close>

definition usage_options :: "(char \<times> string) list" where
  "usage_options =
    [(CHR ''p'', '' <port>            Set port number for incoming LIRCD connections.'' @ nl),
     (CHR ''t'', '' <timeout>         Set disconnect timeout for BD remote (in seconds).'' @ nl),
     (CHR ''i'', '' <address>         BT address of interface to use.'' @ nl),
     (CHR ''a'', '' <address>         BT address of remote.'' @ nl @
      [CHR 0x09] @ ''                     For example: -a 00:19:C'' @ ''1:5A:F1:3F. '' @ nl),
     (CHR ''b'', '' <script>          Execute <script> when battery info changes.'' @ nl @
      [CHR 0x09] @ ''                     Arguments: <prev charge> <current charge>, both in percent.'' @ nl),
     (CHR ''r'', '' <rate>            Key repeat rate. Generate <rate> repeats per second.'' @ nl),
     (CHR ''e'', '' <num>             Wait <num> ms before repeating a key.'' @ nl),
     (CHR ''R'', '' <suffix>          Auto-generate release events with appended <suffix>.'' @ nl),
     (CHR ''l'', ''                   Follow LIRC namespace for the key names.'' @ nl),
     (CHR ''E'', ''                   Make output available through a Linux event device.'' @ nl),
     (CHR ''u'', '' <username>        Change UID to the UID of this user.'' @ nl),
     (CHR ''g'', '' <group>           Change GID to the GID of this group.'' @ nl),
     (CHR ''f'', '' <filename>        Write log to <filename>.'' @ nl),
     (CHR ''d'', ''                   Enable debug.'' @ nl),
     (CHR ''n'', ''                   Don'' @ [CHR 0x27] @ ''t fork daemon to background.'' @ nl),
     (CHR ''h'', '', --help           Display help.'' @ nl @ nl)]"

fun usage_line :: "char \<times> string \<Rightarrow> string" where
  "usage_line (c, text) = [CHR 0x09, CHR ''-'', c] @ text"

definition usage :: "string \<Rightarrow> string" where
  "usage version =
     ''bdremoteng - Sony BD Remote helper daemon version '' @ version @ nl @ nl @
     ''Usage:'' @ nl @ [CHR 0x09] @ ''bdremoteng [options]'' @ nl @ nl @ ''Options:'' @ nl @
     concat (map usage_line usage_options)"

text \<open>The body of the loop over the options, for one result of \<open>getopt\<close>.\<close>

definition set_int :: "string \<Rightarrow> (int \<Rightarrow> configuration) \<Rightarrow> stop + configuration" where
  "set_int s f = (case atoi s of Inl e \<Rightarrow> Inl e | Inr i \<Rightarrow> Inr (f i))"

fun apply_option :: "configuration \<Rightarrow> opt_result \<Rightarrow> stop + configuration" where
  "apply_option cfg (Opt opt (Some optarg)) =
     (if opt = CHR ''p'' then set_int optarg (\<lambda>i. cfg\<lparr>listen_port := i\<rparr>)
      else if opt = CHR ''t'' then set_int optarg (\<lambda>i. cfg\<lparr>disconnect_timeout := i\<rparr>)
      else if opt = CHR ''a'' then Inr (setRemoteAddress cfg optarg)
      else if opt = CHR ''b'' then Inr (setBatteryScript cfg optarg)
      else if opt = CHR ''i'' then Inr (setInterfaceAddress cfg optarg)
      else if opt = CHR ''r'' then set_int optarg (\<lambda>i. cfg\<lparr>repeat_rate := i\<rparr>)
      else if opt = CHR ''e'' then set_int optarg (\<lambda>i. cfg\<lparr>repeat_delay := i\<rparr>)
      else if opt = CHR ''u'' then Inr (setUser cfg optarg)
      else if opt = CHR ''g'' then Inr (setGroup cfg optarg)
      else if opt = CHR ''R'' then Inr (setRelease cfg optarg)
      else if opt = CHR ''f'' then Inr (setLogFilename cfg optarg)
      else Inl (Exited 0))"
| "apply_option cfg (Opt opt None) =
     (if opt = CHR ''d'' then Inr (cfg\<lparr>debug := 1\<rparr>)
      else if opt = CHR ''n'' then Inr (cfg\<lparr>detach := 0\<rparr>)
      else if opt = CHR ''l'' then Inr (cfg\<lparr>lirc_namespace := 1\<rparr>)
      else if opt = CHR ''E'' then Inr (cfg\<lparr>event_out := 1\<rparr>)
      else Inl (Exited 0))"
| "apply_option cfg Bad_option = Inl (Exited 0)"

fun option_loop :: "opt_result list \<Rightarrow> configuration \<Rightarrow> stop + configuration" where
  "option_loop [] cfg = Inr cfg"
| "option_loop (r # rs) cfg = bindr (apply_option cfg r) (option_loop rs)"

text \<open>The configuration after \<open>memset\<close>.\<close>

definition zero_config :: configuration where
  "zero_config = \<lparr>listen_port = 0, disconnect_timeout = 0, repeat_rate = 0, repeat_delay = 0,
     release = None, lirc_namespace = 0, event_out = 0, debug = 0, interface_addr_set = 0,
     interface_addr = None, remote_addr = None, detach = 0, user = None, group = None,
     log_filename_set = 0, log_filename = None, battery_script_set = 0, battery_script = None\<rparr>"

definition parse_options :: "string list \<Rightarrow> stop + configuration" where
  "parse_options argv = option_loop (getopts (tl argv) []) (setDefaults zero_config)"

definition globalLogMask :: u32 where
  "globalLogMask =
     or MODULEMASK_LIRC_THR (or MODULEMASK_LIRC_SOCK (or MODULEMASK_LIRC_CB (or MODULEMASK_BT_IF
     (or MODULEMASK_BT_IMPL (or MODULEMASK_QUEUE (or MODULEMASK_SPARE MODULEMASK_MAIN))))))"

text \<open>No module is silenced.\<close>

lemma globalLogMask_all:
  "list_all (BDREMOTE_MASKCHECK globalLogMask) [MODULEMASK_LIRC_THR, MODULEMASK_LIRC_SOCK, MODULEMASK_LIRC_CB,
     MODULEMASK_BT_IF, MODULEMASK_BT_IMPL, MODULEMASK_QUEUE, MODULEMASK_SPARE, MODULEMASK_MAIN]"
  by (simp add: globalLogMask_def BDREMOTE_MASKCHECK_def modulemask_defs)

section \<open>Signals and threads\<close>

text \<open>The handlers, as functions of the flag \<open>__io_canceled\<close>.\<close>

definition sig_hup :: "int \<Rightarrow> int" where
  "sig_hup io_canceled = io_canceled"

definition sig_term :: "int \<Rightarrow> int" where
  "sig_term io_canceled = 1"

definition listener :: "os \<Rightarrow> 'p callbacks \<Rightarrow> nat \<Rightarrow> captureData \<Rightarrow> 'p \<Rightarrow> (int \<times> 'p) io" where
  "listener os cb fuel cd p =
     seqio (log_debug cd)
     (bindio (captureLoop os cb fuel cd p) (\<lambda>(r, p).
      if r < 0 then seqio (log_debug cd) (retio (0, p)) else retio (0, p)))"

definition startLircThread :: "os \<Rightarrow> int io" where
  "startLircThread os = sys os (Proc (Pthread_create ''lircThread''))"

definition waitForLircThread :: "os \<Rightarrow> int io" where
  "waitForLircThread os = sys os (Proc (Pthread_join ''lircThread''))"

section \<open>The daemon\<close>

definition install_handlers :: "os \<Rightarrow> unit io" where
  "install_handlers os =
     seqio (sys os (Proc (Sigaction ''SIGTERM'')))
     (seqio (sys os (Proc (Sigaction ''SIGINT'')))
     (seqio (sys os (Proc (Sigaction ''SIGHUP'')))
     (seqio (sys os (Proc (Sigaction ''SIGCHLD'')))
     (seqio (sys os (Proc (Sigaction ''SIGPIPE''))) (retio ())))))"

text \<open>Giving up the privileges, when both a user and a group were named; true to go on.\<close>

definition change_user :: "os \<Rightarrow> configuration \<Rightarrow> bool io" where
  "change_user os cfg =
     (if userAndGroupSet cfg = 1
      then bindio (sys os (Proc Getuid)) (\<lambda>uid.
           bindio (if uid = 0 then bindio (sys os (Proc Geteuid)) (\<lambda>e. retio (e = 0)) else retio False) (\<lambda>root.
           if \<not> root then retio False
           else bindio (liftio (deref (user cfg))) (\<lambda>u.
             bindio (liftio (deref (group cfg))) (\<lambda>g.
             bindio (changeUIDAndGID os u g) (\<lambda>r. retio (r \<noteq> BDREMOTE_FAIL))))))
      else retio True)"

text \<open>From the end of the server to the end of \<open>main\<close>.\<close>

definition release_all ::
  "os \<Rightarrow> configuration \<Rightarrow> lirc_data \<Rightarrow> captureData \<Rightarrow> int \<Rightarrow> stream \<Rightarrow> int io" where
  "release_all os cfg ldata cdata event_out_fd printStream =
     seqio (sys os (Proc Pthread_kill))
     (seqio (sys os (Proc (Pthread_join ''listener'')))
     (seqio (waitForLircThread os)
     (let cdata = DestroyCaptureData cdata in
      bindio (destroyLircData ldata) (\<lambda>ldata.
      bindio (event_out_destroy os event_out_fd) (\<lambda>event_out_fd.
      let cfg = destroyConfig cfg in
      bindio (closeLogFile os printStream) (\<lambda>printStream. retio 0))))))"

text \<open>From the creation of the first thread on, with the log file open.\<close>

definition serve_and_release ::
  "os \<Rightarrow> nat \<Rightarrow> configuration \<Rightarrow> lirc_data \<Rightarrow> captureData \<Rightarrow> stream \<Rightarrow> int io" where
  "serve_and_release os fuel cfg ldata cdata printStream =
     bindio (sys os (Proc (Pthread_create ''listener''))) (\<lambda>r.
     if r \<noteq> 0 then seqio (closeLogFile os printStream) (stopio (Exited 1))
     else seqio (install_handlers os)
       (bindio (if event_out cfg \<noteq> 0 then event_out_init os else retio (-1)) (\<lambda>event_out_fd.
       seqio (startLircThread os)
       (bindio (lirc_server os fuel cfg ldata) (\<lambda>(r, ldata).
       release_all os cfg ldata cdata event_out_fd printStream)))))"

text \<open>From the detaching of the process on.\<close>

definition start_daemon :: "os \<Rightarrow> nat \<Rightarrow> configuration \<Rightarrow> lirc_data \<Rightarrow> captureData \<Rightarrow> int io" where
  "start_daemon os fuel cfg ldata cdata =
     seqio (if detach cfg = 1
            then bindio (sys os (Proc Daemon)) (\<lambda>r. if r \<noteq> 0 then stopio (Exited 1) else retio ())
            else retio ())
     (seqio (sys os (Proc (Nice (-4))))
     (bindio (InitcaptureLoop os cdata) (\<lambda>(r, cdata).
      if r = BDREMOTE_FAIL then retio BDREMOTE_FAIL
      else bindio (change_user os cfg) (\<lambda>ok.
        if \<not> ok then retio BDREMOTE_FAIL
        else bindio (setLogFile os cfg Stdout) (\<lambda>(r, printStream).
          if r = BDREMOTE_FAIL then stopio (Exited 0)
          else serve_and_release os fuel cfg ldata cdata printStream)))))"

text \<open>
  \<open>main\<close> after the options: \<open>ldata\<close> is the uninitialised struct on the stack, \<open>enable_repeat\<close> the
  build option.
\<close>

definition run_daemon :: "os \<Rightarrow> bool \<Rightarrow> nat \<Rightarrow> lirc_data \<Rightarrow> configuration \<Rightarrow> int io" where
  "run_daemon os enable_repeat fuel ldata cfg =
     seqio (if remote_addr cfg = None then stopio (Exited 0) else retio ())
     (seqio (if debug cfg = 1 then liftio (printConfig enable_repeat globalLogMask cfg) else retio [])
     (bindio (initLircData os ldata cfg) (\<lambda>ldata.
      bindio (liftio (InitCaptureData zero_capture cfg)) (\<lambda>cdata.
      start_daemon os fuel cfg ldata cdata))))"

definition main :: "os \<Rightarrow> bool \<Rightarrow> nat \<Rightarrow> lirc_data \<Rightarrow> string list \<Rightarrow> int io" where
  "main os enable_repeat fuel ldata argv =
     bindio (liftio (parse_options argv)) (run_daemon os enable_repeat fuel ldata)"

section \<open>Laws of the option parser\<close>

text \<open>A configuration as the option parser leaves it.\<close>

definition opt_config :: "configuration \<Rightarrow> bool" where
  "opt_config cfg \<longleftrightarrow> cfg_wf cfg \<and> interface_addr_set cfg \<in> {0, 1} \<and> log_filename_set cfg \<in> {0, 1} \<and>
     battery_script_set cfg \<in> {0, 1} \<and> c_int (listen_port cfg) \<and> c_int (disconnect_timeout cfg) \<and>
     c_int (repeat_rate cfg) \<and> c_int (repeat_delay cfg) \<and> debug cfg \<in> {0, 1} \<and> detach cfg \<in> {0, 1} \<and>
     lirc_namespace cfg \<in> {0, 1} \<and> event_out cfg \<in> {0, 1}"

lemma set_int_Inr: "set_int s f = Inr x \<longleftrightarrow> (\<exists>i. atoi s = Inr i \<and> x = f i)"
  by (auto simp: set_int_def split: sum.splits)

lemma atoi_c_int: "atoi s = Inr i \<Longrightarrow> c_int i"
  by (auto simp: atoi_def Let_def split: if_splits)

lemma bindr_Inr: "bindr x f = Inr y \<longleftrightarrow> (\<exists>a. x = Inr a \<and> f a = Inr y)"
  by (cases x) auto

lemma apply_option_cases:
  assumes "apply_option c r = Inr c'"
  shows "(\<exists>i. c_int i \<and> c' \<in> {c\<lparr>listen_port := i\<rparr>, c\<lparr>disconnect_timeout := i\<rparr>, c\<lparr>repeat_rate := i\<rparr>, c\<lparr>repeat_delay := i\<rparr>}) \<or>
     (\<exists>s. c' \<in> {setRemoteAddress c s, setBatteryScript c s, setInterfaceAddress c s, setUser c s, setGroup c s,
        setRelease c s, setLogFilename c s}) \<or>
     c' \<in> {c\<lparr>debug := 1\<rparr>, c\<lparr>detach := 0\<rparr>, c\<lparr>lirc_namespace := 1\<rparr>, c\<lparr>event_out := 1\<rparr>}"
proof (cases "(c, r)" rule: apply_option.cases)
  case (1 c0 opt s)
  have int: "set_int s f = Inr x \<Longrightarrow> \<exists>i. c_int i \<and> x = f i" for f x
    by (auto simp: set_int_Inr dest: atoi_c_int)
  show ?thesis
    using assms 1 by (simp split: if_splits) (blast dest: int)+
next
  case (2 c0 opt)
  then show ?thesis using assms by (simp split: if_splits)
next
  case (3 c0)
  then show ?thesis using assms by simp
qed

lemma apply_option_keeps:
  assumes "opt_config c" and "apply_option c r = Inr c'"
  shows "opt_config c'"
proof -
  have wf: "cfg_wf c" using assms(1) by (simp add: opt_config_def)
  have ints: "cfg_wf (c\<lparr>listen_port := i\<rparr>)" "cfg_wf (c\<lparr>disconnect_timeout := i\<rparr>)" "cfg_wf (c\<lparr>repeat_rate := i\<rparr>)"
    "cfg_wf (c\<lparr>repeat_delay := i\<rparr>)" "cfg_wf (c\<lparr>debug := i\<rparr>)" "cfg_wf (c\<lparr>detach := i\<rparr>)"
    "cfg_wf (c\<lparr>lirc_namespace := i\<rparr>)" "cfg_wf (c\<lparr>event_out := i\<rparr>)" for i
    using wf by (simp_all add: cfg_wf_def)
  have strings: "opt_config (setRemoteAddress c s)" "opt_config (setBatteryScript c s)"
    "opt_config (setInterfaceAddress c s)" "opt_config (setUser c s)" "opt_config (setGroup c s)"
    "opt_config (setRelease c s)" "opt_config (setLogFilename c s)" for s
    using assms(1) cfg_wf_setters [OF wf, of s] by (simp_all add: opt_config_def cfg_defs)
  show ?thesis
    using apply_option_cases [OF assms(2)] assms(1) ints
    by (elim disjE exE conjE insertE emptyE) (simp_all add: strings, simp_all add: opt_config_def)
qed

lemma option_loop_keeps: "opt_config c \<Longrightarrow> option_loop rs c = Inr c' \<Longrightarrow> opt_config c'"
  by (induction rs arbitrary: c) (auto simp: bindr_Inr intro: apply_option_keeps)

text \<open>
  What the options say: the argument of the last option with a letter, the number the last one gives, and
  whether a flag was given. \<open>d\<close> is the default.
\<close>

fun arg_step :: "char \<Rightarrow> string option \<Rightarrow> opt_result \<Rightarrow> string option" where
  "arg_step c a (Opt c' (Some s)) = (if c' = c then Some s else a)"
| "arg_step c a r = a"

fun number_step :: "char \<Rightarrow> int \<Rightarrow> opt_result \<Rightarrow> int" where
  "number_step c i (Opt c' (Some s)) =
     (if c' = c then (case atoi s of Inl e \<Rightarrow> i | Inr j \<Rightarrow> j) else i)"
| "number_step c i r = i"

definition last_arg :: "char \<Rightarrow> string option \<Rightarrow> opt_result list \<Rightarrow> string option" where
  "last_arg c d rs = foldl (arg_step c) d rs"

definition last_number :: "char \<Rightarrow> int \<Rightarrow> opt_result list \<Rightarrow> int" where
  "last_number c d rs = foldl (number_step c) d rs"

definition flag :: "char \<Rightarrow> int \<Rightarrow> int \<Rightarrow> opt_result list \<Rightarrow> int" where
  "flag c v d rs = (if Opt c None \<in> set rs then v else d)"

lemma apply_option_strings:
  "apply_option c r = Inr c' \<Longrightarrow> remote_addr c' = arg_step (CHR ''a'') (remote_addr c) r"
  "apply_option c r = Inr c' \<Longrightarrow> battery_script c' = arg_step (CHR ''b'') (battery_script c) r"
  "apply_option c r = Inr c' \<Longrightarrow> interface_addr c' = arg_step (CHR ''i'') (interface_addr c) r"
  "apply_option c r = Inr c' \<Longrightarrow> release c' = arg_step (CHR ''R'') (release c) r"
  "apply_option c r = Inr c' \<Longrightarrow> user c' = arg_step (CHR ''u'') (user c) r"
  "apply_option c r = Inr c' \<Longrightarrow> group c' = arg_step (CHR ''g'') (group c) r"
  "apply_option c r = Inr c' \<Longrightarrow> log_filename c' = arg_step (CHR ''f'') (log_filename c) r"
  by ((cases "(c, r)" rule: apply_option.cases; auto simp: set_int_Inr cfg_defs split: if_splits)+)

lemma apply_option_numbers:
  "apply_option c r = Inr c' \<Longrightarrow> listen_port c' = number_step (CHR ''p'') (listen_port c) r"
  "apply_option c r = Inr c' \<Longrightarrow> disconnect_timeout c' = number_step (CHR ''t'') (disconnect_timeout c) r"
  "apply_option c r = Inr c' \<Longrightarrow> repeat_rate c' = number_step (CHR ''r'') (repeat_rate c) r"
  "apply_option c r = Inr c' \<Longrightarrow> repeat_delay c' = number_step (CHR ''e'') (repeat_delay c) r"
  by ((cases "(c, r)" rule: apply_option.cases; auto simp: set_int_Inr cfg_defs split: if_splits)+)

lemma apply_option_flags:
  "apply_option c r = Inr c' \<Longrightarrow> debug c' = (if r = Opt (CHR ''d'') None then 1 else debug c)"
  "apply_option c r = Inr c' \<Longrightarrow> detach c' = (if r = Opt (CHR ''n'') None then 0 else detach c)"
  "apply_option c r = Inr c' \<Longrightarrow> lirc_namespace c' = (if r = Opt (CHR ''l'') None then 1 else lirc_namespace c)"
  "apply_option c r = Inr c' \<Longrightarrow> event_out c' = (if r = Opt (CHR ''E'') None then 1 else event_out c)"
  by ((cases "(c, r)" rule: apply_option.cases; auto simp: set_int_Inr cfg_defs split: if_splits)+)

text \<open>
  A member of the configuration follows all the options one by one when it follows each of them.
\<close>

lemma option_loop_member:
  assumes step: "\<And>c r c'. apply_option c r = Inr c' \<Longrightarrow> f c' = g (f c) r"
  shows "option_loop rs c = Inr c' \<Longrightarrow> f c' = foldl g (f c) rs"
proof (induction rs arbitrary: c)
  case Nil
  then show ?case by simp
next
  case (Cons r rs)
  then obtain c1 where "apply_option c r = Inr c1" and "option_loop rs c1 = Inr c'" by (auto simp: bindr_Inr)
  with Cons.IH step show ?case by simp
qed

lemma foldl_flag: "foldl (\<lambda>a r. if r = Opt c None then v else a) d rs = flag c v d rs"
  by (induction rs rule: rev_induct) (auto simp: flag_def)

lemma string_members:
  "option_loop rs c = Inr c' \<Longrightarrow> remote_addr c' = last_arg (CHR ''a'') (remote_addr c) rs"
  "option_loop rs c = Inr c' \<Longrightarrow> battery_script c' = last_arg (CHR ''b'') (battery_script c) rs"
  "option_loop rs c = Inr c' \<Longrightarrow> interface_addr c' = last_arg (CHR ''i'') (interface_addr c) rs"
  "option_loop rs c = Inr c' \<Longrightarrow> release c' = last_arg (CHR ''R'') (release c) rs"
  "option_loop rs c = Inr c' \<Longrightarrow> user c' = last_arg (CHR ''u'') (user c) rs"
  "option_loop rs c = Inr c' \<Longrightarrow> group c' = last_arg (CHR ''g'') (group c) rs"
  "option_loop rs c = Inr c' \<Longrightarrow> log_filename c' = last_arg (CHR ''f'') (log_filename c) rs"
  unfolding last_arg_def by (erule option_loop_member [rotated], erule apply_option_strings)+

lemma number_members:
  "option_loop rs c = Inr c' \<Longrightarrow> listen_port c' = last_number (CHR ''p'') (listen_port c) rs"
  "option_loop rs c = Inr c' \<Longrightarrow> disconnect_timeout c' = last_number (CHR ''t'') (disconnect_timeout c) rs"
  "option_loop rs c = Inr c' \<Longrightarrow> repeat_rate c' = last_number (CHR ''r'') (repeat_rate c) rs"
  "option_loop rs c = Inr c' \<Longrightarrow> repeat_delay c' = last_number (CHR ''e'') (repeat_delay c) rs"
  unfolding last_number_def by (erule option_loop_member [rotated], erule apply_option_numbers)+

lemma flag_members:
  "option_loop rs c = Inr c' \<Longrightarrow> debug c' = flag (CHR ''d'') 1 (debug c) rs"
  "option_loop rs c = Inr c' \<Longrightarrow> detach c' = flag (CHR ''n'') 0 (detach c) rs"
  "option_loop rs c = Inr c' \<Longrightarrow> lirc_namespace c' = flag (CHR ''l'') 1 (lirc_namespace c) rs"
  "option_loop rs c = Inr c' \<Longrightarrow> event_out c' = flag (CHR ''E'') 1 (event_out c) rs"
  unfolding foldl_flag [symmetric] by (erule option_loop_member [rotated], erule apply_option_flags)+

text \<open>The options \<open>getopt\<close> can return are those of the option string.\<close>

fun proper_option :: "opt_result \<Rightarrow> bool" where
  "proper_option (Opt c None) = (c \<in> set ''ndhlE'')"
| "proper_option (Opt c (Some s)) = (c \<in> set ''ptabireRugf'')"
| "proper_option Bad_option = False"

lemma opt_kind_optstring:
  "opt_kind optstring c =
     (if c \<in> set ''ptabireRugf'' then Some True else if c \<in> set ''ndhlE'' then Some False else None)"
proof (cases "c \<in> set optstring")
  case True
  then show ?thesis
    unfolding optstring_def list.set by (elim insertE emptyE) simp_all
next
  case False
  have "c \<notin> set xs \<Longrightarrow> opt_kind xs c = None" for xs by (induction xs) auto
  from this [OF False] have "opt_kind optstring c = None" .
  moreover from False have "c \<notin> set ''ptabireRugf''" "c \<notin> set ''ndhlE''" by (auto simp: optstring_def)
  ultimately show ?thesis by (simp only: if_False)
qed

lemma proper_kind:
  "opt_kind optstring c = Some True \<Longrightarrow> proper_option (Opt c (Some s))"
  "opt_kind optstring c = Some False \<Longrightarrow> proper_option (Opt c None)"
  unfolding opt_kind_optstring proper_option.simps by (metis option.inject option.distinct(1))+

lemma getopts_proper: "\<forall>r \<in> set (getopts args cs). r = Bad_option \<or> proper_option r"
proof (induction args cs rule: getopts.induct)
  case (1 args c cs)
  then show ?case
    by (subst getopts.simps)
       (auto simp del: proper_option.simps simp: proper_kind split: list.splits option.splits bool.splits if_splits)
qed (auto simp: getopts.simps)

text \<open>The options after which the program does not go on.\<close>

definition ends_program :: "opt_result \<Rightarrow> bool" where
  "ends_program r \<longleftrightarrow> r = Bad_option \<or> r = Opt (CHR ''h'') None"

definition no_number :: "opt_result \<Rightarrow> bool" where
  "no_number r \<longleftrightarrow> (\<exists>c s. r = Opt c (Some s) \<and> c \<in> set ''ptre'' \<and> atoi s = Inl Int_overflow)"

lemma apply_option_result:
  assumes "r = Bad_option \<or> proper_option r"
  shows "(case apply_option c r of Inl e \<Rightarrow> e = Exited 0 \<and> ends_program r \<or> e = Int_overflow \<and> no_number r
     | Inr c' \<Rightarrow> \<not> ends_program r \<and> \<not> no_number r)"
proof (cases "r = Bad_option")
  case True
  then show ?thesis by (simp add: ends_program_def)
next
  case False
  with assms have proper: "proper_option r" by simp
  have stop: "atoi s = Inl e \<Longrightarrow> e = Int_overflow" for s e by (auto simp: atoi_def Let_def split: if_splits)
  obtain l arg where r: "r = Opt l arg" using proper by (cases r) auto
  show ?thesis
  proof (cases arg)
    case None
    with proper r have "l \<in> set ''ndhlE''" by simp
    then show ?thesis
      unfolding r None list.set by (elim insertE emptyE) (simp_all add: ends_program_def no_number_def)
  next
    case (Some s)
    with proper r have "l \<in> set ''ptabireRugf''" by simp
    then show ?thesis
      unfolding r Some list.set using stop [of s]
      by (elim insertE emptyE; cases "atoi s") (simp_all add: ends_program_def no_number_def set_int_def)
  qed
qed

lemma option_loop_result:
  "\<forall>r \<in> set rs. r = Bad_option \<or> proper_option r \<Longrightarrow>
     (case option_loop rs c of
        Inl e \<Rightarrow> e = Exited 0 \<and> (\<exists>r \<in> set rs. ends_program r) \<or> e = Int_overflow \<and> (\<exists>r \<in> set rs. no_number r)
      | Inr c' \<Rightarrow> \<forall>r \<in> set rs. \<not> ends_program r \<and> \<not> no_number r)"
proof (induction rs arbitrary: c)
  case Nil
  then show ?case by simp
next
  case (Cons r rs)
  then have r: "r = Bad_option \<or> proper_option r" by simp
  show ?case
  proof (cases "apply_option c r")
    case (Inl e)
    with apply_option_result [OF r, of c] show ?thesis by auto
  next
    case (Inr c1)
    with apply_option_result [OF r, of c] have "\<not> ends_program r" "\<not> no_number r" by simp_all
    with Inr Cons.IH [of c1] Cons.prems show ?thesis by (cases "option_loop rs c1") auto
  qed
qed

lemma option_stops: "option_loop rs c = Inl e \<Longrightarrow> e = Exited 0 \<or> e = Int_overflow"
proof (induction rs arbitrary: c)
  case Nil
  then show ?case by simp
next
  case (Cons r rs)
  have "apply_option c r = Inl e' \<Longrightarrow> e' = Exited 0 \<or> e' = Int_overflow" for e'
    by (cases "(c, r)" rule: apply_option.cases)
       (auto simp: set_int_def atoi_def Let_def split: if_splits sum.splits)
  with Cons show ?case by (cases "apply_option c r") auto
qed

lemma opt_config_start: "opt_config (setDefaults zero_config)"
  by (simp add: opt_config_def cfg_wf_setDefaults) (simp add: cfg_defs c_int_def)

section \<open>A configuration as a command line\<close>

text \<open>\<open>atoi\<close> reads back every \<open>int\<close> printed in decimal.\<close>

lemma digit_read:
  assumes "d < 10"
  shows "isdigit (digit_char d)" and "int (of_char (digit_char d)) = 48 + int d"
proof -
  have "d \<in> set [0..<10]" using assms by simp
  then have "isdigit (digit_char d) \<and> int (of_char (digit_char d)) = 48 + int d"
    by (simp add: upt_rec) (auto simp: digit_char_def isdigit_def)
  then show "isdigit (digit_char d)" "int (of_char (digit_char d)) = 48 + int d" by simp_all
qed

lemma digits_value_snoc:
  "list_all isdigit s \<Longrightarrow> isdigit c \<Longrightarrow>
     digits_value v (s @ [c]) = 10 * digits_value v s + int (of_char c) - 48"
  by (induction s arbitrary: v) simp_all

lemma digits_read: "list_all isdigit (base_digits 10 n) \<and> digits_value 0 (base_digits 10 n) = int n"
proof (induction n rule: less_induct)
  case (less n)
  show ?case
  proof (cases "n < 10")
    case True
    then show ?thesis by (simp add: base_digits_small digit_read)
  next
    case False
    then have "n div 10 < n" by simp
    have "10 * int (n div 10) + int (n mod 10) = int n" by (simp add: zdiv_int zmod_int)
    with less.IH [OF \<open>n div 10 < n\<close>] False show ?thesis
      by (simp add: base_digits_big digit_read digits_value_snoc)
  qed
qed

lemma base_digits_Cons: "\<exists>c cs. base_digits b n = c # cs"
  by (cases "base_digits b n") (auto simp: base_digits.simps [of b n] split: if_splits)

lemma atoi_fmt_dec:
  assumes "c_int i"
  shows "atoi (fmt_dec 0 i) = Inr i"
proof -
  have space: "\<not> isspace c" and sign: "c \<noteq> CHR ''-''" "c \<noteq> CHR ''+''" if "isdigit c" for c
    using that by (auto simp: isdigit_def isspace_def)
  have pad: "pad0 0 s = s" for s by (simp add: pad0_def)
  show ?thesis
  proof (cases "i < 0")
    case True
    then show ?thesis
      using assms digits_read [of "nat (- i)"] by (simp add: atoi_def fmt_dec_def pad isspace_def)
  next
    case False
    obtain c cs where cs: "base_digits 10 (nat i) = c # cs" using base_digits_Cons by blast
    with digits_read [of "nat i"] have "isdigit c" and "digits_value 0 (c # cs) = i" using False by auto
    with False cs assms space sign show ?thesis by (simp add: atoi_def fmt_dec_def pad del: digits_value.simps)
  qed
qed

text \<open>
  Writing options down: each with its letter, and its argument behind it or, when \<open>glued\<close> and not empty,
  in the same word.
\<close>

fun render :: "bool \<Rightarrow> opt_result \<Rightarrow> string list" where
  "render glued (Opt c None) = [[CHR ''-'', c]]"
| "render glued (Opt c (Some s)) =
     (if glued \<and> s \<noteq> [] then [CHR ''-'' # c # s] else [[CHR ''-'', c], s])"
| "render glued Bad_option = []"

lemma getopts_render:
  assumes "proper_option r"
  shows "getopts (render glued r @ rest) [] = r # getopts rest []"
proof -
  obtain c arg where r: "r = Opt c arg" and kind: "opt_kind optstring c = Some (arg \<noteq> None)" and "c \<noteq> CHR ''-''"
    using assms by (cases r rule: proper_option.cases) (auto simp: opt_kind_optstring)
  with r kind show ?thesis
    by (cases arg) (auto simp: getopts.simps)
qed

lemma getopts_render_all:
  assumes "\<forall>r \<in> set rs. proper_option r" and "rest = [] \<or> hd rest = [] \<or> hd (hd rest) \<noteq> CHR ''-''"
  shows "getopts (concat (map (render glued) rs) @ rest) [] = rs"
  using assms(1)
proof (induction rs)
  case Nil
  then show ?case using assms(2) by (cases rest) (auto simp: getopts.simps)
qed (simp add: getopts_render)

text \<open>The options that say everything a configuration holds, with the letters of the help.\<close>

definition string_option :: "char \<Rightarrow> string option \<Rightarrow> opt_result list" where
  "string_option c s = (if s = None then [] else [Opt c s])"

definition flag_option :: "char \<Rightarrow> bool \<Rightarrow> opt_result list" where
  "flag_option c b = (if b then [Opt c None] else [])"

definition config_options :: "configuration \<Rightarrow> opt_result list" where
  "config_options cfg =
     [Opt (CHR ''p'') (Some (fmt_dec 0 (listen_port cfg))), Opt (CHR ''t'') (Some (fmt_dec 0 (disconnect_timeout cfg))),
      Opt (CHR ''r'') (Some (fmt_dec 0 (repeat_rate cfg))), Opt (CHR ''e'') (Some (fmt_dec 0 (repeat_delay cfg)))] @
     string_option (CHR ''R'') (release cfg) @ string_option (CHR ''i'') (interface_addr cfg) @
     string_option (CHR ''a'') (remote_addr cfg) @ string_option (CHR ''u'') (user cfg) @
     string_option (CHR ''g'') (group cfg) @ string_option (CHR ''f'') (log_filename cfg) @
     string_option (CHR ''b'') (battery_script cfg) @
     flag_option (CHR ''l'') (lirc_namespace cfg = 1) @ flag_option (CHR ''E'') (event_out cfg = 1) @
     flag_option (CHR ''d'') (debug cfg = 1) @ flag_option (CHR ''n'') (detach cfg = 0)"

definition command_line :: "bool \<Rightarrow> configuration \<Rightarrow> string list" where
  "command_line glued cfg = concat (map (render glued) (config_options cfg))"

lemma proper_pieces:
  "c \<in> set ''ptabireRugf'' \<Longrightarrow> \<forall>r \<in> set (string_option c s). proper_option r"
  "c \<in> set ''ndhlE'' \<Longrightarrow> \<forall>r \<in> set (flag_option c b). proper_option r"
  by (cases s) (auto simp: string_option_def flag_option_def)

lemma config_options_proper: "\<forall>r \<in> set (config_options cfg). proper_option r"
  unfolding config_options_def set_append ball_Un
  by (intro conjI proper_pieces) simp_all

lemma option_loop_append: "option_loop (rs @ ss) c = bindr (option_loop rs c) (option_loop ss)"
proof (induction rs arbitrary: c)
  case (Cons r rs)
  then show ?case by (cases "apply_option c r") simp_all
qed simp

lemma option_loop_string:
  "release c = None \<Longrightarrow> option_loop (string_option (CHR ''R'') s) c = Inr (c\<lparr>release := s\<rparr>)"
  "remote_addr c = None \<Longrightarrow> option_loop (string_option (CHR ''a'') s) c = Inr (c\<lparr>remote_addr := s\<rparr>)"
  "user c = None \<Longrightarrow> option_loop (string_option (CHR ''u'') s) c = Inr (c\<lparr>user := s\<rparr>)"
  "group c = None \<Longrightarrow> option_loop (string_option (CHR ''g'') s) c = Inr (c\<lparr>group := s\<rparr>)"
  "interface_addr c = None \<Longrightarrow> interface_addr_set c = 0 \<Longrightarrow> option_loop (string_option (CHR ''i'') s) c =
     Inr (c\<lparr>interface_addr := s, interface_addr_set := if s = None then 0 else 1\<rparr>)"
  "log_filename c = None \<Longrightarrow> log_filename_set c = 0 \<Longrightarrow> option_loop (string_option (CHR ''f'') s) c =
     Inr (c\<lparr>log_filename := s, log_filename_set := if s = None then 0 else 1\<rparr>)"
  "battery_script c = None \<Longrightarrow> battery_script_set c = 0 \<Longrightarrow> option_loop (string_option (CHR ''b'') s) c =
     Inr (c\<lparr>battery_script := s, battery_script_set := if s = None then 0 else 1\<rparr>)"
  by (cases c; auto simp: string_option_def cfg_defs)+

lemma option_loop_flag:
  "lirc_namespace c = 0 \<Longrightarrow> option_loop (flag_option (CHR ''l'') b) c = Inr (c\<lparr>lirc_namespace := if b then 1 else 0\<rparr>)"
  "event_out c = 0 \<Longrightarrow> option_loop (flag_option (CHR ''E'') b) c = Inr (c\<lparr>event_out := if b then 1 else 0\<rparr>)"
  "debug c = 0 \<Longrightarrow> option_loop (flag_option (CHR ''d'') b) c = Inr (c\<lparr>debug := if b then 1 else 0\<rparr>)"
  "detach c = 1 \<Longrightarrow> option_loop (flag_option (CHR ''n'') b) c = Inr (c\<lparr>detach := if b then 0 else 1\<rparr>)"
  by (cases c; auto simp: flag_option_def)+

lemma config_options_read:
  assumes cfg: "opt_config cfg"
  shows "option_loop (config_options cfg) (setDefaults zero_config) = Inr cfg"
proof -
  have ints: "atoi (fmt_dec 0 (listen_port cfg)) = Inr (listen_port cfg)"
      "atoi (fmt_dec 0 (disconnect_timeout cfg)) = Inr (disconnect_timeout cfg)"
      "atoi (fmt_dec 0 (repeat_rate cfg)) = Inr (repeat_rate cfg)"
      "atoi (fmt_dec 0 (repeat_delay cfg)) = Inr (repeat_delay cfg)"
    using cfg by (simp_all add: opt_config_def atoi_fmt_dec)
  have sets: "(if interface_addr cfg = None then 0 else 1) = interface_addr_set cfg"
      "(if log_filename cfg = None then 0 else 1) = log_filename_set cfg"
      "(if battery_script cfg = None then 0 else 1) = battery_script_set cfg"
      "(if lirc_namespace cfg = 1 then 1 else 0) = lirc_namespace cfg"
      "(if event_out cfg = 1 then 1 else 0) = event_out cfg" "(if debug cfg = 1 then 1 else 0) = debug cfg"
      "(if detach cfg = 0 then 0 else 1) = detach cfg"
    using cfg by (auto simp: opt_config_def cfg_wf_def)
  show ?thesis
    by (simp add: config_options_def option_loop_append set_int_def ints sets option_loop_string option_loop_flag
        cfg_defs zero_config_def)
qed

section \<open>Properties\<close>

text \<open>
  C31: A configuration survives being written as a command line. Take any configuration whose numbers are
  \<open>int\<close>s, whose flags are 0 or 1 and whose optional strings are marked as set exactly when they are. Write the numbers
  in decimal after \<open>-p\<close>, \<open>-t\<close>, \<open>-r\<close> and \<open>-e\<close>, the strings it has after \<open>-R\<close>, \<open>-i\<close>, \<open>-a\<close>,
  \<open>-u\<close>, \<open>-g\<close>, \<open>-f\<close> and \<open>-b\<close>, each argument as the next word or glued to its letter, and the flags as
  \<open>-l\<close>, \<open>-E\<close>, \<open>-d\<close> and \<open>-n\<close>, followed by nothing or by a word that is no option. The option loop of \<open>main\<close>
  makes exactly this configuration of it. So every such configuration can be had, with any
  port, timeout, rate and delay.
\<close>

theorem options_roundtrip:
  assumes "opt_config cfg" and "rest = [] \<or> hd rest = [] \<or> hd (hd rest) \<noteq> CHR ''-''"
  shows "parse_options (program # command_line glued cfg @ rest) = Inr cfg"
  using getopts_render_all [OF config_options_proper assms(2)] config_options_read [OF assms(1)]
  by (simp add: parse_options_def command_line_def)

lemma opt_config_full: "opt_config full_config"
  by (simp add: opt_config_def cfg_wf_full) (simp add: full_config_def cfg_defs c_int_def)

theorem options_roundtrip_witness:
  "parse_options ([''bdremoteng'', ''-p8888'', ''-t60'', ''-r10'', ''-e200'', ''-R_UP'', ''-i00:11:22:33:44:55'',
     ''-a00:19:AA:5A:F1:3F'', ''-unobody'', ''-gnogroup'', ''-f/tmp/log'', ''-b/bin/true'', ''file'']) = Inr full_config"
proof -
  have "command_line True full_config = [''-p8888'', ''-t60'', ''-r10'', ''-e200'', ''-R_UP'', ''-i00:11:22:33:44:55'',
     ''-a00:19:AA:5A:F1:3F'', ''-unobody'', ''-gnogroup'', ''-f/tmp/log'', ''-b/bin/true'']"
    by (simp add: command_line_def config_options_def string_option_def flag_option_def full_config_def cfg_defs
        fmt_dec_def pad0_def base_digits_small base_digits_big digit_char_def)
  with options_roundtrip [OF opt_config_full, of "[''file'']" "''bdremoteng''" True] show ?thesis by simp
qed

text \<open>
  C32: What the option parser accepts, and what it makes of it. It ends the program with status 0 only for \<open>-h\<close> or for
  something that \<open>getopt\<close> rejects, and an argument of \<open>-p\<close>, \<open>-t\<close>, \<open>-r\<close> or \<open>-e\<close> that is no
  \<open>int\<close> is undefined; nothing else stops it, so any port, timeout, rate or delay is accepted. Without those it
  ends with the configuration in which every string is the argument of the last option for it, every number what
  \<open>atoi\<close> reads from the last one, a string counts as set exactly when it was given, and every flag is set exactly
  when its letter was given; what was not given has its default.
\<close>

theorem parse_options_spec:
  fixes argv :: "string list"
  defines "rs \<equiv> getopts (tl argv) []"
  shows "(case parse_options argv of
      Inl e \<Rightarrow> e = Exited 0 \<and> (Bad_option \<in> set rs \<or> Opt (CHR ''h'') None \<in> set rs) \<or>
        e = Int_overflow \<and> (\<exists>c s. Opt c (Some s) \<in> set rs \<and> c \<in> set ''ptre'' \<and> atoi s = Inl Int_overflow)
    | Inr cfg \<Rightarrow> Bad_option \<notin> set rs \<and> Opt (CHR ''h'') None \<notin> set rs \<and> opt_config cfg \<and>
        listen_port cfg = last_number (CHR ''p'') 8888 rs \<and> disconnect_timeout cfg = last_number (CHR ''t'') 60 rs \<and>
        repeat_rate cfg = last_number (CHR ''r'') 10 rs \<and> repeat_delay cfg = last_number (CHR ''e'') 200 rs \<and>
        remote_addr cfg = last_arg (CHR ''a'') None rs \<and> interface_addr cfg = last_arg (CHR ''i'') None rs \<and>
        release cfg = last_arg (CHR ''R'') None rs \<and> user cfg = last_arg (CHR ''u'') None rs \<and>
        group cfg = last_arg (CHR ''g'') None rs \<and> log_filename cfg = last_arg (CHR ''f'') None rs \<and>
        battery_script cfg = last_arg (CHR ''b'') None rs \<and> debug cfg = flag (CHR ''d'') 1 0 rs \<and>
        detach cfg = flag (CHR ''n'') 0 1 rs \<and> lirc_namespace cfg = flag (CHR ''l'') 1 0 rs \<and>
        event_out cfg = flag (CHR ''E'') 1 0 rs)"
proof -
  have rs: "\<forall>r \<in> set rs. r = Bad_option \<or> proper_option r" unfolding rs_def by (rule getopts_proper)
  have parse: "parse_options argv = option_loop rs (setDefaults zero_config)"
    by (simp add: parse_options_def rs_def)
  show ?thesis
  proof (cases "parse_options argv")
    case (Inl e)
    with option_loop_result [OF rs, of "setDefaults zero_config"] show ?thesis
      by (auto simp: parse ends_program_def no_number_def)
  next
    case (Inr cfg)
    then have run: "option_loop rs (setDefaults zero_config) = Inr cfg" by (simp add: parse)
    have d: "listen_port (setDefaults zero_config) = 8888" "disconnect_timeout (setDefaults zero_config) = 60"
        "repeat_rate (setDefaults zero_config) = 10" "repeat_delay (setDefaults zero_config) = 200"
        "remote_addr (setDefaults zero_config) = None" "interface_addr (setDefaults zero_config) = None"
        "release (setDefaults zero_config) = None" "user (setDefaults zero_config) = None"
        "group (setDefaults zero_config) = None" "log_filename (setDefaults zero_config) = None"
        "battery_script (setDefaults zero_config) = None" "debug (setDefaults zero_config) = 0"
        "detach (setDefaults zero_config) = 1" "lirc_namespace (setDefaults zero_config) = 0"
        "event_out (setDefaults zero_config) = 0"
      by (simp_all add: cfg_defs)
    from option_loop_result [OF rs, of "setDefaults zero_config"] option_loop_keeps [OF opt_config_start run] show ?thesis
      unfolding Inr run sum.case
      by (simp add: string_members [OF run] number_members [OF run] flag_members [OF run] d)
         (auto simp: ends_program_def)
  qed
qed

text \<open>
  The help tells every option. The letters it explains are those of the option string, each on a line
  of its own; but the \<open>--help\<close> it announces is no option to \<open>getopt\<close>, which reports an
  unknown letter, and the program exits without a word of help.
\<close>

lemma usage_documents_options:
  "(opt_kind optstring c \<noteq> None \<longleftrightarrow>
      (\<exists>text. (c, text) \<in> set usage_options \<and> sublist (usage_line (c, text)) (usage v))) \<and>
   hd (getopts (''--help'' # as) []) = Bad_option"
proof -
  have kind: "opt_kind xs c \<noteq> None \<longleftrightarrow> c \<in> set xs \<and> c \<noteq> CHR '':''" for xs
    by (induction xs) auto
  have fst_image: "(\<exists>t. (c, t) \<in> A) \<longleftrightarrow> c \<in> fst ` A" for A :: "(char \<times> string) set" by force
  have letters: "set optstring - {CHR '':''} = fst ` set usage_options"
    unfolding optstring_def usage_options_def by auto
  have line: "sublist (usage_line (c, t)) (usage v)" if mem: "(c, t) \<in> set usage_options" for t
  proof -
    obtain xs ys where split: "usage_options = xs @ (c, t) # ys" using split_list [OF mem] by blast
    have "usage v = (''bdremoteng - Sony BD Remote helper daemon version '' @ v @ nl @ nl @
        ''Usage:'' @ nl @ [CHR 0x09] @ ''bdremoteng [options]'' @ nl @ nl @ ''Options:'' @ nl @
        concat (map usage_line xs)) @ usage_line (c, t) @ concat (map usage_line ys)"
      unfolding usage_def split by simp
    then show ?thesis by (metis sublist_appendI)
  qed
  have "c \<in> set optstring \<and> c \<noteq> CHR '':'' \<longleftrightarrow> (\<exists>text. (c, text) \<in> set usage_options)"
    unfolding fst_image letters [symmetric] by blast
  moreover have "hd (getopts (''--help'' # as) []) = Bad_option"
    by (simp add: getopts.simps opt_kind_optstring)
  ultimately show ?thesis using kind line by blast
qed

end
