(* ===== verification/Capture_Props.thy ===== *)
theory Capture_Props
  imports Capture_Bluez
begin

text \<open>
  What the bluetooth capture promises: the laws of opening the channels, and the properties of
  \<open>InitcaptureLoop\<close>, \<open>captureLoop\<close> and the functions they are made of, with the LIRC callbacks
  as the client.
\<close>

section \<open>Opening the channels\<close>

text \<open>A channel is bound to the interface on a port and listens.\<close>

definition listens :: "hist \<Rightarrow> int \<Rightarrow> bdaddr \<Rightarrow> u16 \<Rightarrow> bool" where
  "listens h sk a psm \<longleftrightarrow> (\<exists>b l. 0 \<le> b \<and> 0 \<le> l \<and> (Bind_l2cap sk a psm, b) \<in> set h \<and> (Listen sk 10, l) \<in> set h)"

lemma listens_mono: "listens h sk a psm \<Longrightarrow> set h \<subseteq> set h' \<Longrightarrow> listens h' sk a psm"
  unfolding listens_def by blast

lemma l2cap_listen_ok:
  assumes "posix_fds os"
  shows "wp (l2cap_listen os a psm lm 10)
     (\<lambda>sk h'. set h \<subseteq> set h' \<and>
        (if sk < 0 then open_socks h' = open_socks h
         else open_socks h' = add_mset sk (open_socks h) \<and> listens h' sk a psm))
     (\<lambda>_. False) h"
proof -
  define sk where "sk = ret os h (Socket Bt_l2cap)"
  have "-1 \<le> sk" using assms by (simp add: posix_fds_def sk_def)
  then have "sk < 0 \<Longrightarrow> sk = -1" by simp
  then show ?thesis
    by (auto simp: l2cap_listen_def wp_simps BDREMOTE_FAIL_def listens_def not_less simp flip: sk_def)
qed

lemma device_addr_ok: "wp (device_addr os d di) (\<lambda>_ h'. grows neutral h h') (\<lambda>_. False) h"
  by (auto simp: device_addr_def wp_simps grows_def neutral_def)

lemma find_device_ok: "wp (find_device os ctl ds a) (\<lambda>_ h'. grows neutral h h') (\<lambda>_. False) h"
proof (induction ds arbitrary: h)
  case Nil
  then show ?case by (simp add: wp_simps)
next
  case (Cons d ds)
  have info: "grows neutral h ((Hci (Hci_get_dev_info ctl d), r) # h)" for r h
    by (rule grows_Cons) (simp_all add: neutral_def)
  show ?case
    by (auto simp: wp_simps info
        intro!: wp_mono [OF Cons.IH] wp_mono [OF device_addr_ok] elim!: grows_trans [OF info] grows_trans [OF grows_trans [OF info]])
qed

text \<open>
  Looking for the interface: the control socket is closed again, except when there is no memory for
  the list of interfaces or the list cannot be read.
\<close>

lemma bt_device_exists_ok:
  assumes "posix_fds os"
  shows "wp (bt_device_exists os a)
     (\<lambda>r h'. (r = BDREMOTE_OK \<or> r = BDREMOTE_FAIL) \<and>
        (open_socks h' = open_socks h \<or>
         r = BDREMOTE_FAIL \<and> (\<exists>ctl. open_socks h' = add_mset ctl (open_socks h) \<and>
           (hd h' = (Proc (Malloc 130), 0) \<or> (\<exists>e < 0. hd h' = (Hci (Hci_get_dev_list ctl), e))))))
     (\<lambda>e. e = Exited 1 \<and> (\<exists>h. ret os h (Socket Bt_hci) < 0)) h"
proof -
  define ctl where "ctl = ret os h (Socket Bt_hci)"
  have no_ctl: "ctl < 0 \<Longrightarrow> \<exists>h. ret os h (Socket Bt_hci) < 0" by (auto simp: ctl_def)
  have find: "wp (find_device os ctl ds a)
      (\<lambda>_ h'. open_socks h' = open_socks h1) (\<lambda>_. False) h1" for ds h1
    by (rule wp_mono [OF find_device_ok]) (auto dest: neutral_frame)
  let ?h1 = "(Socket Bt_hci, ctl) # h"
  define m where "m = ret os ?h1 (Proc (Malloc 130))"
  let ?h2 = "(Proc (Malloc 130), m) # ?h1"
  define l where "l = ret os ?h2 (Hci (Hci_get_dev_list ctl))"
  let ?h3 = "(Hci (Hci_get_dev_list ctl), l) # ?h2"
  have run: "wp (bt_device_exists os a) P E h =
      (if ctl < 0 then E (Exited 1) else if m = 0 then P BDREMOTE_FAIL ?h2 else if l < 0 then P BDREMOTE_FAIL ?h3
       else wp (find_device os ctl (dev_list os ?h2) a) (\<lambda>found h'.
         P (if found then BDREMOTE_OK else BDREMOTE_FAIL) ((Close ctl, ret os h' (Close ctl)) # h')) E ?h3)" for P E
    by (simp add: bt_device_exists_def wp_simps flip: ctl_def m_def l_def)
  have opened: "0 \<le> ctl \<Longrightarrow> open_socks ?h1 = add_mset ctl (open_socks h)" by auto
  show ?thesis
  proof (cases "ctl < 0 \<or> m = 0 \<or> l < 0")
    case True
    then show ?thesis
      using opened no_ctl by (cases "ctl < 0"; cases "m = 0") (simp_all add: run)
  next
    case False
    then have found: "wp (find_device os ctl ds a)
        (\<lambda>_ h'. open_socks h' = add_mset ctl (open_socks h)) (\<lambda>_. False) ?h3" for ds
      by (intro wp_mono [OF find]) (use opened in auto)
    show ?thesis
      using False by (auto simp: run intro!: wp_mono [OF found])
  qed
qed

lemma open_channels_ok:
  assumes "posix_fds os" and "length (sockets cd) = 3"
  shows "wp (open_channels os cd a)
     (\<lambda>(r, cd') h'. (if r = BDREMOTE_OK
        then open_socks h' = open_socks h + mset (sockets cd') \<and>
          listens h' (sockets cd' ! 1) a L2CAP_PSM_HIDP_CTRL \<and> listens h' (sockets cd' ! 2) a L2CAP_PSM_HIDP_INTR
        else r = BDREMOTE_FAIL \<and> open_socks h' = open_socks h \<and> cd' = cd) \<and>
        (\<exists>s. cd' = cd\<lparr>sockets := s\<rparr> \<and> length s = 3))
     (\<lambda>_. False) h" (is "wp _ ?post _ _")
proof -
  have same: "\<exists>s. cd = cd\<lparr>sockets := s\<rparr> \<and> length s = 3"
    by (rule exI [of _ "sockets cd"]) (simp add: assms(2))
  have new: "\<exists>s. cd\<lparr>sockets := [x, y, z]\<rparr> = cd\<lparr>sockets := s\<rparr> \<and> length s = 3" for x y z
    by (rule exI [of _ "[x, y, z]"]) simp
  define ctl where "ctl = ret os h (Socket Bt_hidp)"
  let ?h1 = "(Socket Bt_hidp, ctl) # h"
  have "-1 \<le> ctl" using assms by (simp add: posix_fds_def ctl_def)
  then have ctl: "ctl < 0 \<Longrightarrow> ctl = -1" by simp
  have intr: "wp (l2cap_listen os a L2CAP_PSM_HIDP_INTR 0 10)
      (\<lambda>isk h'. if isk < 0 then open_socks h' = open_socks h2
         else open_socks h' = add_mset isk (open_socks h2) \<and> listens h' isk a L2CAP_PSM_HIDP_INTR \<and>
           listens h' csk a L2CAP_PSM_HIDP_CTRL)
      (\<lambda>_. False) h2" if "listens h2 csk a L2CAP_PSM_HIDP_CTRL" for csk h2
    by (rule wp_mono [OF l2cap_listen_ok [OF assms(1)]]) (auto intro: listens_mono [OF that])
  show ?thesis
  proof (cases "ctl < 0")
    case True
    then show ?thesis
      using ctl same by (simp add: open_channels_def wp_simps Let_def BDREMOTE_OK_def BDREMOTE_FAIL_def flip: ctl_def)
  next
    case False
    have "wp (l2cap_listen os a L2CAP_PSM_HIDP_CTRL 0 10)
      (\<lambda>csk h2. if csk < 0 then open_socks h2 = add_mset ctl (open_socks h)
         else open_socks h2 = add_mset csk (add_mset ctl (open_socks h)) \<and> listens h2 csk a L2CAP_PSM_HIDP_CTRL)
      (\<lambda>_. False) ?h1"
      by (rule wp_mono [OF l2cap_listen_ok [OF assms(1)]]) (use False in auto)
    then have "wp (l2cap_listen os a L2CAP_PSM_HIDP_CTRL 0 10)
       (\<lambda>csk. wp (if csk < 0 then seqio (sys os (Close ctl)) (retio (BDREMOTE_FAIL, cd))
          else bindio (l2cap_listen os a L2CAP_PSM_HIDP_INTR 0 10) (\<lambda>isk.
            if isk < 0 then seqio (sys os (Close ctl)) (seqio (sys os (Close csk)) (retio (BDREMOTE_FAIL, cd)))
            else retio (BDREMOTE_OK, cd\<lparr>sockets := [ctl, csk, isk]\<rparr>))) ?post (\<lambda>_. False))
       (\<lambda>_. False) ?h1"
    proof (rule wp_mono, goal_cases)
      case (1 csk h2)
      show ?case
      proof (cases "csk < 0")
        case True
        with 1 same show ?thesis by (simp add: wp_simps BDREMOTE_OK_def BDREMOTE_FAIL_def)
      next
        case csk: False
        with 1 have open2: "open_socks h2 = add_mset csk (add_mset ctl (open_socks h))"
          and lis: "listens h2 csk a L2CAP_PSM_HIDP_CTRL" by simp_all
        show ?thesis
          unfolding if_not_P [OF csk] wp_bindio
        proof (rule wp_mono [OF intr [OF lis]], goal_cases)
          case (1 isk h3)
          then show ?case
            using open2 same new [of ctl csk isk]
            by (cases "isk < 0") (simp_all add: wp_simps BDREMOTE_OK_def BDREMOTE_FAIL_def add_mset_commute)
        qed
      qed
    qed
    then show ?thesis
      using False by (simp only: open_channels_def Let_def wp_bindio wp_sys if_False flip: ctl_def)
  qed
qed

text \<open>The calls made to open the channels.\<close>

definition setup_call :: "syscall \<Rightarrow> bool" where
  "setup_call c \<longleftrightarrow> (case c of Socket k \<Rightarrow> k \<noteq> Inet_stream | Bind_l2cap _ _ _ \<Rightarrow> True | Setsockopt _ _ \<Rightarrow> True
     | Listen _ _ \<Rightarrow> True | Close _ \<Rightarrow> True | Hci _ \<Rightarrow> True | Proc p \<Rightarrow> (\<exists>n. p = Malloc n) | _ \<Rightarrow> False)"

lemma calls_InitcaptureLoop: "calls setup_call (InitcaptureLoop os cd)"
proof -
  have dev: "calls setup_call (device_addr os d di)" for d di
    unfolding device_addr_def by (auto simp: setup_call_def intro!: ext_intros)
  have find: "calls setup_call (find_device os ctl ds a)" for ctl ds a
    by (induction ds) (auto simp: setup_call_def [of "Hci _"] intro!: ext_intros dev)
  have listen: "calls setup_call (l2cap_listen os a psm lm n)" for a psm lm n
    unfolding l2cap_listen_def by (auto simp: setup_call_def intro!: ext_intros)
  have exists: "calls setup_call (bt_device_exists os a)" for a
    unfolding bt_device_exists_def by (auto simp: setup_call_def intro!: ext_intros find)
  have iface: "calls setup_call (interface_address os cd)"
    unfolding interface_address_def Let_def by (auto simp: setup_call_def split: prod.splits intro!: ext_intros)
  have chan: "calls setup_call (open_channels os cd a)" for cd a
    unfolding open_channels_def Let_def by (auto simp: setup_call_def intro!: ext_intros listen)
  show ?thesis
    unfolding InitcaptureLoop_def log_debug_def Let_def
    by (auto intro!: ext_intros iface exists chan)
qed

lemma interface_address_ok:
  "wp (interface_address os cd)
     (\<lambda>(r, cd') h'. open_socks h' = open_socks h \<and> (\<exists>i. cd' = cd\<lparr>bt_dev_address := i\<rparr>) \<and>
        (bt_dev_address cd \<noteq> None \<longrightarrow> cd' = cd) \<and>
        (r = BDREMOTE_OK \<and> bt_dev_address cd' \<noteq> None \<and>
           (bt_dev_address cd = None \<longrightarrow> bt_dev_address cd' = Some (snd (ba2str os (snd (dev_info os h 0))))) \<or>
         r = BDREMOTE_FAIL))
     (\<lambda>e. e = Null_deref \<and> bt_dev_address cd = None \<and> (\<exists>h. ret os h (Proc (Malloc 127)) = 0)) h"
proof -
  have same: "\<exists>i. cd = cd\<lparr>bt_dev_address := i\<rparr>" by (rule exI [of _ "bt_dev_address cd"]) simp
  show ?thesis
    using same by (auto simp: interface_address_def wp_simps Let_def split: prod.splits)
qed

text \<open>
  The way \<open>InitcaptureLoop\<close> leaves a socket open: the list of interfaces could not be read.
\<close>

definition device_list_failed :: "hist \<Rightarrow> int \<Rightarrow> bool" where
  "device_list_failed h ctl \<longleftrightarrow>
     hd h = (Proc (Malloc 130), 0) \<or> (\<exists>e < 0. hd h = (Hci (Hci_get_dev_list ctl), e))"

lemma rest_kept:
  "cd' = cd\<lparr>bt_dev_address := i, sockets := s\<rparr> \<Longrightarrow>
     timeout cd' = timeout cd \<and> dest_address cd' = dest_address cd \<and> cd_config cd' = cd_config cd"
  by simp

lemma InitcaptureLoop_ok:
  assumes os: "posix_fds os" and cd: "cd_ok cd"
  shows "wp (InitcaptureLoop os cd)
     (\<lambda>(r, cd') h'. cd_ok cd' \<and> cd' = cd\<lparr>bt_dev_address := bt_dev_address cd', sockets := sockets cd'\<rparr> \<and>
        (bt_dev_address cd \<noteq> None \<longrightarrow> bt_dev_address cd' = bt_dev_address cd) \<and>
        (if r = BDREMOTE_OK
         then open_socks h' = open_socks h + mset (sockets cd') \<and>
           (\<exists>i. bt_dev_address cd' = Some i \<and>
              (bt_dev_address cd = None \<longrightarrow> i = snd (ba2str os (snd (dev_info os h 0)))) \<and>
              listens h' (sockets cd' ! 1) (snd (str2ba os i)) L2CAP_PSM_HIDP_CTRL \<and>
              listens h' (sockets cd' ! 2) (snd (str2ba os i)) L2CAP_PSM_HIDP_INTR)
         else r = BDREMOTE_FAIL \<and> sockets cd' = sockets cd \<and> (open_socks h' = open_socks h \<or>
           (\<exists>ctl. open_socks h' = add_mset ctl (open_socks h) \<and> device_list_failed h' ctl))))
     (\<lambda>e. e = Exited 1 \<and> (\<exists>h. ret os h (Socket Bt_hci) < 0) \<or>
        e = Null_deref \<and> bt_dev_address cd = None \<and> (\<exists>h. ret os h (Proc (Malloc 127)) = 0)) h" (is "wp _ ?post ?stop h")
proof -
  let ?known = "\<lambda>i. (\<forall>a. bt_dev_address cd = Some a \<longrightarrow> i = a) \<and>
      (bt_dev_address cd = None \<longrightarrow> i = snd (ba2str os (snd (dev_info os h 0))))"
  have chan: "wp (open_channels os (cd\<lparr>bt_dev_address := Some i\<rparr>) (snd (str2ba os i))) ?post ?stop h1"
    if "open_socks h1 = open_socks h" "?known i" for i h1
    by (rule wp_mono [OF open_channels_ok [OF os]])
       (use cd that in \<open>auto simp: cd_ok_def split: if_splits\<close>)
  have rest: "wp (bindio (bt_device_exists os a) (\<lambda>r.
        if r = BDREMOTE_FAIL then seqio (log_debug cd1) (retio (BDREMOTE_FAIL, cd1))
        else seqio (log_debug cd1) (open_channels os cd1 a))) ?post ?stop h1"
    if h1: "open_socks h1 = open_socks h" and cd1: "cd1 = cd\<lparr>bt_dev_address := Some i\<rparr>" and a: "a = snd (str2ba os i)"
      and i: "?known i"
    for i h1 a cd1
    unfolding wp_bindio
  proof (rule wp_mono [OF bt_device_exists_ok [OF os]], goal_cases)
    case (1 r h2)
    have ok: "cd_ok cd1" using cd cd1 by (simp add: cd_ok_def)
    show ?case
    proof (cases "r = BDREMOTE_FAIL")
      case True
      with 1 ok h1 cd1 show ?thesis
        using i by (auto simp: wp_simps BDREMOTE_OK_def BDREMOTE_FAIL_def device_list_failed_def cd_ok_def)
    next
      case False
      with 1 ok h1 i chan [of h2 i] show ?thesis by (simp add: wp_simps cd1 a)
    qed
  qed auto
  show ?thesis
    unfolding InitcaptureLoop_def wp_bindio
  proof (rule wp_mono [OF interface_address_ok], goal_cases)
    case (1 x h1)
    obtain r cd1 where x: "x = (r, cd1)" by (cases x) auto
    show ?case
    proof (cases "r < 0")
      case True
      with 1 x cd show ?thesis by (auto simp: wp_simps BDREMOTE_OK_def BDREMOTE_FAIL_def cd_ok_def)
    next
      case False
      with 1 x obtain i where cd1: "cd1 = cd\<lparr>bt_dev_address := Some i\<rparr>" and i: "?known i"
        by (auto simp: BDREMOTE_FAIL_def)
      obtain r2 a where a: "str2ba os i = (r2, a)" by (cases "str2ba os i") auto
      have h1: "open_socks h1 = open_socks h" using 1 x by simp
      show ?thesis
      proof (cases "r2 < 0")
        case True
        with False x h1 cd a i show ?thesis
          by (auto simp: wp_simps cd1 cd_ok_def BDREMOTE_OK_def BDREMOTE_FAIL_def)
      next
        case r2: False
        have "a = snd (str2ba os i)" using a by simp
        from rest [OF h1 cd1 this i, unfolded cd1] show ?thesis
          using False x r2 a
          by (simp add: wp_bindio [of "liftio _"] wp_liftio cd1 split del: if_split del: One_nat_def)
      qed
    qed
  qed auto
qed

section \<open>A silent remote\<close>

lemma read_loop_silent:
  assumes cd: "cd_ok cd" "timeout cd < 2 ^ 31 - 1"
    and live: "\<And>h. ret os h Get_canceled = 0" and silent: "\<And>h. ret os h (Ppoll [sock] (Some 1)) < 1"
  shows "0 \<le> n \<Longrightarrow> n \<le> timeout cd + 1 \<Longrightarrow> timeout cd + 1 - n < int k \<Longrightarrow>
     wp (read_loop os cb k cd sock n p)
       (\<lambda>(r, p') h'. r = 2 \<and> p' = p \<and> int (length h') = int (length h) + 2 * (timeout cd + 1 - n) + 1)
       (\<lambda>_. False) h"
proof (induction k arbitrary: n h)
  case 0
  then show ?case by simp
next
  case (Suc k)
  let ?h1 = "(Get_canceled, 0) # h"
  let ?c = "Ppoll [sock] (Some 1)"
  let ?h2 = "(?c, ret os ?h1 ?c) # ?h1"
  have tmo: "0 < timeout cd" using cd(1) by (simp add: cd_ok_def)
  show ?case
  proof (cases "timeout cd < n")
    case True
    then have "n = timeout cd + 1" using Suc.prems by simp
    then show ?thesis using live cd(1) by (simp add: wp_simps)
  next
    case False
    then have "0 \<le> n + 1" "n + 1 \<le> timeout cd + 1" "timeout cd + 1 - (n + 1) < int k"
      using Suc.prems by simp_all
    from Suc.IH [OF this, of ?h2] have "wp (read_loop os cb k cd sock (n + 1) p)
       (\<lambda>(r, p') h'. r = 2 \<and> p' = p \<and> int (length h') = int (length h) + 2 * (timeout cd + 1 - n) + 1)
       (\<lambda>_. False) ?h2" by (rule wp_mono) auto
    moreover have "c_int (n + 1)" using cd(2) False Suc.prems by (simp add: c_int_def)
    ultimately show ?thesis using False live silent [of ?h1] cd(1) by (simp add: wp_simps)
  qed
qed

section \<open>Properties\<close>

text \<open>
  Capture data as \<open>InitCaptureData\<close> leaves them, and a system in which a remote connects, keeps
  sending a packet, and the daemon is then told to end.
\<close>

definition some_capture :: captureData where
  "some_capture = \<lparr>cd_magic0 = 127, cd_config = Some full_config, cd_p_set = True, bt_dev_address = None,
     dest_address = Some ''00:19:AA:5A:F1:3F'', timeout = 60, sockets = [3, 4, 5]\<rparr>"

lemma some_capture_ok: "cd_ok some_capture" "timeout some_capture < 2 ^ 31 - 1"
  by (simp_all add: cd_ok_def some_capture_def)

definition remote_os :: os where
  "remote_os = quiet_os\<lparr>ret := (\<lambda>h c. case c of Get_canceled \<Rightarrow> (if length h < 12 then 0 else 1)
       | Ppoll fds t \<Rightarrow> 1 | Accept s \<Rightarrow> 6 | Recv s n \<Rightarrow> (if 2 \<le> n then 2 else 0) | _ \<Rightarrow> 0),
     recv_data := (\<lambda>h. [0xa1, 7]), departures := (\<lambda>h. 1), revents := (\<lambda>h i. POLLIN)\<rparr>"

lemma remote_os_ok: "posix_recv remote_os" "posix_fds remote_os" "cancels_after remote_os 12"
  "drains remote_os (Suc k)"
  by (auto simp: posix_recv_def posix_fds_def cancels_after_def remote_os_def intro!: drains_one)

text \<open>
  C2: What the remote sends reaches the queue to the LIRC thread, all of it and in order. Whatever the system does,
  while the server runs every packet received is put on the queue once, in the order of arrival,
  behind what was there. Nothing is discarded: the \<open>n\<close> messages missing at the end are the oldest, and
  they are no more than the LIRC thread took off the queue, counted at each point at which a callback looked at it
  (before taking the mutex, and asleep in \<open>queueAdd\<close>); when that thread took nothing, everything is still there. The charge that is
  stored is that of the last packet that told one, 20 times its byte 12. The shared data stay
  valid, every descriptor is given back, and the server returns when the termination flag is set after
  \<open>N\<close> calls and the LIRC thread empties a full queue.
\<close>

theorem run_server_spec:
  assumes "cd_ok cd" and "timeout cd < 2 ^ 31 - 1" and "posix_recv os" and "posix_fds os" and "lc_ok lc"
  shows "wp (run_server os (lirc_callbacks os qfuel) fuel cd csk isk lc)
     (\<lambda>lc' h'. lc_ok lc' \<and> open_socks h' = open_socks h \<and>
        (\<exists>ps. packets os h' = packets os h @ ps \<and>
          (\<exists>n. departed looks os h + n \<le> departed looks os h' \<and>
             ring_list (qu lc') = drop n (ring_list (qu lc) @ map message ps)) \<and>
          known_charge lc' = foldl next_level (known_charge lc) ps))
     (\<lambda>e. e = Out_of_fuel \<and> \<not> (drains os qfuel \<and> cancels_after os N \<and> N < fuel)) h"
  by (rule wp_mono [OF lirc_client.run_server_ok [OF assms refl, where N = N]])
     (auto dest!: delivered_reads)

theorem run_server_spec_witness:
  "wp (run_server remote_os (lirc_callbacks remote_os 1) 13 some_capture 4 5 fresh_ld)
     (\<lambda>lc' h'. lc_ok lc' \<and> open_socks h' = {#} \<and>
        (\<exists>n \<le> departed looks remote_os h'. ring_list (qu lc') = drop n (map message (packets remote_os h'))))
     (\<lambda>_. False) []"
  by (rule wp_mono [OF run_server_spec [OF some_capture_ok remote_os_ok(1,2) fresh_lc, where N = 12]])
     (use remote_os_ok(3) remote_os_ok(4) [of 0] in \<open>auto simp: fresh_ld_def\<close>)

text \<open>
  C20: Only the remote is listened to, as far as the system can tell who it is. While the capture loop
  runs, data is read only from the descriptor the last \<open>accept\<close> on the interrupt socket returned, and only after
  the address of the peer of the control channel accepted right before it was asked for, on the descriptor of that
  control channel, and was equal to the configured one, or could not be read: then the peer counts as
  known. The loop closes its three sockets and everything it accepted.
\<close>

theorem only_remote_read:
  assumes "cd_ok cd" and "timeout cd < 2 ^ 31 - 1" and "posix_recv os" and "posix_fds os" and "lc_ok lc"
    and "str2ba os (the (dest_address cd)) = (r, a)"
    and "csk = sockets cd ! 1" and "isk = sockets cd ! 2" and "only_remote os a csk isk h"
  shows "wp (captureLoop os (lirc_callbacks os qfuel) fuel cd lc)
     (\<lambda>(r, lc') h'. r = BDREMOTE_OK \<and> only_remote os a csk isk h' \<and> open_socks h' = open_socks h - mset (sockets cd))
     (\<lambda>e. e = Out_of_fuel) h"
  by (rule wp_mono [OF lirc_client.captureLoop_ok [OF assms(1-5) _ assms(7,8), where a = a]])
     (use assms(6,9) in auto)

theorem only_remote_read_witness:
  "wp (captureLoop remote_os (lirc_callbacks remote_os 1) 13 some_capture fresh_ld)
     (\<lambda>(r, lc') h'. r = BDREMOTE_OK \<and> only_remote remote_os (replicate 6 0) 4 5 h') (\<lambda>e. e = Out_of_fuel) []"
  by (rule wp_mono [OF only_remote_read [OF some_capture_ok remote_os_ok(1,2) fresh_lc, where r = 0 and csk = 4 and isk = 5]])
     (auto simp: remote_os_def some_capture_def)

text \<open>
  A peer whose address cannot be read is served. \<open>l2cap_checkSource\<close> promises 0 for an unknown
  device, but returns \<open>BDREMOTE_FAIL\<close>, which is not 0, when \<open>getpeername\<close> fails; so after
  failing to identify any peer the server still reads data from it.
\<close>

lemma unverified_peer_read:
  assumes "cd_ok cd" and "posix_fds os" and "lc_ok lc"
    and "\<forall>h s. ret os h (Getpeername s) < 0" and "\<forall>h. ret os h Get_canceled = 0"
    and "\<forall>h fds t. 1 \<le> ret os h (Ppoll fds t)" and "\<forall>h s n. ret os h (Recv s n) = 0"
  shows "wp (serve_remote os (lirc_callbacks os qfuel) (Suc k) cd address csk isk lc)
     (\<lambda>lc' h'. lc' = lc \<and> (Recv (ret os ((Accept csk, ret os h (Accept csk)) # h) (Accept isk)) 1024, 0) \<in> set h')
     (\<lambda>_. False) h"
proof -
  have poll: "\<not> ret os h (Ppoll fds t) < 1" for h fds t using assms(6) by (simp add: not_less)
  have tmo: "\<not> timeout cd < 0" using assms(1) by (simp add: cd_ok_def)
  show ?thesis
    using assms poll tmo
    by (simp add: serve_remote_def remote_session_def wp_simps wp_l2cap_accept wp_l2cap_checkSource Let_def
        lirc_callbacks_def wp_connected readFromSocket_def MAXBUFFERSIZE_def)
qed

definition anonymous_os :: os where
  "anonymous_os = quiet_os\<lparr>ret := (\<lambda>h c. case c of Getpeername s \<Rightarrow> -1 | Ppoll fds t \<Rightarrow> 1 | Accept s \<Rightarrow> 6
     | _ \<Rightarrow> 0)\<rparr>"

lemma unverified_peer_read_witness:
  "wp (serve_remote anonymous_os (lirc_callbacks anonymous_os 1) (Suc 0) some_capture (replicate 6 9) 4 5 fresh_ld)
     (\<lambda>lc' h'. (Recv 6 1024, 0) \<in> set h') (\<lambda>_. False) []"
  by (rule wp_mono [OF unverified_peer_read [OF some_capture_ok(1) _ fresh_lc]])
     (auto simp: anonymous_os_def posix_fds_def)

text \<open>
  What the three results of \<open>readFromSocket\<close> mean. It returns 0 only when the termination flag is
  set, 1 only when the peer closed the channel or it failed, and 2 only after more than
  \<open>timeout\<close> polls of one second in a row came back without data; it opens and closes nothing.
\<close>

lemma readFromSocket_spec:
  assumes "cd_ok cd" and "timeout cd < 2 ^ 31 - 1" and "posix_recv os" and "lc_ok lc"
    and "verified os a csk isk h = Some sock"
  shows "wp (readFromSocket os (lirc_callbacks os qfuel) fuel cd sock lc)
     (\<lambda>(r, lc') h'. lc_ok lc' \<and> open_socks h' = open_socks h \<and>
        (r = 0 \<and> (\<exists>c. hd h' = (Get_canceled, c) \<and> c \<noteq> 0) \<or>
           r = 1 \<and> (\<exists>x. hd h' = (Recv sock MAXBUFFERSIZE, x) \<and> x \<le> 0) \<or> r = 2 \<and> timeout cd < idle sock h'))
     (\<lambda>e. e = Out_of_fuel \<and> \<not> (drains os qfuel \<and> cancels_after os N \<and> 0 < fuel \<and> N < length h + fuel)) h"
  by (rule wp_mono [OF lirc_client.readFromSocket_ok [OF assms(1-5), where N = N]]) auto

lemma readFromSocket_spec_witness:
  "wp (readFromSocket remote_os (lirc_callbacks remote_os 1) 13 some_capture 6 fresh_ld)
     (\<lambda>(r, lc') h'. lc_ok lc' \<and> (r = 0 \<or> r = 1 \<or> r = 2 \<and> 60 < idle 6 h')) (\<lambda>_. False) [(Getpeername 6, -1), (Accept 5, 6), (Accept 4, 6)]"
  by (rule wp_mono [OF readFromSocket_spec [OF some_capture_ok remote_os_ok(1) fresh_lc, where a = "[]" and csk = 4 and isk = 5 and N = 12]])
     (use remote_os_ok(3) remote_os_ok(4) [of 0] in \<open>auto simp: some_capture_def\<close>)

text \<open>
  C36: A silent remote is disconnected, and not before its time: when no poll finds data and nobody ends
  the daemon, \<open>readFromSocket\<close> returns 2 after exactly \<open>timeout + 1\<close> polls of one second, without having
  called the client.
\<close>

theorem silent_remote_times_out:
  assumes "cd_ok cd" and "timeout cd < 2 ^ 31 - 1" and "\<And>h. ret os h Get_canceled = 0"
    and "\<And>h. ret os h (Ppoll [sock] (Some 1)) < 1" and "timeout cd + 1 < int fuel"
  shows "wp (readFromSocket os cb fuel cd sock p)
     (\<lambda>(r, p') h'. r = 2 \<and> p' = p \<and> int (length h') = int (length h) + 2 * (timeout cd + 1) + 1)
     (\<lambda>_. False) h"
  using read_loop_silent [OF assms(1-4), where n = 0 and k = fuel and p = p and h = h] assms(1,5)
  by (simp add: readFromSocket_def cd_ok_def)

theorem silent_remote_times_out_witness:
  "wp (readFromSocket quiet_os (lirc_callbacks quiet_os 1) 62 some_capture 6 fresh_ld)
     (\<lambda>(r, p') h'. r = 2 \<and> length h' = 123) (\<lambda>_. False) []"
  by (rule wp_mono [OF silent_remote_times_out [OF some_capture_ok]]) (auto simp: some_capture_def)

text \<open>
  C28: Opening the channels succeeds with three open sockets, or fails. On success the control and the
  interrupt channel are bound to the interface whose address is stored, on their own ports, and listen; on
  failure every socket is closed again, with one exception: when there is no memory for the list of interfaces, or
  it cannot be read, \<open>bt_device_exists\<close> leaves its socket open. The address used is the one given by \<open>-i\<close>, when
  one was given, and otherwise that of interface 0; of the capture data only this address, and on success the
  sockets, change. Two failures end the program instead: it exits with status 1 when no socket can be opened to look
  for the interfaces, and it writes through a null pointer when no address was given and there is no memory for one.
\<close>

theorem InitcaptureLoop_spec:
  assumes "posix_fds os" and "cd_ok cd"
  shows "wp (InitcaptureLoop os cd)
     (\<lambda>(r, cd') h'. cd_ok cd' \<and> cd' = cd\<lparr>bt_dev_address := bt_dev_address cd', sockets := sockets cd'\<rparr> \<and>
        (bt_dev_address cd \<noteq> None \<longrightarrow> bt_dev_address cd' = bt_dev_address cd) \<and>
        (if r = BDREMOTE_OK
         then open_socks h' = open_socks h + mset (sockets cd') \<and>
           (\<exists>i. bt_dev_address cd' = Some i \<and>
              (bt_dev_address cd = None \<longrightarrow> i = snd (ba2str os (snd (dev_info os h 0)))) \<and>
              listens h' (sockets cd' ! 1) (snd (str2ba os i)) L2CAP_PSM_HIDP_CTRL \<and>
              listens h' (sockets cd' ! 2) (snd (str2ba os i)) L2CAP_PSM_HIDP_INTR)
         else r = BDREMOTE_FAIL \<and> sockets cd' = sockets cd \<and> (open_socks h' = open_socks h \<or>
           (\<exists>ctl. open_socks h' = add_mset ctl (open_socks h) \<and> device_list_failed h' ctl))))
     (\<lambda>e. e = Exited 1 \<and> (\<exists>h. ret os h (Socket Bt_hci) < 0) \<or>
        e = Null_deref \<and> bt_dev_address cd = None \<and> (\<exists>h. ret os h (Proc (Malloc 127)) = 0)) h"
  by (rule InitcaptureLoop_ok [OF assms])

text \<open>A system with one interface on which every call succeeds.\<close>

definition bluez_os :: os where
  "bluez_os = quiet_os\<lparr>ret := (\<lambda>h c. case c of Proc (Malloc n) \<Rightarrow> 1 | Socket k \<Rightarrow> int (length h) + 3 | _ \<Rightarrow> 0)\<rparr>"

lemma bluez_os_simps [simp]:
  "ret bluez_os h c = (case c of Proc (Malloc n) \<Rightarrow> 1 | Socket k \<Rightarrow> int (length h) + 3 | _ \<Rightarrow> 0)"
  "dev_list bluez_os h = [0]" "dev_info bluez_os h n = (False, replicate 6 0)"
  "str2ba bluez_os s = (0, replicate 6 0)" "ba2str bluez_os a = (17, ''00:00:00:00:00:00'')"
  by (simp_all add: bluez_os_def)

lemma bluez_opens:
  "wp (InitcaptureLoop bluez_os some_capture) (\<lambda>(r, cd') h'. r = BDREMOTE_OK) (\<lambda>_. False) []"
  by (simp add: InitcaptureLoop_def interface_address_def bt_device_exists_def device_addr_def open_channels_def
      l2cap_listen_def wp_simps Let_def some_capture_ok log_debug_def cd_ok_def some_capture_def BDREMOTE_OK_def BDREMOTE_FAIL_def)

theorem InitcaptureLoop_spec_witness:
  "wp (InitcaptureLoop bluez_os some_capture)
     (\<lambda>(r, cd') h'. r = BDREMOTE_OK \<and> bt_dev_address cd' = Some ''00:00:00:00:00:00'' \<and>
        open_socks h' = mset (sockets cd') \<and> cd_config cd' = Some full_config \<and>
        listens h' (sockets cd' ! 1) (replicate 6 0) L2CAP_PSM_HIDP_CTRL) (\<lambda>_. False) []"
proof -
  have "posix_fds bluez_os" by (auto simp: posix_fds_def)
  note spec = InitcaptureLoop_spec [OF this some_capture_ok(1), of "[]"]
  have "wp (InitcaptureLoop bluez_os some_capture)
     (\<lambda>(r, cd') h'. r = BDREMOTE_OK \<longrightarrow> bt_dev_address cd' = Some ''00:00:00:00:00:00'' \<and>
        open_socks h' = mset (sockets cd') \<and> cd_config cd' = Some full_config \<and>
        listens h' (sockets cd' ! 1) (replicate 6 0) L2CAP_PSM_HIDP_CTRL) (\<lambda>_. False) []"
  proof (rule wp_mono [OF spec], goal_cases)
    case (1 x h')
    obtain r cd' where x: "x = (r, cd')" by (cases x) auto
    have "cd' = some_capture\<lparr>bt_dev_address := bt_dev_address cd', sockets := sockets cd'\<rparr>" using 1 x by simp
    from rest_kept [OF this] have "cd_config cd' = Some full_config" by (simp add: some_capture_def)
    with 1 x show ?case by (auto simp: some_capture_def)
  qed auto
  from wp_conj [OF bluez_opens this] show ?thesis by (rule wp_mono) auto
qed

end
