(* ===== verification/Daemon.thy ===== *)
theory Daemon
  imports Main_App Capture_Props
begin

text \<open>
  The daemon as a whole: how a run of \<open>main\<close> can end, and the order in which it gives up its
  privileges and opens things. The properties of this theory rest on those of every component.
\<close>

section \<open>How a run ends\<close>


text \<open>Both threads were waited for.\<close>

definition joined :: "hist \<Rightarrow> bool" where
  "joined h \<longleftrightarrow> (\<exists>r. (Proc (Pthread_join ''listener''), r) \<in> set h) \<and> (\<exists>r. (Proc (Pthread_join ''lircThread''), r) \<in> set h)"

lemma joined_mono: "joined h \<Longrightarrow> set h \<subseteq> set h' \<Longrightarrow> joined h'"
  unfolding joined_def by blast












section \<open>Privileges\<close>

text \<open>The calls that open something for the daemon to serve, or start a thread.\<close>

definition opens :: "syscall \<Rightarrow> bool" where
  "opens c \<longleftrightarrow> (\<exists>n. c = Proc (Fopen n)) \<or> (\<exists>n. c = Proc (Pthread_create n)) \<or> c = Socket Inet_stream \<or>
     (\<exists>d. c = Open_dev d)"

text \<open>The group and the user were changed.\<close>

definition dropped :: "hist \<Rightarrow> bool" where
  "dropped h \<longleftrightarrow> (\<exists>g. (Proc (Setgid g), 0) \<in> set h) \<and> (\<exists>u. (Proc (Setuid u), 0) \<in> set h)"

text \<open>Whatever was opened was opened after that.\<close>

fun dropped_first :: "hist \<Rightarrow> bool" where
  "dropped_first [] = True"
| "dropped_first ((c, r) # h) = ((opens c \<longrightarrow> dropped h) \<and> dropped_first h)"

lemma dropped_first_frame: "\<forall>e \<in> set t. \<not> opens (fst e) \<Longrightarrow> dropped_first (t @ h) = dropped_first h"
  by (induction t) auto

lemma dropped_mono: "dropped h \<Longrightarrow> dropped (t @ h)"
  by (auto simp: dropped_def)

lemma dropped_later: "dropped h \<Longrightarrow> dropped_first h \<Longrightarrow> dropped_first (t @ h) \<and> dropped (t @ h)"
  by (induction t) (auto simp: dropped_def)

lemma extends_lirc_server: "extends (lirc_server os fuel cfg ld)"
proof -
  have add: "extends (add_client os ld)" for ld
    unfolding add_client_def nolinger_def Let_def by (auto intro!: ext_intros)
  have loop: "extends (accept_loop os k ld)" for k ld
    by (induction k arbitrary: ld) (auto intro!: ext_intros add)
  have close: "extends (close_clients os fds)" for fds
    by (induction fds) (auto intro!: ext_intros)
  show ?thesis
    unfolding lirc_server_def create_listener_def nolinger_def Let_def
    by (auto intro!: ext_intros loop close)
qed

lemma extends_event_out: "extends (event_out_init os)" "extends (event_out_destroy os fd)"
proof -
  have first: "extends (open_first os ds)" for ds by (induction ds) (auto intro!: ext_intros)
  have bits: "extends (set_keybits os fd ks)" for fd ks by (induction ks) (auto intro!: ext_intros)
  show "extends (event_out_init os)"
    unfolding event_out_init_def close_device_def by (auto intro!: ext_intros first bits)
  show "extends (event_out_destroy os fd)"
    unfolding event_out_destroy_def by (auto intro!: ext_intros)
qed

lemma extends_closeLogFile: "extends (closeLogFile os st)"
  unfolding closeLogFile_def by (cases st) (auto intro!: ext_intros)

lemma extends_serve: "extends (serve_and_release os fuel cfg ld cd st)"
proof -
  have release: "extends (release_all os cfg ld' cd fd st)" for ld' fd
    unfolding release_all_def waitForLircThread_def destroyLircData_def Let_def
    by (auto intro!: ext_intros extends_event_out extends_closeLogFile)
  show ?thesis
    unfolding serve_and_release_def install_handlers_def startLircThread_def
    by (auto intro!: ext_intros release extends_event_out extends_closeLogFile extends_lirc_server)
qed

lemma extends_log_and_serve:
  "extends (bindio (setLogFile os cfg Stdout) (\<lambda>(r, st).
     if r = BDREMOTE_FAIL then stopio (Exited 0) else serve_and_release os fuel cfg ld cd st))"
  unfolding setLogFile_def by (auto intro!: ext_intros extends_serve)

lemma calls_changeUIDAndGID: "calls (\<lambda>c. \<not> opens c) (changeUIDAndGID os u g)"
  unfolding changeUIDAndGID_def getpwnam_def getgrnam_def Let_def
  by (auto simp: opens_def intro!: ext_intros)

lemma change_user_drops:
  assumes "userAndGroupSet cfg = 1"
  shows "wp (change_user os cfg) (\<lambda>ok h'. (ok \<longrightarrow> dropped h') \<and> (dropped_first h \<longrightarrow> dropped_first h')) (\<lambda>_. True) h"
proof -
  have ids: "wp (changeUIDAndGID os u g)
      (\<lambda>r h'. (r \<noteq> BDREMOTE_FAIL \<longrightarrow> dropped h') \<and> (dropped_first h1 \<longrightarrow> dropped_first h')) (\<lambda>_. True) h1" for u g h1
    by (rule wp_mono [OF wp_calls [OF calls_changeUIDAndGID changeUIDAndGID_ok]])
       (auto simp: dropped_def dropped_first_frame)
  show ?thesis
    using assms unfolding change_user_def
    by (auto simp: wp_simps opens_def intro!: wp_mono [OF ids] split: sum.split)
qed

lemma calls_init: "calls (\<lambda>c. \<not> opens c) (initLircData os ld cfg)"
  unfolding initLircData_def Let_def by (auto simp: opens_def intro!: ext_intros)

lemma setup_opens_not: "setup_call c \<Longrightarrow> \<not> opens c"
  by (auto simp: setup_call_def opens_def split: syscall.splits)

lemma calls_setup: "calls (\<lambda>c. \<not> opens c) (InitcaptureLoop os cd)"
  by (rule calls_mono [OF calls_InitcaptureLoop]) (rule setup_opens_not)

lemma started_drops:
  assumes both: "userAndGroupSet cfg = 1" and first: "dropped_first h"
  shows "wp (start_daemon os fuel cfg ld cd) (\<lambda>r h'. dropped_first h' \<and> (r = 0 \<longrightarrow> dropped h')) (\<lambda>_. True) h"
    (is "wp _ ?post _ h")
proof -
  have serve: "wp (bindio (setLogFile os cfg Stdout) (\<lambda>(r, st).
      if r = BDREMOTE_FAIL then stopio (Exited 0) else serve_and_release os fuel cfg ld cd' st)) ?post (\<lambda>_. True) h"
    if "dropped h" "dropped_first h" for cd' h
    by (rule wp_mono [OF wp_calls [OF extends_log_and_serve wp_any]]) (use dropped_later [OF that] in auto)
  have change: "wp (bindio (change_user os cfg) (\<lambda>ok. if \<not> ok then retio BDREMOTE_FAIL
      else bindio (setLogFile os cfg Stdout) (\<lambda>(r, st).
        if r = BDREMOTE_FAIL then stopio (Exited 0) else serve_and_release os fuel cfg ld cd' st))) ?post (\<lambda>_. True) h"
    if "dropped_first h" for cd' h
    unfolding wp_bindio [of "change_user _ _"]
    by (rule wp_mono [OF change_user_drops [OF both]])
       (use that serve in \<open>auto simp: wp_retio BDREMOTE_FAIL_def\<close>)
  have "wp (bindio (InitcaptureLoop os cd) (\<lambda>(r, cd').
      if r = BDREMOTE_FAIL then retio BDREMOTE_FAIL
      else bindio (change_user os cfg) (\<lambda>ok. if \<not> ok then retio BDREMOTE_FAIL
        else bindio (setLogFile os cfg Stdout) (\<lambda>(r, st).
          if r = BDREMOTE_FAIL then stopio (Exited 0) else serve_and_release os fuel cfg ld cd' st)))) ?post (\<lambda>_. True) h"
    if "dropped_first h" for h
    unfolding wp_bindio [of "InitcaptureLoop _ _"]
  proof (rule wp_mono [OF wp_calls [OF calls_setup wp_any]], goal_cases)
    case (1 x h')
    obtain r cd' where "x = (r, cd')" by (cases x) auto
    moreover have "dropped_first h'" using 1 that dropped_first_frame by auto
    ultimately show ?case using change [of h' cd'] by (cases "r = BDREMOTE_FAIL") (simp_all add: wp_retio BDREMOTE_FAIL_def)
  qed
  then show ?thesis
    using first
    by (simp add: start_daemon_def wp_seqio wp_if wp_bindio [of "sys _ _"] wp_sys wp_stopio wp_retio opens_def)
qed

section \<open>Properties\<close>





text \<open>
  C21: Privileges are given up before anything is opened for use. When a user and a group are named, then in a run that
  returns the log file, the input device, the server socket and the threads are opened or started only after the group and the
  user were changed successfully; and the run returns 0 only if they were. The bluetooth sockets are opened before.
\<close>

theorem privileges_dropped_first:
  assumes "userAndGroupSet cfg = 1" and "dropped_first h"
  shows "wp (run_daemon os enable_repeat fuel ld cfg)
     (\<lambda>r h'. dropped_first h' \<and> (r = 0 \<longrightarrow> dropped h')) (\<lambda>_. True) h"
proof -
  have "wp (initLircData os ld cfg) (\<lambda>ld' h'. wp (bindio (liftio (InitCaptureData zero_capture cfg)) (\<lambda>cd.
      start_daemon os fuel cfg ld' cd)) (\<lambda>r h'. dropped_first h' \<and> (r = 0 \<longrightarrow> dropped h')) (\<lambda>_. True) h') (\<lambda>_. True) h"
    by (rule wp_mono [OF wp_calls [OF calls_init wp_any]])
       (use assms dropped_first_frame started_drops [OF assms(1)] in
         \<open>auto simp: wp_bindio [of "liftio _"] wp_liftio split: sum.split\<close>)
  then show ?thesis
    by (simp add: run_daemon_def wp_seqio wp_if wp_stopio wp_retio wp_liftio wp_bindio [of "initLircData _ _ _"]
        split: sum.split)
qed

theorem privileges_dropped_first_witness:
  "wp (run_daemon remote_os True 13 fresh_ld full_config) (\<lambda>r h'. r = 0 \<longrightarrow> dropped h') (\<lambda>_. True) []"
  by (rule wp_mono [OF privileges_dropped_first]) (auto simp: userAndGroupSet_def full_config_def cfg_defs)

text \<open>
  C22: The bluetooth side gives everything back. From the initialisation of the capture data, over opening the
  channels, to the end of the listener thread, everything opened is closed, whichever call fails on
  the way, except for the socket of a failed \<open>bt_device_exists\<close>; the thread returns 0 and the shared data stay valid.
\<close>

theorem bluetooth_gives_back:
  assumes cfg: "cfg_wf cfg" "remote_addr cfg \<noteq> None" "0 < disconnect_timeout cfg" "disconnect_timeout cfg < 2 ^ 31 - 1"
    and os: "posix_recv os" "posix_fds os" and lc: "lc_ok lc"
  shows "wp (bindio (liftio (InitCaptureData zero_capture cfg)) (\<lambda>cd.
       bindio (InitcaptureLoop os cd) (\<lambda>(r, cd).
       if r = BDREMOTE_FAIL then retio (r, lc) else listener os (lirc_callbacks os qfuel) fuel cd lc)))
     (\<lambda>(r, lc') h'. lc_ok lc' \<and> (r = 0 \<or> r = BDREMOTE_FAIL) \<and> (open_socks h' = open_socks h \<or>
        r = BDREMOTE_FAIL \<and> (\<exists>ctl. open_socks h' = add_mset ctl (open_socks h) \<and> device_list_failed h' ctl)))
     (\<lambda>e. e = Exited 1 \<or> e = Null_deref \<or> e = Out_of_fuel) h"
proof -
  obtain cd where init: "InitCaptureData zero_capture cfg = Inr cd"
    using InitCaptureData_ok [OF cfg(1)] cfg(2,3) by (cases "InitCaptureData zero_capture cfg") auto
  with InitCaptureData_ok [OF cfg(1)] cfg(4) have cd: "cd_ok cd" "timeout cd < 2 ^ 31 - 1" by simp_all
  have run: "wp (bindio (InitcaptureLoop os cd) (\<lambda>(r, cd).
      if r = BDREMOTE_FAIL then retio (r, lc) else listener os (lirc_callbacks os qfuel) fuel cd lc))
     (\<lambda>(r, lc') h'. lc_ok lc' \<and> (r = 0 \<or> r = BDREMOTE_FAIL) \<and> (open_socks h' = open_socks h \<or>
        r = BDREMOTE_FAIL \<and> (\<exists>ctl. open_socks h' = add_mset ctl (open_socks h) \<and> device_list_failed h' ctl)))
     (\<lambda>e. e = Exited 1 \<or> e = Null_deref \<or> e = Out_of_fuel) h"
    unfolding wp_bindio
  proof (rule wp_mono [OF InitcaptureLoop_ok [OF os(2) cd(1)]], goal_cases)
    case (1 x h1)
    obtain r cd1 where x: "x = (r, cd1)" by (cases x) auto
    show ?case
    proof (cases "r = BDREMOTE_FAIL")
      case True
      with 1 x lc show ?thesis by (auto simp: wp_simps BDREMOTE_FAIL_def BDREMOTE_OK_def)
    next
      case False
      have "cd1 = cd\<lparr>bt_dev_address := bt_dev_address cd1, sockets := sockets cd1\<rparr>" using 1 x by simp
      from rest_kept [OF this] False 1 x cd(2) have cd1: "cd_ok cd1" "timeout cd1 < 2 ^ 31 - 1"
        and socks: "open_socks h1 = open_socks h + mset (sockets cd1)" by (auto split: if_splits)
      have "wp (listener os (lirc_callbacks os qfuel) fuel cd1 lc)
         (\<lambda>(r, lc') h'. r = 0 \<and> lc_ok lc' \<and> open_socks h' = open_socks h) (\<lambda>e. e = Out_of_fuel) h1"
        unfolding listener_def wp_seqio wp_log_debug [OF cd1(1)] wp_bindio
        by (rule wp_mono [OF lirc_client.captureLoop_ok [OF cd1 os lc refl]])
           (use socks in \<open>auto simp: wp_simps BDREMOTE_OK_def\<close>)
      then show ?thesis using x False by (auto simp: wp_if elim!: wp_mono)
    qed
  qed auto
  show ?thesis using run by (simp add: wp_bindio [of "liftio _"] wp_liftio init)
qed

theorem bluetooth_gives_back_witness:
  "wp (bindio (liftio (InitCaptureData zero_capture full_config)) (\<lambda>cd.
       bindio (InitcaptureLoop remote_os cd) (\<lambda>(r, cd).
       if r = BDREMOTE_FAIL then retio (r, fresh_ld)
       else listener remote_os (lirc_callbacks remote_os 1) 13 cd fresh_ld)))
     (\<lambda>(r, lc') h'. lc_ok lc') (\<lambda>e. e = Exited 1 \<or> e = Null_deref \<or> e = Out_of_fuel) []"
  by (rule wp_mono [OF bluetooth_gives_back [OF cfg_wf_full _ _ _ remote_os_ok(1,2) fresh_lc]])
     (auto simp: full_config_def cfg_defs)

text \<open>
  Without a remote address nothing happens. When the arguments hold no \<open>-a\<close>, the program stops before its first
  system call: it exits with status 0, unless a number among the arguments is no \<open>int\<close>.
\<close>

lemma remote_required:
  assumes "last_arg (CHR ''a'') None (getopts (tl argv) []) = None"
  shows "main os enable_repeat fuel ld argv h \<in> {Inl (Exited 0), Inl Int_overflow}"
proof (cases "parse_options argv")
  case (Inl e)
  then have "e = Exited 0 \<or> e = Int_overflow" using option_stops by (auto simp: parse_options_def)
  with Inl show ?thesis by (auto simp: main_def bindio_def liftio_def)
next
  case (Inr cfg)
  have "remote_addr (setDefaults zero_config) = None" by (simp add: cfg_defs)
  with Inr assms have "remote_addr cfg = None"
    using string_members(1) by (metis parse_options_def)
  with Inr show ?thesis by (simp add: main_def bindio_def liftio_def run_daemon_def seqio_def stopio_def)
qed

lemma remote_required_witness:
  "main quiet_os True 5 fresh_ld [''bdremoteng'', ''-d'', ''-n''] [] \<in> {Inl (Exited 0), Inl Int_overflow}"
  by (rule remote_required) (simp add: getopts.simps optstring_def last_arg_def)

end
