(* ===== verification/Spec2Isabelle.thy ===== *)
theory Spec2Isabelle
  imports Queue_Link Table_Link Pipeline_Live Shutdown Daemon
begin

text \<open>
  A verification development for bdremoteng, the daemon that takes the key presses of a bluetooth
  remote control and passes them on to the clients of LIRC and to a Linux input device. It models the C
  program under \<^verbatim>\<open>src/src\<close>; file names below are relative to that directory.

  \<^bold>\<open>The program.\<close> \<open>main\<close> (\<^verbatim>\<open>bdremoteng.c\<close>) reads the options into a \<open>configuration\<close>
  (\<^verbatim>\<open>bdrcfg.c\<close>), initialises the data shared by the threads (\<open>lirc_data\<close>, \<^verbatim>\<open>lirc_srv.h\<close>) and the
  data of the capture interface (\<open>captureData\<close>, \<^verbatim>\<open>captureif.c\<close>), opens the bluetooth channels, gives up
  its privileges (\<^verbatim>\<open>ug.c\<close>), opens the log (\<^verbatim>\<open>l.c\<close>) and the input device (\<^verbatim>\<open>event_out.c\<close>), and
  runs three threads. The bluetooth thread (\<^verbatim>\<open>capture/capture_bluez.c\<close>) accepts the remote and hands every packet
  to the callbacks (\<^verbatim>\<open>lirc_callback.c\<close>), which put it on a bounded queue (\<^verbatim>\<open>q.c\<close>). The LIRC
  thread (\<^verbatim>\<open>lirc_thr.c\<close>, with \<^verbatim>\<open>lirc_util.c\<close> and the key table of \<^verbatim>\<open>keydef.h\<close>) takes the packets off the queue,
  decodes and repeats keys, and broadcasts them to the clients. The main thread (\<^verbatim>\<open>lirc_srv.c\<close>) accepts these
  clients. The threads meet in the queue, under its mutex, and in the table of clients, under another.

  \<^bold>\<open>How effects are modelled.\<close> Theory \<open>Sys\<close>: a call of the system is a value of the datatype
  \<open>syscall\<close>, the calls made so far with their results are the \<open>hist\<close>, and what the system answers is a
  parameter of type \<open>os\<close>, a function of the history. A C function is a value of \<open>'a io\<close>: from a
  history it ends with a \<open>stop\<close> (a failed assertion, undefined behaviour, \<open>exit\<close>, or fuel used
  up) or with a result and a longer history. A theorem about an arbitrary \<open>os\<close> holds for every behaviour
  of the kernel, of the peers, and of the other threads: what these do to shared data while a thread waits or
  does not hold a mutex is part of the answers (\<open>arrivals\<close>, \<open>departures\<close>, \<open>server_acts\<close>). Theorems
  are stated with \<open>wp m P E h\<close>: run from \<open>h\<close>, \<open>m\<close> ends normally with \<open>P\<close> or stops with \<open>E\<close>; the
  equations \<open>wp_simps\<close> compute it, \<open>calls S m\<close> bounds the calls of \<open>m\<close>. What the code relies on is a
  named hypothesis: \<open>posix_write\<close>, \<open>posix_timedwait\<close>, \<open>posix_clock\<close>, \<open>posix_recv\<close>,
  \<open>posix_fds\<close>; \<open>cancels_after os N\<close> says that the termination flag is set once \<open>N\<close> calls were made, and
  \<open>drains os f\<close> that the LIRC thread takes a message off a full queue within \<open>f\<close> waits.

  \<^bold>\<open>Theories.\<close>
  \<^item> \<open>Prelude\<close>: machine words, reasons to stop, \<open>printf\<close> of numbers, reachable states and the locale
    \<open>invariant_system\<close>. \<open>Sys\<close>: see above.
  \<^item> \<open>Queue\<close> (\<^verbatim>\<open>q.c\<close>): the ring buffer refines a bounded list (a locale of queue laws, interpreted on the
    code's ring); the blocking and the timed operations, their locking and their results. \<open>Queue_Conc\<close>:
    both threads of the queue as a step relation; first in first out, mutual exclusion, no lost
    wake-up. \<open>Queue_Link\<close>: every call that occurs in an interleaving is a run of the function of \<open>Queue\<close> under the
    answers recorded during the call (which waits returned what, what the other thread took or added meanwhile), so the
    results for all answers hold of the threads.
  \<^item> \<open>Keydef\<close>, \<open>Globaldefs\<close>, \<open>Bdrcfg\<close>, \<open>Log\<close>, \<open>Ug\<close>, \<open>Lirc_Util\<close>, \<open>Event_Out\<close>: one theory per source file, with
    the functions under their C names. \<open>Bdrcfg\<close> states the setters as interpretations of the locale
    \<open>string_setting\<close>.
  \<^item> \<open>Lirc_Srv\<close> (\<^verbatim>\<open>lirc_srv.c\<close>): the shared data and their invariant \<open>ld_wf\<close>, the listening socket, the table of
    clients and the accept loop, which closes every descriptor it opened. \<open>Table_Conc\<close>: the
    accepting and the broadcasting thread on that table as a step relation. \<open>Table_Link\<close>: every broadcast that occurs in an
    interleaving is a run of \<open>broadcastToLirc\<close> under the answers recorded during it.
  \<^item> \<open>Lirc_Thr\<close> (\<^verbatim>\<open>lirc_thr.c\<close>): broadcasting, presses and releases, repeats, the thread.
    \<open>Remote\<close>: an abstract machine of a remote (\<open>react\<close>, \<open>remote_run\<close>) that the thread refines.
    \<open>Remote_Events\<close>: what follows for the key events and the times of repeats.
  \<^item> \<open>Captureif\<close> (\<^verbatim>\<open>captureif.c\<close>, \<^verbatim>\<open>captureif.h\<close>): the capture data, and the callbacks as the locale
    \<open>capture_client\<close>, whose laws say what a callback adds to the state of the client and what others may have taken of it. \<open>Lirc_Callback\<close> (\<^verbatim>\<open>lirc_callback.c\<close>) interprets it. \<open>Capture_Bluez\<close>
    (\<^verbatim>\<open>capture/capture_bluez.c\<close>) proves the capture loop for every such client, \<open>Capture_Props\<close> states the
    results for the LIRC callbacks.
  \<^item> \<open>Pipeline\<close>: the callbacks and the passes of the LIRC thread interleaved over one \<open>lirc_data\<close>: what the remote sent
    is what the clients and the input device see. \<open>Pipeline_Fine\<close>: the same with the steps of \<open>Queue_Conc\<close>, at the grain of
    the queue's mutex. \<open>Pipeline_Live\<close>: once nothing new arrives, a measure bounds the steps until every packet is
    handled and the queue is empty; the LIRC thread stops on the way only for want of room in the table (\<open>roomy\<close>), a
    clock that runs backwards (\<open>timely\<close>) or \<open>2 ^ 31\<close> repeats.
  \<^item> \<open>Shutdown\<close>: the three threads, the flag \<open>__io_canceled\<close> and signals as a step relation over the queue and the mutexes:
    what is torn down when, how long the end takes (a measure, at most fifty steps beside rounds
    of \<open>queueRemNonBlock\<close> whose deadline is refused), and the waits in which
    the daemon can be left for ever. \<open>Daemon\<close> takes
    \<open>pthread_join\<close> for a call that returns; when it does not is shown here.
  \<^item> \<open>Main_App\<close> (\<^verbatim>\<open>bdremoteng.c\<close>): \<open>getopt\<close> and \<open>atoi\<close> of the C library, the options and their round trip
    through a command line, \<open>main\<close>. \<open>Daemon\<close>: how the main thread can end and when privileges are dropped; the other two
    threads are created and joined there, what they do is in \<open>Capture_Bluez\<close> and \<open>Lirc_Thr\<close>, what can stop them
    in \<open>Remote\<close>, \<open>Remote_Events\<close> and \<open>Table_Conc\<close>.

  \<^bold>\<open>Fuel.\<close> Loops that wait for the outside (the accept loop, the capture loops, the waits on the queue, the loop of the LIRC
  thread) take a bound on their rounds and stop with \<open>Out_of_fuel\<close> when it is used up. The theorems
  say when that cannot happen: each round makes a call, so \<open>N\<close> rounds are enough under
  \<open>cancels_after os N\<close>; a silent remote needs \<open>timeout + 2\<close> rounds; a write to a socket ends without any bound.

  \<^bold>\<open>Build.\<close> The model is of the build with \<open>BDREMOTE_DEBUG\<close>, whose assertions on the magic numbers the other
  build leaves out, and without \<open>NDEBUG\<close>; \<open>ENABLE_REPEAT\<close> is the argument \<open>enable_repeat\<close>.

  \<^bold>\<open>Not modelled.\<close> The printing of the log macros inside the functions (their text is in
  \<open>Globaldefs\<close>) and of \<open>perror\<close>; the signal masks given to \<open>ppoll\<close>; creation and
  destruction of mutexes and conditions; failing allocations, except where the code tests for them or writes
  to the memory at once in \<open>InitcaptureLoop\<close> and \<open>bt_device_exists\<close>; the build option for systems other
  than Linux. The effect of \<open>sig_term\<close> on the threads is the answer to \<open>Get_canceled\<close>. The functions of
  \<open>Lirc_Srv\<close> are run as if the LIRC thread dropped no client while a client is admitted; that it may is in
  \<open>Table_Conc\<close>. The unit tests
  under \<^verbatim>\<open>test\<close> are not part of the program. Memory is modelled as values: a struct is a record, a string an owned
  value, a null pointer \<open>None\<close>.
\<close>

end
